(* ===== verification/Kernel_Prelude.thy ===== *)
theory Kernel_Prelude
  imports Main "HOL-Library.Word" "HOL-Library.Monad_Syntax"
begin

text \<open>
  Shared vocabulary of the Cavern kernel development.

  The kernel is built in the \<^verbatim>\<open>debug\<close> profile (\<^verbatim>\<open>justfile\<close>), so a failing
  \<^verbatim>\<open>assert!\<close>, an \<^verbatim>\<open>unwrap\<close> of \<^verbatim>\<open>None\<close>, an index out of range and an
  overflowing \<^verbatim>\<open>+\<close>, \<^verbatim>\<open>-\<close> or \<^verbatim>\<open>*\<close> all panic.  A computation that may panic has
  type \<open>'a panics\<close>: \<open>None\<close> is the panic and \<open>Some r\<close> is a normal return of \<open>r\<close>.
  A Rust \<^verbatim>\<open>Result<T, E>\<close> is the sum type with \<open>Inl\<close> for the error, a Rust
  \<^verbatim>\<open>Option<T>\<close> stays an option inside the result.

  A \<^verbatim>\<open>usize\<close> is a natural number; every operation that can overflow is one of
  the checked operations below.  Values that the code takes apart bit by bit (page table
  entries, handles, bit sets, registers) are words of their width.  Machine memory is a
  function from byte addresses to 64-bit cells; every cell access of the kernel that is
  modelled is 8-byte aligned, so two accesses alias exactly when their addresses are equal.
\<close>

unbundle bit_operations_syntax

section \<open>Types\<close>

type_synonym usize = nat
type_synonym u8 = "8 word"
type_synonym u32 = "32 word"
type_synonym u64 = "64 word"
type_synonym 'a panics = "'a option"
type_synonym mem = "usize \<Rightarrow> u64"

abbreviation (input) panic :: "'a panics" where
  "panic \<equiv> None"

section \<open>Checked arithmetic\<close>

definition usize_max :: usize where
  "usize_max = 2 ^ 64 - 1"

definition assert_p :: "bool \<Rightarrow> unit panics" where
  "assert_p b = (if b then Some () else panic)"

definition add_p :: "usize \<Rightarrow> usize \<Rightarrow> usize panics" where
  "add_p a b = (if a + b \<le> usize_max then Some (a + b) else panic)"

definition sub_p :: "usize \<Rightarrow> usize \<Rightarrow> usize panics" where
  "sub_p a b = (if b \<le> a then Some (a - b) else panic)"

definition mul_p :: "usize \<Rightarrow> usize \<Rightarrow> usize panics" where
  "mul_p a b = (if a * b \<le> usize_max then Some (a * b) else panic)"

definition saturating_add :: "usize \<Rightarrow> usize \<Rightarrow> usize" where
  "saturating_add a b = min (a + b) usize_max"

definition saturating_sub :: "usize \<Rightarrow> usize \<Rightarrow> usize" where
  "saturating_sub a b = a - b"

definition nth_p :: "'a list \<Rightarrow> usize \<Rightarrow> 'a panics" where
  "nth_p xs i = (if i < length xs then Some (xs ! i) else panic)"

named_theorems rust_defs \<open>definitions of the checked operations\<close>

declare assert_p_def [rust_defs] add_p_def [rust_defs] sub_p_def [rust_defs]
  mul_p_def [rust_defs] nth_p_def [rust_defs]

lemma assert_p_bind [simp]:
  "Option.bind (assert_p b) f = (if b then f () else panic)"
  by (simp add: assert_p_def)

lemma assert_p_Some [simp]: "assert_p b = Some u \<longleftrightarrow> b"
  by (simp add: assert_p_def)

lemma add_p_Some [simp]: "add_p a b = Some c \<longleftrightarrow> c = a + b \<and> a + b \<le> usize_max"
  by (auto simp: add_p_def)

lemma sub_p_Some [simp]: "sub_p a b = Some c \<longleftrightarrow> c = a - b \<and> b \<le> a"
  by (auto simp: sub_p_def)

lemma mul_p_Some [simp]: "mul_p a b = Some c \<longleftrightarrow> c = a * b \<and> a * b \<le> usize_max"
  by (auto simp: mul_p_def)

lemma nth_p_Some [simp]: "nth_p xs i = Some x \<longleftrightarrow> i < length xs \<and> x = xs ! i"
  by (auto simp: nth_p_def)

section \<open>Powers of two\<close>

text \<open>\<^verbatim>\<open>1usize << k\<close>: a shift by 64 or more overflows.\<close>

definition one_shl :: "usize \<Rightarrow> usize panics" where
  "one_shl k = (if k < 64 then Some (2 ^ k) else panic)"

fun ilog2 :: "usize \<Rightarrow> usize" where
  "ilog2 n = (if n < 2 then 0 else Suc (ilog2 (n div 2)))"

declare ilog2.simps [simp del]

text \<open>\<^verbatim>\<open>usize::checked_next_power_of_two\<close>.\<close>

definition checked_next_power_of_two :: "usize \<Rightarrow> usize option" where
  "checked_next_power_of_two n =
     (if n \<le> 1 then Some 1
      else let p = 2 ^ Suc (ilog2 (n - 1)) in if p \<le> usize_max then Some p else None)"

definition align_offset :: "usize \<Rightarrow> usize \<Rightarrow> usize" where
  "align_offset p align = (align - p mod align) mod align"

lemma one_shl_Some [simp]: "one_shl k = Some n \<longleftrightarrow> n = 2 ^ k \<and> k < 64"
  by (auto simp: one_shl_def)

lemma ilog2_bounds: "0 < n \<Longrightarrow> 2 ^ ilog2 n \<le> n \<and> n < 2 ^ Suc (ilog2 n)"
proof (induction n rule: ilog2.induct)
  case (1 n)
  show ?case
  proof (cases "n < 2")
    case True
    with "1.prems" show ?thesis by (simp add: ilog2.simps [of n])
  next
    case False
    with "1.IH" have "2 ^ ilog2 (n div 2) \<le> n div 2 \<and> n div 2 < 2 ^ Suc (ilog2 (n div 2))" by simp
    then have "2 * 2 ^ ilog2 (n div 2) \<le> n \<and> n < 2 * (2 * 2 ^ ilog2 (n div 2))" by auto
    with False show ?thesis by (simp add: ilog2.simps [of n])
  qed
qed

lemma ilog2_power [simp]: "ilog2 (2 ^ k) = k"
  by (induction k) (simp_all add: ilog2.simps [of "2 * _"] ilog2.simps [of 1] ilog2.simps [of "Suc 0"])

lemma checked_next_power_of_two_power:
  assumes "k < 64"
  shows "checked_next_power_of_two (2 ^ k) = Some (2 ^ k)"
proof (cases k)
  case 0
  then show ?thesis by (simp add: checked_next_power_of_two_def)
next
  case (Suc j)
  have "(1::nat) < 2 ^ k" using Suc by (intro one_less_power) simp_all
  then have b: "2 ^ ilog2 (2 ^ k - 1) \<le> (2 ^ k - 1 :: nat)" "(2 ^ k - 1 :: nat) < 2 ^ Suc (ilog2 (2 ^ k - 1))"
    using ilog2_bounds [of "2 ^ k - 1"] by auto
  have "2 ^ ilog2 (2 ^ k - 1) < (2 ^ k :: nat)" using b(1) \<open>1 < 2 ^ k\<close> by linarith
  then have "ilog2 (2 ^ k - 1) < k" by simp
  moreover have "(2 ^ k :: nat) \<le> 2 ^ Suc (ilog2 (2 ^ k - 1))" using b(2) by linarith
  then have "k \<le> Suc (ilog2 (2 ^ k - 1))" by (simp del: power_Suc)
  ultimately have e: "Suc (ilog2 (2 ^ k - 1)) = k" by simp
  have "(2::nat) ^ k \<le> 2 ^ 63" using assms by (intro power_increasing) auto
  then have "(2::nat) ^ k \<le> usize_max" by (simp add: usize_max_def)
  with e \<open>1 < 2 ^ k\<close> show ?thesis
    unfolding checked_next_power_of_two_def Let_def by (simp del: power_Suc)
qed

lemma checked_next_power_of_two_None:
  assumes "checked_next_power_of_two n = None"
  shows "2 ^ 63 < n"
proof -
  from assms have n: "1 < n" and p: "usize_max < 2 ^ Suc (ilog2 (n - 1))"
    by (auto simp: checked_next_power_of_two_def Let_def split: if_splits)
  have "63 \<le> ilog2 (n - 1)"
  proof (rule ccontr)
    assume "\<not> 63 \<le> ilog2 (n - 1)"
    then have "(2 :: nat) ^ Suc (ilog2 (n - 1)) \<le> 2 ^ 63" by (intro power_increasing) auto
    with p show False by (simp add: usize_max_def del: power_Suc)
  qed
  then have "(2 :: nat) ^ 63 \<le> 2 ^ ilog2 (n - 1)" by (intro power_increasing) auto
  also have "\<dots> \<le> n - 1" using ilog2_bounds [of "n - 1"] n by simp
  finally show ?thesis using n by linarith
qed

lemma checked_next_power_of_two_Some:
  assumes "checked_next_power_of_two n = Some p" and "0 < n"
  shows "p = 2 ^ ilog2 p \<and> n \<le> p \<and> p < 2 * n \<and> ilog2 p < 64"
proof (cases "n = 1")
  case True
  with assms have "p = 1" by (simp add: checked_next_power_of_two_def)
  with True show ?thesis by (simp add: ilog2.simps [of "Suc 0"])
next
  case False
  with assms have n: "1 < n" by simp
  let ?k = "Suc (ilog2 (n - 1))"
  from n assms have p: "p = 2 ^ ?k" "p \<le> usize_max"
    by (auto simp: checked_next_power_of_two_def Let_def split: if_splits)
  have "?k < 64"
  proof (rule ccontr)
    assume "\<not> ?k < 64"
    then have "(2 :: nat) ^ 64 \<le> 2 ^ ?k" by (intro power_increasing) auto
    with p show False by (simp add: usize_max_def del: power_Suc)
  qed
  moreover have "2 ^ ilog2 (n - 1) \<le> n - 1 \<and> n - 1 < 2 ^ ?k" using n by (intro ilog2_bounds) simp
  ultimately show ?thesis using p(1) n by (auto simp del: power_Suc) simp
qed

lemma align_offset_less [simp]: "0 < align \<Longrightarrow> align_offset p align < align"
  by (simp add: align_offset_def)

lemma align_offset_aligned: "0 < align \<Longrightarrow> (p + align_offset p align) mod align = 0"
proof -
  assume "0 < align"
  then have "p mod align + (align - p mod align) = align"
    by (simp add: less_imp_le)
  then show ?thesis
    unfolding align_offset_def by (metis mod_add_eq mod_mod_trivial mod_self)
qed

lemma unat_word_of_nat_u64 [simp]: "n \<le> usize_max \<Longrightarrow> unat (word_of_nat n :: u64) = n"
  by (simp add: unat_of_nat usize_max_def)

lemma unat_u64_le [simp]: "unat (w :: u64) \<le> usize_max"
proof -
  have "unat w < 2 ^ 64" using unsigned_less [of w] by simp
  then show ?thesis by (simp add: usize_max_def)
qed

end
