(* ===== verification/Handle_Alloc.thy ===== *)
theory Handle_Alloc
  imports Kernel_Prelude
begin

text \<open>
  The handle allocator of \<^verbatim>\<open>kernel_core/src/collections/handle_allocator.rs\<close>: an atomic bit set
  of \<^verbatim>\<open>usize\<close> words.  The loop body that looks for a zero bit in one loaded word is
  \<open>try_word\<close>; the operations of one core running alone (\<open>next_handle\<close>,
  \<open>free_handle\<close>) and the interleaved operations of any number of cores (the step relation
  \<open>cstep\<close>, with one step per atomic access) are both built from it.  Handles are the
  values of a \<^verbatim>\<open>u32\<close> as natural numbers, with the overflow checks written out.
\<close>

section \<open>Model\<close>

datatype HandleError = NotAllocated | OutOfBounds

record HandleAllocator =
  bits :: "u64 list"
  max_handle :: nat

definition u32_p :: "nat \<Rightarrow> nat panics" where
  "u32_p n = (if n < 2 ^ 32 then Some n else panic)"

definition handle_allocator_new :: "nat \<Rightarrow> HandleAllocator" where
  "handle_allocator_new mh = \<lparr> bits = replicate ((mh + 63) div 64) 0, max_handle = mh \<rparr>"

definition trailing_zeros :: "u64 \<Rightarrow> nat" where
  "trailing_zeros x = length (takeWhile (\<lambda>i. \<not> bit x i) [0..<64])"

text \<open>The mask \<^verbatim>\<open>1 << n\<close> of a bit number below 64.\<close>

definition handle_mask :: "nat \<Rightarrow> u64" where
  "handle_mask z = push_bit z 1"

text \<open>One round of the inner loop of \<^verbatim>\<open>next_handle\<close> for the loaded word \<open>current\<close>:
  \<open>None\<close> leaves the loop, otherwise the handle and the word to store.\<close>

definition try_word :: "nat \<Rightarrow> nat \<Rightarrow> u64 \<Rightarrow> (nat \<times> u64) option panics" where
  "try_word mh word_index current =
     (if current = -1 then Some None
      else do {
        let zero_bit = trailing_zeros (NOT current);
        wi \<leftarrow> u32_p word_index;
        base \<leftarrow> u32_p (wi * 64);
        bit_index \<leftarrow> u32_p (base + zero_bit);
        if bit_index \<ge> mh then Some None
        else Some (Some (bit_index, current OR handle_mask zero_bit))
      })"

function next_handle_from :: "HandleAllocator \<Rightarrow> nat \<Rightarrow> (nat option \<times> HandleAllocator) panics" where
  "next_handle_from a word_index =
     (if word_index < length (bits a) then do {
        r \<leftarrow> try_word (max_handle a) word_index (bits a ! word_index);
        case r of
          None \<Rightarrow> next_handle_from a (word_index + 1)
        | Some (h, new) \<Rightarrow> Some (Some h, a\<lparr>bits := (bits a)[word_index := new]\<rparr>)
      } else Some (None, a))"
  by pat_completeness auto
termination
  by (relation "measure (\<lambda>(a, i). length (bits a) - i)") auto

declare next_handle_from.simps [simp del]

definition next_handle :: "HandleAllocator \<Rightarrow> (nat option \<times> HandleAllocator) panics" where
  "next_handle a = next_handle_from a 0"

definition free_handle :: "HandleAllocator \<Rightarrow> nat \<Rightarrow> ((HandleError + unit) \<times> HandleAllocator) panics" where
  "free_handle a handle =
     (if \<not> handle < max_handle a then Some (Inl OutOfBounds, a)
      else do {
        let word_index = handle div 64;
        let bit_index = handle mod 64;
        let m = handle_mask bit_index;
        current \<leftarrow> nth_p (bits a) word_index;
        if current AND m = 0 then Some (Inl NotAllocated, a)
        else Some (Inr (), a\<lparr>bits := (bits a)[word_index := current AND NOT m]\<rparr>)
      })"

section \<open>The set of allocated handles\<close>

definition handle_set :: "u64 list \<Rightarrow> nat set" where
  "handle_set B = {h. h div 64 < length B \<and> bit (B ! (h div 64)) (h mod 64)}"

definition handles_inv :: "HandleAllocator \<Rightarrow> bool" where
  "handles_inv a \<longleftrightarrow>
     length (bits a) = (max_handle a + 63) div 64 \<and> max_handle a < 2 ^ 32 \<and>
     handle_set (bits a) \<subseteq> {..<max_handle a}"

lemma bit_handle_mask: "bit (handle_mask z) i \<longleftrightarrow> i = z \<and> z < 64"
  by (auto simp: handle_mask_def bit_exp_iff)

lemma handle_set_set:
  assumes "w < length B" and "z < 64"
  shows "handle_set (B[w := B ! w OR handle_mask z]) = insert (w * 64 + z) (handle_set B)"
proof -
  have "bit ((B ! w OR handle_mask z) :: u64) i \<longleftrightarrow> bit (B ! w) i \<or> i = z" if "i < 64" for i
    using that assms(2) by (auto simp: bit_or_iff bit_handle_mask)
  moreover have "h mod 64 < 64" for h :: nat by simp
  ultimately have b: "bit ((B ! w OR handle_mask z) :: u64) (h mod 64) \<longleftrightarrow> bit (B ! w) (h mod 64) \<or> h mod 64 = z" for h
    by blast
  have d: "h div 64 = w \<and> h mod 64 = z \<longleftrightarrow> h = w * 64 + z" for h using assms(2) by auto
  show ?thesis
  proof (rule set_eqI)
    fix h show "h \<in> handle_set (B[w := B ! w OR handle_mask z]) \<longleftrightarrow> h \<in> insert (w * 64 + z) (handle_set B)"
      using assms(1) b [of h] d [of h] by (cases "h div 64 = w") (auto simp: handle_set_def)
  qed
qed

lemma handle_set_clear:
  assumes "w < length B" and "z < 64"
  shows "handle_set (B[w := B ! w AND NOT (handle_mask z)]) = handle_set B - {w * 64 + z}"
proof -
  have "bit ((B ! w AND NOT (handle_mask z)) :: u64) i \<longleftrightarrow> bit (B ! w) i \<and> i \<noteq> z" if "i < 64" for i
    using that assms(2) by (auto simp: bit_and_iff bit_not_iff bit_handle_mask)
  moreover have "h mod 64 < 64" for h :: nat by simp
  ultimately have b: "bit ((B ! w AND NOT (handle_mask z)) :: u64) (h mod 64) \<longleftrightarrow> bit (B ! w) (h mod 64) \<and> h mod 64 \<noteq> z" for h
    by blast
  have d: "h div 64 = w \<and> h mod 64 = z \<longleftrightarrow> h = w * 64 + z" for h using assms(2) by auto
  show ?thesis
  proof (rule set_eqI)
    fix h show "h \<in> handle_set (B[w := B ! w AND NOT (handle_mask z)]) \<longleftrightarrow> h \<in> handle_set B - {w * 64 + z}"
      using assms(1) b [of h] d [of h] by (cases "h div 64 = w") (auto simp: handle_set_def)
  qed
qed

lemma and_bit_zero: "(x :: u64) AND handle_mask z = 0 \<longleftrightarrow> \<not> bit x z" if "z < 64"
proof -
  have "bit (x AND handle_mask z) i \<longleftrightarrow> i = z \<and> bit x z" for i
    using that by (auto simp: bit_and_iff bit_handle_mask)
  then show ?thesis by (metis bit_0_eq bit_word_eqI bot_apply bot_bool_def)
qed

text \<open>The first zero bit of a word that has one.\<close>

lemma trailing_zeros_spec:
  assumes "x \<noteq> (-1 :: u64)" and "z = trailing_zeros (NOT x)"
  shows "z < 64" and "\<not> bit x z" and "i < z \<Longrightarrow> bit x i"
proof -
  let ?l = "takeWhile (\<lambda>i. \<not> bit (NOT x) i) [0..<64]"
  have "\<exists>i < 64. \<not> bit x i"
  proof (rule ccontr)
    assume "\<not> (\<exists>i < 64. \<not> bit x i)"
    then have "x = -1" by (intro bit_word_eqI) auto
    with assms(1) show False ..
  qed
  then obtain j where j: "j < 64" "bit (NOT x) j" by (auto simp: bit_not_iff)
  have "length ?l \<noteq> 64"
  proof
    assume "length ?l = 64"
    then have "?l = [0..<64]" by (metis diff_zero length_upt takeWhile_eq_take take_all order_refl)
    then have "\<not> bit (NOT x) j" using j(1) by (metis atLeastLessThan_iff le0 set_takeWhileD set_upt)
    with j(2) show False by blast
  qed
  moreover have "length ?l \<le> 64" using length_takeWhile_le [of _ "[0..<64]"] by simp
  ultimately show z: "z < 64" by (simp add: assms(2) trailing_zeros_def)
  have l: "z = length ?l" by (simp add: assms(2) trailing_zeros_def)
  have "\<not> \<not> bit (NOT x) ([0..<64] ! z)" unfolding l by (rule nth_length_takeWhile) (use z l in simp)
  then show "\<not> bit x z" using z by (simp add: bit_not_iff)
  assume i: "i < z"
  then have "?l ! i = [0..<64] ! i" using l by (intro takeWhile_nth) simp
  moreover have "\<not> bit (NOT x) (?l ! i)" using i l nth_mem [of i ?l] by (metis set_takeWhileD)
  ultimately show "bit x i" using i z by (simp add: bit_not_iff)
qed

lemma try_word_spec:
  assumes "mh < 2 ^ 32" and "w < (mh + 63) div 64"
  shows "\<exists>r. try_word mh w x = Some r"
    and "try_word mh w x = Some (Some (h, new)) \<Longrightarrow>
      \<exists>z < 64. h = w * 64 + z \<and> h < mh \<and> \<not> bit x z \<and> new = x OR handle_mask z \<and> (\<forall>i < z. bit x i)"
    and "try_word mh w x = Some None \<Longrightarrow> \<forall>i < 64. w * 64 + i < mh \<longrightarrow> bit x i"
proof -
  have w: "w * 64 < mh" using assms(2) by linarith
  have all: "\<forall>i < 64. bit (-1 :: u64) i" by simp
  have run: "try_word mh w x = (if w * 64 + z \<ge> mh then Some None else Some (Some (w * 64 + z, x OR handle_mask z)))"
    if "x \<noteq> -1" "z = trailing_zeros (NOT x)" for z
  proof -
    have "w * 64 + z < 2 ^ 32" using trailing_zeros_spec(1) [OF that] w assms(1)
      by simp presburger
    then show ?thesis using that w assms(1) by (simp add: try_word_def u32_p_def Let_def)
  qed
  show "\<exists>r. try_word mh w x = Some r"
    by (cases "x = -1") (simp add: try_word_def, simp add: run [OF _ refl])
  show "\<exists>z < 64. h = w * 64 + z \<and> h < mh \<and> \<not> bit x z \<and> new = x OR handle_mask z \<and> (\<forall>i < z. bit x i)"
    if t: "try_word mh w x = Some (Some (h, new))"
  proof -
    have x: "x \<noteq> -1" using t by (auto simp: try_word_def)
    note tz = trailing_zeros_spec [OF x refl]
    show ?thesis using t run [OF x refl] tz by (intro exI [of _ "trailing_zeros (NOT x)"]) (auto split: if_splits)
  qed
  show "\<forall>i < 64. w * 64 + i < mh \<longrightarrow> bit x i" if t: "try_word mh w x = Some None"
  proof (cases "x = -1")
    case False
    then have "mh \<le> w * 64 + trailing_zeros (NOT x)" using t run [OF False refl] by (auto split: if_splits)
    then show ?thesis using trailing_zeros_spec(3) [OF False refl] by auto
  qed (use all in simp)
qed

text \<open>What the allocator promises: a set of handles below a bound, of which \<open>next_handle\<close> adds
  the least missing one and \<open>free_handle\<close> removes one.\<close>

definition next_spec :: "nat \<Rightarrow> nat set \<Rightarrow> nat option \<times> nat set" where
  "next_spec mh S = (if S = {..<mh} then (None, S) else let h = (LEAST h. h \<notin> S) in (Some h, insert h S))"

definition free_spec :: "nat \<Rightarrow> nat set \<Rightarrow> nat \<Rightarrow> (HandleError + unit) \<times> nat set" where
  "free_spec mh S h =
     (if mh \<le> h then (Inl OutOfBounds, S) else if h \<notin> S then (Inl NotAllocated, S) else (Inr (), S - {h}))"

section \<open>The operations of one core\<close>

lemma scan_spec:
  assumes "handles_inv a" and "\<forall>h < w * 64. h < max_handle a \<longrightarrow> h \<in> handle_set (bits a)"
  shows "case next_handle_from a w of
      None \<Rightarrow> False
    | Some (None, a') \<Rightarrow> a' = a \<and> handle_set (bits a) = {..<max_handle a}
    | Some (Some h, a') \<Rightarrow> handles_inv a' \<and> max_handle a' = max_handle a \<and> h < max_handle a \<and>
        h \<notin> handle_set (bits a) \<and> {..<h} \<subseteq> handle_set (bits a) \<and>
        handle_set (bits a') = insert h (handle_set (bits a))"
  using assms
proof (induction a w rule: next_handle_from.induct)
  case (1 a w)
  let ?mh = "max_handle a"
  have len: "length (bits a) = (?mh + 63) div 64" and mh: "?mh < 2 ^ 32"
    and sub: "handle_set (bits a) \<subseteq> {..<?mh}" using "1.prems"(1) by (auto simp: handles_inv_def)
  show ?case
  proof (cases "w < length (bits a)")
    case False
    have "?mh \<le> w * 64" using False len by linarith
    then have "handle_set (bits a) = {..<?mh}" using "1.prems"(2) sub by (auto intro: less_le_trans)
    then show ?thesis using False by (simp add: next_handle_from.simps [of a w])
  next
    case True
    let ?x = "bits a ! w"
    have w: "w < (?mh + 63) div 64" using True len by simp
    note tw = try_word_spec [OF mh w, of ?x]
    obtain r where r: "try_word ?mh w ?x = Some r" using tw(1) by blast
    show ?thesis
    proof (cases r)
      case None
      have "h \<in> handle_set (bits a)" if "h < Suc w * 64" "h < ?mh" for h
      proof (cases "h < w * 64")
        case True then show ?thesis using "1.prems"(2) that by blast
      next
        case False
        then have "h div 64 = w" using that(1) by auto
        then have "h div 64 = w" "h = w * 64 + h mod 64" using div_mult_mod_eq [of h 64] by simp_all
        moreover have "w * 64 + h mod 64 < ?mh" using calculation(2) that(2) by simp
        ultimately have "bit ?x (h mod 64)" using tw(3) r None by simp
        then show ?thesis using True \<open>h div 64 = w\<close> by (simp add: handle_set_def)
      qed
      then show ?thesis using "1.IH" [OF True r None] "1.prems"(1) True r None
        by (simp add: next_handle_from.simps [of a w])
    next
      case (Some p)
      obtain h new where p: "p = (h, new)" by fastforce
      obtain z where z: "z < 64" "h = w * 64 + z" "h < ?mh" "\<not> bit ?x z" "new = ?x OR handle_mask z" "\<forall>i < z. bit ?x i"
        using tw(2) r Some p by blast
      let ?a = "a\<lparr>bits := (bits a)[w := new]\<rparr>"
      have e: "next_handle_from a w = Some (Some h, ?a)"
        using True r Some p by (simp add: next_handle_from.simps [of a w])
      have hs: "handle_set (bits ?a) = insert h (handle_set (bits a))" using handle_set_set [OF True z(1)] z by simp
      have d: "h div 64 = w" "h mod 64 = z" using z(1,2) by auto
      have "h \<notin> handle_set (bits a)" using z(4) d by (simp add: handle_set_def)
      moreover have "k \<in> handle_set (bits a)" if k: "k < h" for k
      proof (cases "k < w * 64")
        case True then show ?thesis using "1.prems"(2) k z(3) by auto
      next
        case False
        then have "k div 64 = w" using k z(1,2) by auto
        moreover have "k mod 64 < z" using calculation div_mult_mod_eq [of k 64] k z(2) by simp
        moreover note \<open>w < length (bits a)\<close>
        ultimately show ?thesis using z(6) by (simp add: handle_set_def)
      qed
      moreover have "handles_inv ?a" using hs sub z(3) len mh by (auto simp: handles_inv_def)
      ultimately show ?thesis using e hs z(3) by auto
    qed
  qed
qed

lemma next_handle_spec:
  assumes "handles_inv a"
  shows "case next_handle a of
      None \<Rightarrow> False
    | Some (None, a') \<Rightarrow> a' = a \<and> handle_set (bits a) = {..<max_handle a}
    | Some (Some h, a') \<Rightarrow> handles_inv a' \<and> max_handle a' = max_handle a \<and> h < max_handle a \<and>
        h \<notin> handle_set (bits a) \<and> {..<h} \<subseteq> handle_set (bits a) \<and>
        handle_set (bits a') = insert h (handle_set (bits a))"
  unfolding next_handle_def using assms by (rule scan_spec) simp

lemma free_handle_spec:
  assumes "handles_inv a"
  shows "free_handle a h =
     (if \<not> h < max_handle a then Some (Inl OutOfBounds, a)
      else if h \<notin> handle_set (bits a) then Some (Inl NotAllocated, a)
      else Some (Inr (), a\<lparr>bits := (bits a)[h div 64 := bits a ! (h div 64) AND NOT (handle_mask (h mod 64))]\<rparr>))"
proof (cases "h < max_handle a")
  case True
  then have "h div 64 < length (bits a)" using assms by (auto simp: handles_inv_def)
  then show ?thesis using True and_bit_zero [of "h mod 64" "bits a ! (h div 64)"]
    by (auto simp: free_handle_def nth_p_def handle_set_def Let_def)
qed (simp add: free_handle_def)

lemma free_handle_frees:
  assumes "handles_inv a" and "h \<in> handle_set (bits a)"
  obtains a' where "free_handle a h = Some (Inr (), a')" and "handles_inv a'"
    and "max_handle a' = max_handle a" and "handle_set (bits a') = handle_set (bits a) - {h}"
proof
  let ?w = "h div 64"
  let ?a = "a\<lparr>bits := (bits a)[?w := bits a ! ?w AND NOT (handle_mask (h mod 64))]\<rparr>"
  have w: "?w < length (bits a)" using assms(2) by (simp add: handle_set_def)
  have "h < max_handle a" using assms by (auto simp: handles_inv_def)
  then show "free_handle a h = Some (Inr (), ?a)" using assms(2) free_handle_spec [OF assms(1), of h] by simp
  show s: "handle_set (bits ?a) = handle_set (bits a) - {h}" using handle_set_clear [OF w, of "h mod 64"] by simp
  show "handles_inv ?a" using assms(1) s by (auto simp: handles_inv_def)
  show "max_handle ?a = max_handle a" by simp
qed

text \<open>\<^verbatim>\<open>next_handle\<close> refines the set allocator.  It never panics.  It returns \<open>None\<close> exactly
  when all handles below \<^verbatim>\<open>max_handle\<close> are allocated; otherwise it returns the least handle
  that is not allocated and marks that one, and no other.\<close>

lemma next_handle_refines:
  assumes "handles_inv a"
  shows "\<exists>a'. next_handle a = Some (fst (next_spec (max_handle a) (handle_set (bits a))), a') \<and>
    handle_set (bits a') = snd (next_spec (max_handle a) (handle_set (bits a))) \<and>
    handles_inv a' \<and> max_handle a' = max_handle a"
proof (cases "next_handle a")
  case (Some p)
  obtain r a' where p: "p = (r, a')" by fastforce
  show ?thesis
  proof (cases r)
    case None
    then show ?thesis using Some p next_handle_spec [OF assms] assms by (simp add: next_spec_def)
  next
    case (Some h)
    note f = next_handle_spec [OF assms, unfolded \<open>next_handle a = Some p\<close> p Some, simplified]
    have "(LEAST h. h \<notin> handle_set (bits a)) = h"
      by (rule Least_equality) (use f in \<open>auto simp: not_less [symmetric]\<close>)
    moreover have "handle_set (bits a) \<noteq> {..<max_handle a}" using f by auto
    ultimately show ?thesis using \<open>next_handle a = Some p\<close> p Some f by (simp add: next_spec_def)
  qed
qed (use next_handle_spec [OF assms] in simp)

text \<open>\<^verbatim>\<open>free_handle\<close> refines the set allocator: a handle out of bounds or not allocated is
  an error that changes nothing, an allocated handle becomes free and no other changes.\<close>

lemma free_handle_refines:
  assumes "handles_inv a"
  shows "\<exists>a'. free_handle a h = Some (fst (free_spec (max_handle a) (handle_set (bits a)) h), a') \<and>
    handle_set (bits a') = snd (free_spec (max_handle a) (handle_set (bits a)) h) \<and>
    handles_inv a' \<and> max_handle a' = max_handle a"
proof (cases "h \<in> handle_set (bits a)")
  case True
  then have "\<not> max_handle a \<le> h" using assms by (auto simp: handles_inv_def)
  with True show ?thesis using free_handle_frees [OF assms True] by (simp add: free_spec_def) blast
next
  case False
  then show ?thesis using assms by (auto simp: free_handle_spec free_spec_def)
qed

lemma handles_inv_new: "mh < 2 ^ 32 \<Longrightarrow> handles_inv (handle_allocator_new mh)"
  by (auto simp: handles_inv_def handle_allocator_new_def handle_set_def)

lemma handle_set_new [simp]: "handle_set (bits (handle_allocator_new mh)) = {}"
  by (auto simp: handle_allocator_new_def handle_set_def)

lemma max_handle_new [simp]: "max_handle (handle_allocator_new mh) = mh"
  by (simp add: handle_allocator_new_def)

text \<open>An allocator of 70 handles of which the first word is full and handle 64 is taken.\<close>

definition handles70 :: HandleAllocator where
  "handles70 = \<lparr> bits = [-1, 1], max_handle = 70 \<rparr>"

lemma handles70_set: "handle_set (bits handles70) = {..<65}"
proof (rule set_eqI)
  fix h :: nat
  consider "h < 64" | "h = 64" | "64 < h" "h < 128" | "128 \<le> h" by linarith
  then show "h \<in> handle_set (bits handles70) \<longleftrightarrow> h \<in> {..<65}"
  proof cases
    case 3
    then have "h div 64 = 1" "h mod 64 = h - 64" by (simp_all add: mod_if)
    then show ?thesis using 3 by (auto simp: handle_set_def handles70_def bit_1_iff)
  qed (auto simp: handle_set_def handles70_def bit_1_iff)
qed

lemma handles70_inv: "handles_inv handles70"
  unfolding handles_inv_def handles70_set by (simp add: handles70_def)

lemma least_65: "(LEAST h :: nat. \<not> h < 65) = 65"
  by (rule Least_equality) auto

lemma next_handle_refines_example:
  "handles_inv handles70 \<and> (\<exists>a'. next_handle handles70 = Some (Some 65, a') \<and> handle_set (bits a') = {..<66})"
proof -
  have n: "next_spec (max_handle handles70) (handle_set (bits handles70)) = (Some 65, {..<66})"
    using lessThan_Suc [of 65] by (simp add: handles70_set next_spec_def least_65 Let_def) (simp add: handles70_def)
  show ?thesis using next_handle_refines [OF handles70_inv] handles70_inv unfolding n by auto
qed

lemma free_handle_refines_example:
  "handles_inv handles70 \<and> (\<exists>a'. free_handle handles70 3 = Some (Inr (), a') \<and> handle_set (bits a') = {..<65} - {3}) \<and>
   (\<exists>a'. free_handle handles70 66 = Some (Inl NotAllocated, a'))"
proof -
  have "free_spec (max_handle handles70) (handle_set (bits handles70)) 3 = (Inr (), {..<65} - {3})"
    "free_spec (max_handle handles70) (handle_set (bits handles70)) 66 = (Inl NotAllocated, {..<65})"
    by (simp_all add: handles70_set free_spec_def) (simp_all add: handles70_def)
  then show ?thesis using free_handle_refines [OF handles70_inv, of 3] free_handle_refines [OF handles70_inv, of 66]
      handles70_inv by auto
qed

section \<open>Interleaved operations\<close>

text \<open>
  Any number of cores call \<^verbatim>\<open>next_handle\<close> and \<^verbatim>\<open>free_handle\<close> at the same time.  A step is one
  atomic access to a word of the bit set together with the computation up to the next access.
  A weak exchange may fail although the word has the expected value.  The state of a call is the
  position it waits at: \<open>Scanning w\<close> before the load of word \<open>w\<close>, \<open>Setting w cur h new\<close>
  before the exchange of \<open>cur\<close> by \<open>new\<close>, \<open>Loading h\<close> and \<open>Clearing h cur\<close> before the load
  and the exchange of \<^verbatim>\<open>free_handle\<close>.  Only one word decides each operation, so the order that
  single locations have under any memory ordering is enough.
\<close>

datatype call = NextDone "nat option" | FreeDone "HandleError + unit"
  | Scanning nat | Setting nat u64 nat u64 | Loading nat | Clearing nat u64

datatype hevent = Quiet | Allocated nat | Freed nat | Refused nat

definition scan_at :: "HandleAllocator \<Rightarrow> nat \<Rightarrow> call" where
  "scan_at a w = (if w < length (bits a) then Scanning w else NextDone None)"

definition loaded_word :: "HandleAllocator \<Rightarrow> nat \<Rightarrow> u64 \<Rightarrow> call panics" where
  "loaded_word a w current = do {
     r \<leftarrow> try_word (max_handle a) w current;
     Some (case r of None \<Rightarrow> scan_at a (w + 1) | Some (h, new) \<Rightarrow> Setting w current h new)
   }"

definition set_word :: "HandleAllocator \<Rightarrow> nat \<Rightarrow> u64 \<Rightarrow> HandleAllocator" where
  "set_word a w x = a\<lparr>bits := (bits a)[w := x]\<rparr>"

definition allocated_in :: "nat \<Rightarrow> u64 \<Rightarrow> bool" where
  "allocated_in h current \<longleftrightarrow> current AND handle_mask (h mod 64) \<noteq> 0"

inductive call_step :: "HandleAllocator \<Rightarrow> call \<Rightarrow> hevent \<Rightarrow> HandleAllocator \<Rightarrow> call \<Rightarrow> bool" where
  load: "\<lbrakk> w < length (bits a); loaded_word a w (bits a ! w) = Some t \<rbrakk> \<Longrightarrow>
    call_step a (Scanning w) Quiet a t"
| exchange: "\<lbrakk> w < length (bits a); bits a ! w = cur \<rbrakk> \<Longrightarrow>
    call_step a (Setting w cur h new) (Allocated h) (set_word a w new) (NextDone (Some h))"
| exchange_fails: "\<lbrakk> w < length (bits a); loaded_word a w (bits a ! w) = Some t \<rbrakk> \<Longrightarrow>
    call_step a (Setting w cur h new) Quiet a t"
| free_load: "\<lbrakk> h div 64 < length (bits a); cur = bits a ! (h div 64); allocated_in h cur \<rbrakk> \<Longrightarrow>
    call_step a (Loading h) Quiet a (Clearing h cur)"
| free_load_refused: "\<lbrakk> h div 64 < length (bits a); \<not> allocated_in h (bits a ! (h div 64)) \<rbrakk> \<Longrightarrow>
    call_step a (Loading h) (Refused h) a (FreeDone (Inl NotAllocated))"
| clear: "\<lbrakk> h div 64 < length (bits a); bits a ! (h div 64) = cur \<rbrakk> \<Longrightarrow>
    call_step a (Clearing h cur) (Freed h) (set_word a (h div 64) (cur AND NOT (handle_mask (h mod 64)))) (FreeDone (Inr ()))"
| clear_fails: "\<lbrakk> h div 64 < length (bits a); prev = bits a ! (h div 64); allocated_in h prev \<rbrakk> \<Longrightarrow>
    call_step a (Clearing h cur) Quiet a (Clearing h prev)"
| clear_refused: "\<lbrakk> h div 64 < length (bits a); \<not> allocated_in h (bits a ! (h div 64)) \<rbrakk> \<Longrightarrow>
    call_step a (Clearing h cur) (Refused h) a (FreeDone (Inl NotAllocated))"

fun returned :: "call \<Rightarrow> bool" where
  "returned (NextDone r) = True"
| "returned (FreeDone r) = True"
| "returned _ = False"

definition call_free :: "HandleAllocator \<Rightarrow> nat \<Rightarrow> call" where
  "call_free a h = (if \<not> h < max_handle a then FreeDone (Inl OutOfBounds) else Loading h)"

text \<open>The cores: each runs one call at a time.\<close>

type_synonym cores = "HandleAllocator \<times> (nat \<Rightarrow> call)"

inductive core_step :: "cores \<Rightarrow> hevent \<Rightarrow> cores \<Rightarrow> bool" where
  begin_next: "returned (ts i) \<Longrightarrow> core_step (a, ts) Quiet (a, ts(i := scan_at a 0))"
| begin_free: "returned (ts i) \<Longrightarrow> core_step (a, ts) Quiet (a, ts(i := call_free a h))"
| call: "call_step a (ts i) e a' t \<Longrightarrow> core_step (a, ts) e (a', ts(i := t))"

inductive core_run :: "cores \<Rightarrow> hevent list \<Rightarrow> cores \<Rightarrow> bool" where
  stop: "core_run s [] s"
| more: "\<lbrakk> core_run s es s'; core_step s' e s'' \<rbrakk> \<Longrightarrow> core_run s (es @ [e]) s''"

definition cores_init :: "nat \<Rightarrow> cores" where
  "cores_init mh = (handle_allocator_new mh, \<lambda>_. NextDone None)"

inductive_cases call_stepE: "call_step a t e a' t'"
inductive_cases core_stepE: "core_step s e s'"
inductive_cases core_run_NilE: "core_run s [] s'"

text \<open>The set allocator as an automaton on the events.\<close>

fun set_step :: "nat \<Rightarrow> nat set \<Rightarrow> hevent \<Rightarrow> nat set option" where
  "set_step mh S Quiet = Some S"
| "set_step mh S (Allocated h) = (if h < mh \<and> h \<notin> S then Some (insert h S) else None)"
| "set_step mh S (Freed h) = (if h \<in> S then Some (S - {h}) else None)"
| "set_step mh S (Refused h) = (if h < mh \<and> h \<notin> S then Some S else None)"

fun set_run :: "nat \<Rightarrow> nat set \<Rightarrow> hevent list \<Rightarrow> nat set option" where
  "set_run mh S [] = Some S"
| "set_run mh S (e # es) = do { S' \<leftarrow> set_step mh S e; set_run mh S' es }"

fun call_ok :: "HandleAllocator \<Rightarrow> call \<Rightarrow> bool" where
  "call_ok a (Scanning w) \<longleftrightarrow> w < length (bits a)"
| "call_ok a (Setting w cur h new) \<longleftrightarrow> w < length (bits a) \<and> try_word (max_handle a) w cur = Some (Some (h, new))"
| "call_ok a (Loading h) \<longleftrightarrow> h < max_handle a"
| "call_ok a (Clearing h cur) \<longleftrightarrow> h < max_handle a \<and> allocated_in h cur"
| "call_ok a _ \<longleftrightarrow> True"

definition cores_inv :: "nat \<Rightarrow> cores \<Rightarrow> bool" where
  "cores_inv mh s \<longleftrightarrow> handles_inv (fst s) \<and> max_handle (fst s) = mh \<and> (\<forall>i. call_ok (fst s) (snd s i))"

lemma call_ok_cong:
  assumes "handles_inv a" and "handles_inv a'" and "max_handle a' = max_handle a"
  shows "call_ok a' t = call_ok a t"
  using assms by (cases t) (simp_all add: handles_inv_def)

lemma allocated_in_iff:
  assumes "handles_inv a" and "h < max_handle a"
  shows "h div 64 < length (bits a)" and "allocated_in h (bits a ! (h div 64)) \<longleftrightarrow> h \<in> handle_set (bits a)"
proof -
  show w: "h div 64 < length (bits a)" using assms by (auto simp: handles_inv_def)
  show "allocated_in h (bits a ! (h div 64)) \<longleftrightarrow> h \<in> handle_set (bits a)"
    using w and_bit_zero [of "h mod 64" "bits a ! (h div 64)"] by (simp add: allocated_in_def handle_set_def)
qed

lemma loaded_word_ok:
  assumes "handles_inv a" and "w < length (bits a)"
  shows "\<exists>t. loaded_word a w cur = Some t \<and> call_ok a t"
proof -
  have "max_handle a < 2 ^ 32" "w < (max_handle a + 63) div 64" using assms by (auto simp: handles_inv_def)
  then obtain r where "try_word (max_handle a) w cur = Some r" using try_word_spec(1) by blast
  then show ?thesis using assms(2)
    by (auto simp: loaded_word_def scan_at_def split: option.splits)
qed

lemma set_word_sets:
  assumes "handles_inv a" and "call_ok a (Setting w (bits a ! w) h new)"
  shows "handles_inv (set_word a w new)" and "handle_set (bits (set_word a w new)) = insert h (handle_set (bits a))"
    and "h < max_handle a" and "h \<notin> handle_set (bits a)"
proof -
  have mh: "max_handle a < 2 ^ 32" "w < (max_handle a + 63) div 64" "w < length (bits a)"
    using assms by (auto simp: handles_inv_def)
  then obtain z where z: "z < 64" "h = w * 64 + z" "h < max_handle a" "\<not> bit (bits a ! w) z"
    "new = bits a ! w OR handle_mask z" using try_word_spec(2) [OF mh(1,2), of "bits a ! w" h new] assms(2) by auto
  show s: "handle_set (bits (set_word a w new)) = insert h (handle_set (bits a))"
    using handle_set_set [OF mh(3) z(1)] z by (simp add: set_word_def)
  show "h < max_handle a" by (rule z(3))
  show "h \<notin> handle_set (bits a)" using z by (simp add: handle_set_def)
  show "handles_inv (set_word a w new)" unfolding handles_inv_def s using assms(1) z(3)
    by (simp add: set_word_def handles_inv_def)
qed

lemma set_word_clears:
  assumes "handles_inv a" and "call_ok a (Clearing h (bits a ! (h div 64)))"
  shows "handles_inv (set_word a (h div 64) (bits a ! (h div 64) AND NOT (handle_mask (h mod 64))))"
    and "handle_set (bits (set_word a (h div 64) (bits a ! (h div 64) AND NOT (handle_mask (h mod 64))))) = handle_set (bits a) - {h}"
    and "h \<in> handle_set (bits a)"
proof -
  have h: "h < max_handle a" "allocated_in h (bits a ! (h div 64))" using assms(2) by simp_all
  note al = allocated_in_iff [OF assms(1) h(1)]
  show "h \<in> handle_set (bits a)" using al h by simp
  show s: "handle_set (bits (set_word a (h div 64) (bits a ! (h div 64) AND NOT (handle_mask (h mod 64))))) = handle_set (bits a) - {h}"
    using handle_set_clear [OF al(1), of "h mod 64"] by (simp add: set_word_def)
  show "handles_inv (set_word a (h div 64) (bits a ! (h div 64) AND NOT (handle_mask (h mod 64))))"
    unfolding handles_inv_def s using assms(1) by (auto simp: set_word_def handles_inv_def)
qed

lemma max_handle_set_word [simp]: "max_handle (set_word a w x) = max_handle a"
  by (simp add: set_word_def)

lemma call_step_ok:
  assumes "call_step a t e a' t'" and "handles_inv a" and "call_ok a t"
  shows "handles_inv a' \<and> max_handle a' = max_handle a \<and> call_ok a' t' \<and>
    set_step (max_handle a) (handle_set (bits a)) e = Some (handle_set (bits a'))"
  using assms
proof (cases rule: call_step.cases)
  case (load w)
  then show ?thesis using loaded_word_ok [OF assms(2), of w "bits a ! w"] assms(2) by auto
next
  case (exchange w cur h new)
  then show ?thesis using set_word_sets [OF assms(2), of w h new] assms(3) by simp
next
  case (exchange_fails w)
  then show ?thesis using loaded_word_ok [OF assms(2), of w "bits a ! w"] assms(2) by auto
next
  case (clear h cur)
  then show ?thesis using set_word_clears [OF assms(2), of h] assms(3) by simp
qed (use assms allocated_in_iff in auto)

lemma core_step_ok:
  assumes "core_step s e s'" and "cores_inv mh s"
  shows "cores_inv mh s' \<and> set_step mh (handle_set (bits (fst s))) e = Some (handle_set (bits (fst s')))"
  using assms
proof (cases rule: core_step.cases)
  case (call a ts i a' t)
  have a: "handles_inv a" "max_handle a = mh" "call_ok a (ts i)" using assms(2) call(1) by (simp_all add: cores_inv_def)
  note cs = call_step_ok [OF call(3) a(1,3)]
  moreover have "call_ok a' (ts j)" for j
    using call_ok_cong [OF a(1), of a' "ts j"] cs assms(2) call(1) by (simp add: cores_inv_def)
  ultimately show ?thesis using a call by (simp add: cores_inv_def)
qed (auto simp: cores_inv_def scan_at_def call_free_def)

lemma set_run_snoc: "set_run mh S (es @ [e]) = do { S' \<leftarrow> set_run mh S es; set_step mh S' e }"
  by (induction es arbitrary: S) (auto split: bind_split)

lemma core_run_ok:
  assumes "core_run s es s'" and "cores_inv mh s"
  shows "cores_inv mh s' \<and> set_run mh (handle_set (bits (fst s))) es = Some (handle_set (bits (fst s')))"
  using assms
proof (induction rule: core_run.induct)
  case (more s es s' e s'')
  then show ?case using core_step_ok [OF more.hyps(2), of mh] by (simp add: set_run_snoc)
qed simp

lemma cores_init_inv: "mh < 2 ^ 32 \<Longrightarrow> cores_inv mh (cores_init mh)"
  by (simp add: cores_inv_def cores_init_def handles_inv_new)

text \<open>C8: for any number of cores and any interleaving of their calls, with weak exchanges that
  may fail spuriously, the events of a run are a run of the set allocator, and the bit set holds
  its state: a handle is handed out only when it is free, freed only when it is allocated, and
  a call of \<^verbatim>\<open>free_handle\<close> is refused only when it is free.\<close>

theorem interleaved_refines_set:
  assumes "mh < 2 ^ 32" and "core_run (cores_init mh) es (a, ts)"
  shows "set_run mh {} es = Some (handle_set (bits a))"
  using core_run_ok [OF assms(2) cores_init_inv [OF assms(1)]] by (simp add: cores_init_def)

text \<open>Two cores race for the same bit: both load the word, core 0 sets bit 0, the exchange of
  core 1 fails and its second round takes handle 1.\<close>

lemma trailing_zeros_eq:
  assumes "bit x z" and "\<forall>i < z. \<not> bit x i" and "z < 64"
  shows "trailing_zeros x = z"
proof -
  have "[0..<64] = [0..<z] @ z # [Suc z..<64]"
    using assms(3) upt_add_eq_append [of 0 z "64 - z"] by (simp add: upt_conv_Cons)
  moreover have "takeWhile (\<lambda>i. \<not> bit x i) ([0..<z] @ z # [Suc z..<64]) = [0..<z]"
    using assms(1,2) by (subst takeWhile_append2) auto
  ultimately show ?thesis by (simp add: trailing_zeros_def)
qed

lemma try_word_examples:
  "try_word 2 0 0 = Some (Some (0, 1))" "try_word 2 0 1 = Some (Some (1, 3))"
  "try_word 1 0 0 = Some (Some (0, 1))"
proof -
  have "trailing_zeros (NOT 0) = 0" "trailing_zeros (NOT 1) = 1"
    by (rule trailing_zeros_eq; simp add: bit_not_iff bit_1_iff)+
  then show "try_word 2 0 0 = Some (Some (0, 1))" "try_word 2 0 1 = Some (Some (1, 3))"
    "try_word 1 0 0 = Some (Some (0, 1))"
    by (simp_all add: try_word_def u32_p_def handle_mask_def)
qed

lemma core_callI:
  "\<lbrakk> call_step a t e a' t'; ts i = t; ts' = ts(i := t') \<rbrakk> \<Longrightarrow> core_step (a, ts) e (a', ts')"
  using core_step.call by blast

lemma race_run:
  "core_run (cores_init 2) [Quiet, Quiet, Quiet, Quiet, Allocated 0, Quiet, Allocated 1]
     (\<lparr>bits = [3], max_handle = 2\<rparr>, (\<lambda>_. NextDone None)(0 := NextDone (Some 0), 1 := NextDone (Some 1)))"
proof -
  let ?a = "\<lambda>x. \<lparr>bits = [x :: u64], max_handle = 2\<rparr>" and ?t = "\<lambda>x y. (\<lambda>_ :: nat. NextDone None)(0 := x, 1 := y)"
  let ?S = "Scanning 0" and ?N = "NextDone None"
  have i: "cores_init 2 = (?a 0, ?t ?N ?N)" by (simp add: cores_init_def handle_allocator_new_def fun_upd_idem)
  have sc: "scan_at (?a x) 0 = ?S" for x by (simp add: scan_at_def)
  have ld: "loaded_word (?a 0) 0 0 = Some (Setting 0 0 0 1)" "loaded_word (?a 1) 0 1 = Some (Setting 0 1 1 3)"
    by (simp_all add: loaded_word_def try_word_examples)
  have "core_step (?a 0, ?t ?N ?N) Quiet (?a 0, ?t ?S ?N)"
    using begin_next [of "?t ?N ?N" 0 "?a 0"] by (simp add: sc fun_upd_twist)
  note r = more [OF stop this]
  have "core_step (?a 0, ?t ?S ?N) Quiet (?a 0, ?t ?S ?S)"
    using begin_next [of "?t ?S ?N" 1 "?a 0"] by (simp add: sc)
  note r = more [OF r this]
  have ls: "call_step (?a 0) ?S Quiet (?a 0) (Setting 0 0 0 1)" using ld by (intro call_step.load) simp_all
  have "core_step (?a 0, ?t ?S ?S) Quiet (?a 0, ?t (Setting 0 0 0 1) ?S)"
    by (rule core_callI [OF ls, of _ 0]) (simp_all add: fun_upd_twist)
  note r = more [OF r this]
  have "core_step (?a 0, ?t (Setting 0 0 0 1) ?S) Quiet (?a 0, ?t (Setting 0 0 0 1) (Setting 0 0 0 1))"
    by (rule core_callI [OF ls, of _ 1]) simp_all
  note r = more [OF r this]
  have "call_step (?a 0) (Setting 0 0 0 1) (Allocated 0) (?a 1) (NextDone (Some 0))"
    using call_step.exchange [of 0 "?a 0" 0 0 1] by (simp add: set_word_def)
  then have "core_step (?a 0, ?t (Setting 0 0 0 1) (Setting 0 0 0 1)) (Allocated 0) (?a 1, ?t (NextDone (Some 0)) (Setting 0 0 0 1))"
    by (rule core_callI [of _ _ _ _ _ _ 0]) (simp_all add: fun_upd_twist)
  note r = more [OF r this]
  have "call_step (?a 1) (Setting 0 0 0 1) Quiet (?a 1) (Setting 0 1 1 3)"
    using ld by (intro call_step.exchange_fails) simp_all
  then have "core_step (?a 1, ?t (NextDone (Some 0)) (Setting 0 0 0 1)) Quiet (?a 1, ?t (NextDone (Some 0)) (Setting 0 1 1 3))"
    by (rule core_callI [of _ _ _ _ _ _ 1]) simp_all
  note r = more [OF r this]
  have "call_step (?a 1) (Setting 0 1 1 3) (Allocated 1) (?a 3) (NextDone (Some 1))"
    using call_step.exchange [of 0 "?a 1" 1 1 3] by (simp add: set_word_def)
  then have "core_step (?a 1, ?t (NextDone (Some 0)) (Setting 0 1 1 3)) (Allocated 1) (?a 3, ?t (NextDone (Some 0)) (NextDone (Some 1)))"
    by (rule core_callI [of _ _ _ _ _ _ 1]) simp_all
  note r = more [OF r this]
  show ?thesis using r unfolding i by simp
qed

theorem interleaved_refines_set_witness:
  "set_run 2 {} [Quiet, Quiet, Quiet, Quiet, Allocated 0, Quiet, Allocated 1] =
   Some (handle_set (bits \<lparr>bits = [3], max_handle = 2\<rparr>))"
  by (rule interleaved_refines_set [OF _ race_run]) simp

text \<open>C26: no call gets stuck or panics: in every state that a run reaches, each core whose call has
  not returned has a next step.\<close>

theorem calls_progress:
  assumes "mh < 2 ^ 32" and "core_run (cores_init mh) es (a, ts)" and "\<not> returned (ts i)"
  shows "\<exists>e a' t. call_step a (ts i) e a' t"
proof -
  have a: "handles_inv a" "call_ok a (ts i)"
    using core_run_ok [OF assms(2) cores_init_inv [OF assms(1)]] by (auto simp: cores_inv_def)
  show ?thesis
  proof (cases "ts i")
    case (Scanning w)
    then show ?thesis using a loaded_word_ok [OF a(1), of w "bits a ! w"] by (auto intro: call_step.load)
  next
    case (Setting w cur h new)
    then show ?thesis using a loaded_word_ok [OF a(1), of w "bits a ! w"] by (auto intro: call_step.exchange_fails)
  next
    case (Loading h)
    then show ?thesis using a allocated_in_iff [OF a(1), of h]
      by (cases "allocated_in h (bits a ! (h div 64))") (auto intro: call_step.free_load call_step.free_load_refused)
  next
    case (Clearing h cur)
    then show ?thesis using a allocated_in_iff [OF a(1), of h]
      by (cases "allocated_in h (bits a ! (h div 64))") (auto intro: call_step.clear_fails call_step.clear_refused)
  qed (use assms(3) in simp_all)
qed

lemma first_call_run: "core_run (cores_init 2) [Quiet] (handle_allocator_new 2, (\<lambda>_. NextDone None)(5 := Scanning 0))"
proof -
  have "scan_at (handle_allocator_new 2) 0 = Scanning 0" by (simp add: scan_at_def handle_allocator_new_def)
  then show ?thesis
    using more [OF stop begin_next [of "\<lambda>_. NextDone None" 5 "handle_allocator_new 2"]] by (simp add: cores_init_def)
qed

theorem calls_progress_witness: "\<exists>e a' t. call_step (handle_allocator_new 2) (Scanning 0) e a' t"
  using calls_progress [OF _ first_call_run, of 5] by simp

section \<open>The interface of a handle pool\<close>

text \<open>What a client of the allocator relies on: a state with a set of live handles below a bound.\<close>

locale handle_pool =
  fixes next_op :: "'s \<Rightarrow> (nat option \<times> 's) panics"
    and free_op :: "'s \<Rightarrow> nat \<Rightarrow> ((HandleError + unit) \<times> 's) panics"
    and live :: "'s \<Rightarrow> nat set" and bound :: "'s \<Rightarrow> nat" and ok :: "'s \<Rightarrow> bool"
  assumes next_returns: "ok s \<Longrightarrow> \<exists>r s'. next_op s = Some (r, s') \<and> ok s' \<and> bound s' = bound s"
    and next_full: "ok s \<Longrightarrow> next_op s = Some (None, s') \<Longrightarrow> s' = s \<and> live s = {..<bound s}"
    and next_fresh: "ok s \<Longrightarrow> next_op s = Some (Some h, s') \<Longrightarrow> h < bound s \<and> h \<notin> live s \<and> live s' = insert h (live s)"
    and free_live: "ok s \<Longrightarrow> h \<in> live s \<Longrightarrow>
      \<exists>s'. free_op s h = Some (Inr (), s') \<and> ok s' \<and> bound s' = bound s \<and> live s' = live s - {h}"
    and free_other: "ok s \<Longrightarrow> h \<notin> live s \<Longrightarrow> \<exists>e. free_op s h = Some (Inl e, s)"
begin

text \<open>A handle that was taken and given back leaves the live handles as they were.\<close>

lemma next_free:
  assumes "ok s" and "next_op s = Some (Some h, s')"
  shows "\<exists>s''. free_op s' h = Some (Inr (), s'') \<and> ok s'' \<and> live s'' = live s"
proof -
  have "ok s'" using next_returns [OF assms(1)] assms(2) by auto
  moreover have "h \<notin> live s" "live s' = insert h (live s)" using next_fresh [OF assms] by auto
  ultimately show ?thesis using free_live [of s' h] by auto
qed

lemma next_succeeds:
  assumes "ok s" and "live s \<subset> {..<bound s}"
  shows "\<exists>h s'. next_op s = Some (Some h, s') \<and> ok s' \<and> bound s' = bound s"
proof -
  obtain r s' where n: "next_op s = Some (r, s')" "ok s'" "bound s' = bound s" using next_returns [OF assms(1)] by blast
  then show ?thesis using next_full [OF assms(1)] assms(2) by (cases r) auto
qed

end

interpretation handles: handle_pool next_handle free_handle "\<lambda>a. handle_set (bits a)" max_handle handles_inv
proof
  fix s :: HandleAllocator and s' h
  assume ok: "handles_inv s"
  show "\<exists>r s'. next_handle s = Some (r, s') \<and> handles_inv s' \<and> max_handle s' = max_handle s"
    using next_handle_spec [OF ok] ok by (auto split: option.splits)
  show "next_handle s = Some (None, s') \<Longrightarrow> s' = s \<and> handle_set (bits s) = {..<max_handle s}"
    using next_handle_spec [OF ok] by simp
  show "next_handle s = Some (Some h, s') \<Longrightarrow> h < max_handle s \<and> h \<notin> handle_set (bits s) \<and>
      handle_set (bits s') = insert h (handle_set (bits s))"
    using next_handle_spec [OF ok] by simp
  show "h \<in> handle_set (bits s) \<Longrightarrow> \<exists>s'. free_handle s h = Some (Inr (), s') \<and> handles_inv s' \<and>
      max_handle s' = max_handle s \<and> handle_set (bits s') = handle_set (bits s) - {h}"
    using free_handle_frees [OF ok, of h] by blast
  show "h \<notin> handle_set (bits s) \<Longrightarrow> \<exists>e. free_handle s h = Some (Inl e, s)"
    using free_handle_spec [OF ok, of h] by auto
qed

end
