(* ===== verification/Arc_Swap.thy ===== *)
theory Arc_Swap
  imports Kernel_Prelude
begin

text \<open>
  Shared ownership: the strong counts of \<^verbatim>\<open>Arc<T>\<close> and the cell \<^verbatim>\<open>ArcSwap<T>\<close> of
  \<^verbatim>\<open>kernel_core/src/collections/arc_swap.rs\<close>.  An \<^verbatim>\<open>Arc\<close> is the address of its object; the
  counts are a function of the address, and a count of 0 means that the object is freed.  Using
  a freed object is undefined behaviour and has no result.  \<open>ArcSwap\<close> operations run
  alone in the first part; the second part interleaves them, with the two accesses of
  \<^verbatim>\<open>ArcSwap::load\<close> as separate steps.
\<close>

section \<open>Strong counts\<close>

type_synonym arc = usize
type_synonym arcs = "arc \<Rightarrow> nat"

definition increment_strong_count :: "arc \<Rightarrow> arcs \<Rightarrow> arcs panics" where
  "increment_strong_count p c = (if c p = 0 then None else Some (c(p := c p + 1)))"

definition arc_drop :: "arc \<Rightarrow> arcs \<Rightarrow> arcs panics" where
  "arc_drop p c = (if c p = 0 then None else Some (c(p := c p - 1)))"

lemma increment_Some [simp]: "increment_strong_count p c = Some c' \<longleftrightarrow> c p \<noteq> 0 \<and> c' = c(p := c p + 1)"
  by (auto simp: increment_strong_count_def)

lemma arc_drop_Some [simp]: "arc_drop p c = Some c' \<longleftrightarrow> c p \<noteq> 0 \<and> c' = c(p := c p - 1)"
  by (auto simp: arc_drop_def)

section \<open>The cell\<close>

record ArcSwap =
  cell_ptr :: arc

definition arc_swap_new :: "arc \<Rightarrow> ArcSwap" where
  "arc_swap_new data = \<lparr> cell_ptr = data \<rparr>"

definition arc_swap_load :: "ArcSwap \<Rightarrow> arcs \<Rightarrow> (arc \<times> arcs) panics" where
  "arc_swap_load s c = do {
     let p = cell_ptr s;
     c' \<leftarrow> increment_strong_count p c;
     Some (p, c')
   }"

definition arc_swap_swap :: "ArcSwap \<Rightarrow> arc \<Rightarrow> arc \<times> ArcSwap" where
  "arc_swap_swap s new = (cell_ptr s, s\<lparr>cell_ptr := new\<rparr>)"

definition arc_swap_drop :: "ArcSwap \<Rightarrow> arcs \<Rightarrow> arcs panics" where
  "arc_swap_drop s c = (let p = cell_ptr s in if p \<noteq> 0 then arc_drop p c else Some c)"

text \<open>\<open>held p\<close> is the number of references to \<open>p\<close> that the users of the cell own.  The counts are
  exact when they add one reference for the cell.\<close>

definition counted :: "ArcSwap \<Rightarrow> arcs \<Rightarrow> (arc \<Rightarrow> nat) \<Rightarrow> bool" where
  "counted s c held \<longleftrightarrow> c = (\<lambda>p. held p + (if p = cell_ptr s then 1 else 0))"

text \<open>The operations of the cell keep the strong counts exact.  A load returns the object of
  the cell with one more reference for the caller; a swap takes one reference of the caller to the
  new object and gives it the reference of the cell to the old one; dropping the cell gives its
  reference back, so the counts are those of the users.  No operation touches a freed object.\<close>

lemma arc_swap_counted:
  assumes "counted s c held"
  shows "arc_swap_load s c = Some (cell_ptr s, c(cell_ptr s := c (cell_ptr s) + 1)) \<and>
    counted s (c(cell_ptr s := c (cell_ptr s) + 1)) (held(cell_ptr s := held (cell_ptr s) + 1)) \<and>
    (\<forall>new. 0 < held new \<longrightarrow>
       (case arc_swap_swap s new of (old, s') \<Rightarrow>
          old = cell_ptr s \<and> cell_ptr s' = new \<and>
          counted s' c ((held(new := held new - 1))(old := (held(new := held new - 1)) old + 1)))) \<and>
    (cell_ptr s \<noteq> 0 \<longrightarrow> arc_swap_drop s c = Some held)"
proof -
  have "c (cell_ptr s) \<noteq> 0" using assms by (simp add: counted_def)
  then show ?thesis using assms
    by (auto simp: counted_def arc_swap_load_def arc_swap_swap_def arc_swap_drop_def fun_eq_iff
        increment_strong_count_def arc_drop_def Let_def)
qed

lemma arc_swap_counted_example:
  "arc_swap_load (arc_swap_new 16) ((\<lambda>_. 0)(16 := 1, 32 := 2)) = Some (16, (\<lambda>_. 0)(16 := 2, 32 := 2)) \<and>
   arc_swap_drop (arc_swap_new 16) ((\<lambda>_. 0)(16 := 1, 32 := 2)) = Some ((\<lambda>_. 0)(32 := 2))"
proof -
  have "counted (arc_swap_new 16) ((\<lambda>_. 0)(16 := 1, 32 := 2)) ((\<lambda>_. 0)(32 := 2))"
    by (auto simp: counted_def arc_swap_new_def)
  from arc_swap_counted [OF this] show ?thesis
    by (simp add: arc_swap_new_def fun_upd_twist numeral_2_eq_2)
qed

section \<open>Interleaved operations\<close>

text \<open>\<open>sw_pending i\<close> is the pointer that core \<open>i\<close> has read in \<^verbatim>\<open>load\<close> and whose count it has not
  incremented yet.  The increment and the release are performed whatever the count is, as in the code; \<open>sw_invalid\<close> records whether one
  of them has used an object that was freed.\<close>

record swap_cores =
  sw_cell :: ArcSwap
  sw_counts :: arcs
  sw_held :: "arc \<Rightarrow> nat"
  sw_pending :: "nat \<Rightarrow> arc option"
  sw_invalid :: bool

inductive swap_step :: "swap_cores \<Rightarrow> swap_cores \<Rightarrow> bool" where
  load_pointer: "sw_pending s i = None \<Longrightarrow>
    swap_step s (s\<lparr>sw_pending := (sw_pending s)(i \<mapsto> cell_ptr (sw_cell s))\<rparr>)"
| load_increment: "sw_pending s i = Some p \<Longrightarrow>
    swap_step s (s\<lparr>sw_counts := (sw_counts s)(p := sw_counts s p + 1), sw_held := (sw_held s)(p := sw_held s p + 1),
      sw_pending := (sw_pending s)(i := None), sw_invalid := sw_invalid s \<or> sw_counts s p = 0\<rparr>)"
| swap: "\<lbrakk> 0 < sw_held s new; arc_swap_swap (sw_cell s) new = (old, cell'); h = (sw_held s)(new := sw_held s new - 1) \<rbrakk> \<Longrightarrow>
    swap_step s (s\<lparr>sw_cell := cell', sw_held := h(old := h old + 1)\<rparr>)"
| release: "0 < sw_held s p \<Longrightarrow>
    swap_step s (s\<lparr>sw_counts := (sw_counts s)(p := sw_counts s p - 1), sw_held := (sw_held s)(p := sw_held s p - 1),
      sw_invalid := sw_invalid s \<or> sw_counts s p = 0\<rparr>)"

inductive_cases swap_stepE: "swap_step s s'"

definition cores_counted :: "swap_cores \<Rightarrow> bool" where
  "cores_counted s \<longleftrightarrow> counted (sw_cell s) (sw_counts s) (sw_held s)"

lemma swap_step_counted: "swap_step s s' \<Longrightarrow> sw_invalid s \<or> cores_counted s \<Longrightarrow> sw_invalid s' \<or> cores_counted s'"
  by (erule swap_stepE) (auto simp: cores_counted_def counted_def arc_swap_swap_def fun_eq_iff)

lemma swap_steps_counted: "swap_step\<^sup>*\<^sup>* s s' \<Longrightarrow> sw_invalid s \<or> cores_counted s \<Longrightarrow> sw_invalid s' \<or> cores_counted s'"
proof (induction rule: rtranclp_induct)
  case (step y z)
  then show ?case using swap_step_counted [of y z] by blast
qed blast

text \<open>C30: however the steps of several cores interleave, the counts stay exact until the first use of a
  freed object: an object is freed exactly when neither the cell nor any user holds it.  The use of a freed object can then
  only be the increment of a load whose pointer the cell does not hold any more and nobody else
  holds either.\<close>

theorem interleaved_counts_exact:
  assumes "cores_counted s" and "swap_step\<^sup>*\<^sup>* s s'" and "\<not> sw_invalid s'"
  shows "(\<forall>p. sw_counts s' p = 0 \<longleftrightarrow> sw_held s' p = 0 \<and> p \<noteq> cell_ptr (sw_cell s')) \<and>
    (\<forall>s''. swap_step s' s'' \<and> sw_invalid s'' \<longrightarrow>
       (\<exists>i p. sw_pending s' i = Some p \<and> sw_pending s'' i = None \<and> p \<noteq> cell_ptr (sw_cell s') \<and> sw_held s' p = 0))"
proof -
  have c: "cores_counted s'" using swap_steps_counted [OF assms(2)] assms(1,3) by blast
  have "\<exists>i p. sw_pending s' i = Some p \<and> sw_pending s'' i = None \<and> p \<noteq> cell_ptr (sw_cell s') \<and> sw_held s' p = 0"
    if "swap_step s' s''" "sw_invalid s''" for s''
    using that assms(3) c by (elim swap_stepE) (auto simp: cores_counted_def counted_def split: if_splits)
  then show ?thesis using c by (auto simp: cores_counted_def counted_def)
qed

definition two_objects :: swap_cores where
  "two_objects = \<lparr> sw_cell = arc_swap_new 16, sw_counts = (\<lambda>_. 0)(16 := 1, 32 := 1), sw_held = (\<lambda>_. 0)(32 := 1),
     sw_pending = (\<lambda>_. None), sw_invalid = False \<rparr>"

lemma two_objects_counted: "cores_counted two_objects"
  by (auto simp: cores_counted_def counted_def two_objects_def arc_swap_new_def)

text \<open>A run of two cores: one loads object 16, the other swaps in object 32 between the two accesses, and both references
  to object 16 are released afterwards.\<close>

definition two_objects_after :: swap_cores where
  "two_objects_after = \<lparr> sw_cell = arc_swap_new 32, sw_counts = (\<lambda>_. 0)(32 := 1), sw_held = (\<lambda>_. 0), sw_pending = (\<lambda>_. None),
     sw_invalid = False \<rparr>"

lemma two_objects_run: "swap_step\<^sup>*\<^sup>* two_objects two_objects_after"
proof -
  define s0 where "s0 = two_objects"
  define s1 where "s1 = s0\<lparr>sw_pending := (sw_pending s0)(0 \<mapsto> 16)\<rparr>"
  define s2 where "s2 = s1\<lparr>sw_cell := arc_swap_new 32, sw_held := (\<lambda>_. 0)(16 := 1)\<rparr>"
  define s3 where "s3 = s2\<lparr>sw_counts := (\<lambda>_. 0)(16 := 2, 32 := 1), sw_held := (\<lambda>_. 0)(16 := 2), sw_pending := (\<lambda>_. None)\<rparr>"
  define s4 where "s4 = s3\<lparr>sw_counts := (\<lambda>_. 0)(16 := 1, 32 := 1), sw_held := (\<lambda>_. 0)(16 := 1)\<rparr>"
  have 1: "swap_step s0 s1" using load_pointer [of s0 0] by (simp add: s1_def s0_def two_objects_def arc_swap_new_def)
  have 2: "swap_step s1 s2" using swap [of s1 32 16 "arc_swap_new 32", OF _ _ refl]
    by (simp add: s2_def s1_def s0_def two_objects_def arc_swap_new_def arc_swap_swap_def fun_upd_def cong: if_cong)
  have 3: "swap_step s2 s3" using load_increment [of s2 0 16]
    by (simp add: s3_def s2_def s1_def s0_def two_objects_def fun_upd_twist numeral_2_eq_2)
  have 4: "swap_step s3 s4" using release [of s3 16]
    by (simp add: s4_def s3_def s2_def s1_def s0_def two_objects_def fun_upd_twist numeral_2_eq_2)
  have 5: "swap_step s4 two_objects_after" using release [of s4 16]
    by (simp add: two_objects_after_def s4_def s3_def s2_def s1_def s0_def two_objects_def fun_upd_twist fun_upd_idem)
  show ?thesis using 1 2 3 4 5 unfolding s0_def by (meson rtranclp.rtrancl_into_rtrancl rtranclp.rtrancl_refl)
qed

theorem interleaved_counts_exact_witness:
  "swap_step\<^sup>*\<^sup>* two_objects two_objects_after \<and> sw_counts two_objects_after 16 = 0 \<and> sw_held two_objects_after 16 = 0 \<and>
   sw_counts two_objects_after 32 \<noteq> 0"
  using interleaved_counts_exact [OF two_objects_counted two_objects_run] two_objects_run
  by (simp add: two_objects_after_def arc_swap_new_def)

text \<open>C31: the pointer that \<^verbatim>\<open>load\<close> has read is not protected until its count is incremented.
  From any state in which the cell holds the only reference to its object, another core that
  swaps in a different object and drops the old one frees the object, and the load then
  increments the count of the freed object.\<close>

theorem load_races_with_swap:
  assumes "cores_counted s" and "sw_pending s i = None" and "sw_held s (cell_ptr (sw_cell s)) = 0"
    and "0 < sw_held s new" and "old = cell_ptr (sw_cell s)"
  shows "\<exists>s' s''. swap_step\<^sup>*\<^sup>* s s' \<and> sw_pending s' i = Some old \<and> increment_strong_count old (sw_counts s') = None \<and>
    swap_step s' s'' \<and> sw_pending s'' i = None \<and> sw_invalid s''"
proof -
  have c: "sw_counts s old = 1" and n: "new \<noteq> old" using assms by (auto simp: cores_counted_def counted_def)
  let ?s1 = "s\<lparr>sw_pending := (sw_pending s)(i \<mapsto> old)\<rparr>"
  have 1: "swap_step s ?s1" using load_pointer [OF assms(2)] assms(5) by simp
  obtain s2 where 2: "swap_step ?s1 s2" "sw_pending s2 = sw_pending ?s1" "sw_counts s2 = sw_counts s" "sw_held s2 old = 1"
  proof -
    have "swap_step ?s1 (?s1\<lparr>sw_cell := (sw_cell s)\<lparr>cell_ptr := new\<rparr>, sw_held := (sw_held s)(new := sw_held s new - 1, old := 1)\<rparr>)"
      using swap [of ?s1 new old _ _, OF _ _ refl] assms(3-5) n by (simp add: arc_swap_swap_def)
    then show thesis by (rule that) simp_all
  qed
  obtain s3 where 3: "swap_step s2 s3" "sw_pending s3 = sw_pending s2" "sw_counts s3 = (sw_counts s2)(old := 0)"
    using release [of s2 old] 2 c by auto
  have "swap_step\<^sup>*\<^sup>* s s3" using 1 2(1) 3(1) by (meson rtranclp.rtrancl_into_rtrancl rtranclp.rtrancl_refl)
  moreover have "sw_pending s3 i = Some old" using 2 3 by simp
  moreover have "increment_strong_count old (sw_counts s3) = None" using 3 by (simp add: increment_strong_count_def)
  moreover have "\<exists>s''. swap_step s3 s'' \<and> sw_pending s'' i = None \<and> sw_invalid s''"
    using load_increment [of s3 i old] 2 3 by (intro exI conjI) auto
  ultimately show ?thesis by blast
qed

theorem load_races_with_swap_witness:
  "\<exists>s' s''. swap_step\<^sup>*\<^sup>* two_objects s' \<and> sw_pending s' 0 = Some 16 \<and> increment_strong_count 16 (sw_counts s') = None \<and>
     swap_step s' s'' \<and> sw_pending s'' 0 = None \<and> sw_invalid s''"
  by (rule load_races_with_swap [OF two_objects_counted, of 0 32])
    (simp_all add: two_objects_def arc_swap_new_def)

end
