(* ===== verification/Handle_Map.thy ===== *)
theory Handle_Map
  imports Handle_Alloc Arc_Swap
begin

text \<open>
  The handle map of \<^verbatim>\<open>kernel_core/src/collections/handle_map.rs\<close>: a radix tree of 256-entry
  tables under a handle allocator.  A table entry is an atomic word that is zero, the raw pointer
  of an \<^verbatim>\<open>Arc\<close>, or the pointer of an owned table, depending on the depth; here it is a
  \<open>slot\<close>, and reading a value as a table or a table as a value is undefined behaviour and has
  no result.  A reference to a leaf table is what \<open>at_leaf\<close> applies an operation to.  Handles
  are natural numbers below \<open>2 ^ 32\<close> with the wrap-around of the shift and of the rotation
  written out.  The operations run one at a time.
\<close>

section \<open>Tables\<close>

datatype slot = Empty | Value arc | Table "slot list"

definition table_default :: "slot list" where
  "table_default = replicate 256 Empty"

definition get_value :: "slot list \<Rightarrow> nat \<Rightarrow> arcs \<Rightarrow> (arc option \<times> arcs) panics" where
  "get_value t index c = do {
     v \<leftarrow> nth_p t index;
     case v of
       Empty \<Rightarrow> Some (None, c)
     | Value p \<Rightarrow> do { c' \<leftarrow> increment_strong_count p c; Some (Some p, c') }
     | Table _ \<Rightarrow> None
   }"

definition take_value :: "slot list \<Rightarrow> nat \<Rightarrow> (arc option \<times> slot list) panics" where
  "take_value t index = do {
     v \<leftarrow> nth_p t index;
     case v of
       Empty \<Rightarrow> Some (None, t[index := Empty])
     | Value p \<Rightarrow> Some (Some p, t[index := Empty])
     | Table _ \<Rightarrow> None
   }"

definition put_value :: "slot list \<Rightarrow> nat \<Rightarrow> arc \<Rightarrow> (arc option \<times> slot list) panics" where
  "put_value t index val = do {
     v \<leftarrow> nth_p t index;
     case v of
       Empty \<Rightarrow> Some (None, t[index := Value val])
     | Value p \<Rightarrow> Some (Some p, t[index := Value val])
     | Table _ \<Rightarrow> None
   }"

definition get_table :: "slot list \<Rightarrow> nat \<Rightarrow> slot list option panics" where
  "get_table t index = do {
     v \<leftarrow> nth_p t index;
     case v of Empty \<Rightarrow> Some None | Table u \<Rightarrow> Some (Some u) | Value _ \<Rightarrow> None
   }"

definition new_next_level_table :: "slot list \<Rightarrow> nat \<Rightarrow> (slot list \<times> slot list) panics" where
  "new_next_level_table t index = do {
     v \<leftarrow> nth_p t index;
     case v of
       Empty \<Rightarrow> Some (table_default, t[index := Table table_default])
     | Table u \<Rightarrow> Some (u, t)
     | Value _ \<Rightarrow> None
   }"

fun drop_slots :: "(slot \<Rightarrow> arcs \<Rightarrow> arcs panics) \<Rightarrow> slot list \<Rightarrow> arcs \<Rightarrow> arcs panics" where
  "drop_slots f [] c = Some c"
| "drop_slots f (v # vs) c = do { c' \<leftarrow> f v c; drop_slots f vs c' }"

primrec drop_children :: "nat \<Rightarrow> slot list \<Rightarrow> arcs \<Rightarrow> arcs panics" where
  "drop_children 0 t c = drop_slots (\<lambda>_ _. panic) t c"
| "drop_children (Suc d) t c = drop_slots (\<lambda>v c.
     case v of
       Empty \<Rightarrow> Some c
     | Value p \<Rightarrow> if d = 0 then arc_drop p c else None
     | Table u \<Rightarrow> if d = 0 then None else drop_children d u c) t c"

section \<open>The map\<close>

record HandleMap =
  hm_allocator :: HandleAllocator
  hm_table :: "slot list"
  handle_zeros_prefix_bit_length :: nat
  hm_depth :: nat

definition leading_zeros :: "nat \<Rightarrow> nat" where
  "leading_zeros n = (if n = 0 then 32 else 31 - ilog2 n)"

definition handle_map_new :: "nat \<Rightarrow> HandleMap" where
  "handle_map_new mh =
     (let extra_bits = leading_zeros mh div 8 * 8
      in \<lparr> hm_allocator = handle_allocator_new mh, hm_table = table_default,
           handle_zeros_prefix_bit_length = extra_bits, hm_depth = (32 - extra_bits + 7) div 8 \<rparr>)"

text \<open>\<^verbatim>\<open>handle << n\<close> panics for \<open>n \<ge> 32\<close> and drops the bits above the 32nd otherwise.\<close>

definition shl_u32 :: "nat \<Rightarrow> nat \<Rightarrow> nat panics" where
  "shl_u32 h n = (if n < 32 then Some (h * 2 ^ n mod 2 ^ 32) else panic)"

definition rotate_left_8 :: "nat \<Rightarrow> nat" where
  "rotate_left_8 h = h * 2 ^ 8 mod 2 ^ 32 + h div 2 ^ 24"

fun at_leaf :: "nat \<Rightarrow> nat \<Rightarrow> slot list \<Rightarrow> (slot list \<Rightarrow> nat \<Rightarrow> ('r \<times> slot list) panics) \<Rightarrow>
    ('r option \<times> slot list) panics" where
  "at_leaf 0 handle table f = do {
     (r, table') \<leftarrow> f table (handle mod 256);
     Some (Some r, table')
   }"
| "at_leaf (Suc n) handle table f = do {
     let index = handle mod 256;
     next \<leftarrow> get_table table index;
     case next of
       None \<Rightarrow> Some (None, table)
     | Some u \<Rightarrow> do {
         (r, u') \<leftarrow> at_leaf n (rotate_left_8 handle) u f;
         Some (r, table[index := Table u'])
       }
   }"

definition leaf_table_for_handle :: "HandleMap \<Rightarrow> nat \<Rightarrow> (slot list \<Rightarrow> nat \<Rightarrow> ('r \<times> slot list) panics) \<Rightarrow>
    ('r option \<times> slot list) panics" where
  "leaf_table_for_handle hm handle f = do {
     shifted \<leftarrow> shl_u32 handle (handle_zeros_prefix_bit_length hm);
     n \<leftarrow> sub_p (hm_depth hm) 1;
     at_leaf n (rotate_left_8 shifted) (hm_table hm) f
   }"

fun insert_walk :: "nat \<Rightarrow> nat \<Rightarrow> slot list \<Rightarrow> (nat \<Rightarrow> slot list \<Rightarrow> nat \<Rightarrow> ('r \<times> slot list) panics) \<Rightarrow>
    ('r \<times> slot list) panics" where
  "insert_walk 0 handle table f = f handle table (handle mod 256)"
| "insert_walk (Suc n) handle table f = do {
     let index = handle mod 256;
     existing \<leftarrow> get_table table index;
     (u, table1) \<leftarrow> (case existing of Some u \<Rightarrow> Some (u, table) | None \<Rightarrow> new_next_level_table table index);
     (r, u') \<leftarrow> insert_walk n (rotate_left_8 handle) u f;
     Some (r, table1[index := Table u'])
   }"

definition insert_self_referential ::
  "HandleMap \<Rightarrow> (nat \<Rightarrow> arcs \<Rightarrow> arc \<times> arcs) \<Rightarrow> arcs \<Rightarrow> ((nat \<times> arc) option \<times> HandleMap \<times> arcs) panics" where
  "insert_self_referential hm make_value c = do {
     (h, allocator') \<leftarrow> next_handle (hm_allocator hm);
     let hm1 = hm\<lparr>hm_allocator := allocator'\<rparr>;
     case h of
       None \<Rightarrow> Some (None, hm1, c)
     | Some handle \<Rightarrow> do {
         shifted \<leftarrow> shl_u32 handle (handle_zeros_prefix_bit_length hm);
         n \<leftarrow> sub_p (hm_depth hm) 1;
         ((r, c'), table') \<leftarrow> insert_walk n (rotate_left_8 shifted) (hm_table hm) (\<lambda>handle table index. do {
           let (val, c1) = make_value handle c;
           c2 \<leftarrow> increment_strong_count val c1;
           (res, table') \<leftarrow> put_value table index val;
           assert_p (res = None);
           Some (((handle, val), c2), table')
         });
         Some (Some r, hm1\<lparr>hm_table := table'\<rparr>, c')
       }
   }"

text \<open>\<^verbatim>\<open>insert\<close> clones the value for the closure; the clone that is returned and the value
  itself are dropped at the end, unless the value is handed back.  The clone cannot fail while
  the caller holds a reference.\<close>

definition insert_value :: "HandleMap \<Rightarrow> arc \<Rightarrow> arcs \<Rightarrow> ((arc + nat) \<times> HandleMap \<times> arcs) panics" where
  "insert_value hm value c = do {
     (r, hm', c1) \<leftarrow> insert_self_referential hm (\<lambda>_ c. (value, c(value := c value + 1))) c;
     case r of
       Some (h, val) \<Rightarrow> do {
         c2 \<leftarrow> arc_drop val c1;
         c3 \<leftarrow> arc_drop value c2;
         Some (Inr h, hm', c3)
       }
     | None \<Rightarrow> Some (Inl value, hm', c1)
   }"

definition handle_map_get :: "HandleMap \<Rightarrow> nat \<Rightarrow> arcs \<Rightarrow> (arc option \<times> arcs) panics" where
  "handle_map_get hm handle c = do {
     (r, _) \<leftarrow> leaf_table_for_handle hm handle (\<lambda>t i. do { (v, c') \<leftarrow> get_value t i c; Some ((v, c'), t) });
     Some (case r of None \<Rightarrow> (None, c) | Some vc \<Rightarrow> vc)
   }"

text \<open>When the allocator refuses the handle, the value that was taken out is dropped.\<close>

definition handle_map_remove :: "HandleMap \<Rightarrow> nat \<Rightarrow> arcs \<Rightarrow> (arc option \<times> HandleMap \<times> arcs) panics" where
  "handle_map_remove hm handle c = do {
     (r, table') \<leftarrow> leaf_table_for_handle hm handle take_value;
     let hm1 = hm\<lparr>hm_table := table'\<rparr>;
     case r of
       None \<Rightarrow> Some (None, hm1, c)
     | Some val \<Rightarrow> do {
         (res, allocator') \<leftarrow> free_handle (hm_allocator hm) handle;
         let hm2 = hm1\<lparr>hm_allocator := allocator'\<rparr>;
         case res of
           Inr _ \<Rightarrow> Some (val, hm2, c)
         | Inl _ \<Rightarrow> do {
             c' \<leftarrow> (case val of None \<Rightarrow> Some c | Some p \<Rightarrow> arc_drop p c);
             Some (None, hm2, c')
           }
       }
   }"

definition handle_map_drop :: "HandleMap \<Rightarrow> arcs \<Rightarrow> arcs panics" where
  "handle_map_drop hm c = drop_children (hm_depth hm) (hm_table hm) c"

section \<open>The keys of a walk\<close>

definition walk_key :: "nat \<Rightarrow> nat \<Rightarrow> nat" where
  "walk_key n g = g div 256 ^ n + g mod 256 ^ n * 256 ^ (4 - n)"

lemma rotate_rest:
  assumes "rest < 2 ^ 24" and "r < 256"
  shows "rotate_left_8 (r * 2 ^ 24 + rest) = rest * 256 + r"
proof -
  have "(r * 2 ^ 24 + rest) * 2 ^ 8 = rest * 256 + r * 2 ^ 32" by simp
  moreover have "rest * 256 < 2 ^ 32" using assms(1) by simp
  moreover have "(rest * 256 + r * 2 ^ 32) mod 2 ^ 32 = rest * 256" 
    using calculation(2) by simp
  moreover have "(r * 2 ^ 24 + rest) div 2 ^ 24 = r" using assms(1) by simp
  ultimately show ?thesis by (simp add: rotate_left_8_def)
qed

lemma rotate_walk_key:
  assumes "k < 3" and "g < 2 ^ 32"
  shows "rotate_left_8 (walk_key (Suc k) g) = walk_key k g"
proof -
  define q r s where "q = g div 256 ^ Suc k" and "r = g mod 256 ^ Suc k div 256 ^ k" and "s = g mod 256 ^ k"
  have e: "256 ^ (4 - Suc k) = (256 :: nat) ^ (3 - k)" "256 ^ (4 - k) = 256 * (256 :: nat) ^ (3 - k)"
    using assms(1) by (simp_all add: numeral_3_eq_3 Suc_diff_le power_Suc [symmetric] del: power_Suc)
  have p: "(256 :: nat) ^ k * 256 ^ (3 - k) = 2 ^ 24"
    using assms(1) by (simp add: power_add [symmetric])
  have gm: "g mod 256 ^ Suc k = r * 256 ^ k + s"
  proof -
    have "s = g mod 256 ^ Suc k mod 256 ^ k" by (simp add: s_def mod_mod_cancel)
    then show ?thesis unfolding r_def by (simp only: div_mult_mod_eq)
  qed
  have q: "q < 256 ^ (3 - k)"
    using assms p by (simp add: q_def less_mult_imp_div_less ac_simps)
  have r: "r < 256" by (simp add: r_def less_mult_imp_div_less)
  have s: "s < 256 ^ k" by (simp add: s_def)
  have "g = q * 256 ^ Suc k + g mod 256 ^ Suc k" by (simp only: q_def div_mult_mod_eq)
  then have "g = (q * 256 + r) * 256 ^ k + s" unfolding gm by (simp add: algebra_simps)
  then have gd: "g div 256 ^ k = q * 256 + r" using s by simp
  let ?rest = "s * 256 ^ (3 - k) + q"
  have "Suc s * 256 ^ (3 - k) \<le> 256 ^ k * 256 ^ (3 - k)" using s by (intro mult_le_mono1) simp
  then have rest: "?rest < 2 ^ 24" using q unfolding p by simp
  have "walk_key (Suc k) g = r * (256 ^ k * 256 ^ (3 - k)) + ?rest"
    unfolding walk_key_def gm e(1) q_def [symmetric] by (simp add: algebra_simps)
  then have "rotate_left_8 (walk_key (Suc k) g) = ?rest * 256 + r" unfolding p using rotate_rest [OF rest r] by simp
  also have "\<dots> = walk_key k g" unfolding walk_key_def gd e(2) s_def [symmetric] by (simp add: algebra_simps)
  finally show ?thesis .
qed

lemma walk_key_0 [simp]: "walk_key 0 g = g" by (simp add: walk_key_def)

lemma walk_key_mod: "n < 4 \<Longrightarrow> walk_key n g mod 256 = g div 256 ^ n mod 256"
proof -
  assume "n < 4"
  then obtain j where "4 - n = Suc j" by (metis Suc_diff_Suc)
  then have "g mod 256 ^ n * 256 ^ (4 - n) = g mod 256 ^ n * 256 ^ j * 256" by simp
  then show ?thesis unfolding walk_key_def by (simp only: mod_mult_self1)
qed

lemma walk_start:
  assumes "d < 4" 
  shows "shl_u32 h (32 - 8 * Suc d) = Some (h mod 256 ^ Suc d * 2 ^ (32 - 8 * Suc d))"
    and "rotate_left_8 (h mod 256 ^ Suc d * 2 ^ (32 - 8 * Suc d)) = walk_key d (h mod 256 ^ Suc d)"
proof -
  have p: "(256 :: nat) ^ Suc d * 2 ^ (32 - 8 * Suc d) = 2 ^ 32"
  proof -
    have "(256 :: nat) = 2 ^ 8" by simp
    then have "(256 :: nat) ^ Suc d = 2 ^ (8 * Suc d)" by (simp only: power_mult)
    then show ?thesis using assms by (simp only: power_add [symmetric]) simp
  qed
  show "shl_u32 h (32 - 8 * Suc d) = Some (h mod 256 ^ Suc d * 2 ^ (32 - 8 * Suc d))"
    using assms unfolding shl_u32_def p [symmetric] by (simp only: mult_mod_left) simp
  define g where "g = h mod 256 ^ Suc d"
  define r s where "r = g div 256 ^ d" and "s = g mod 256 ^ d"
  have g: "g = r * 256 ^ d + s" by (simp only: r_def s_def div_mult_mod_eq)
  have r: "r < 256" by (simp add: r_def g_def less_mult_imp_div_less)
  have s: "s < 256 ^ d" by (simp add: s_def)
  have e: "(2 :: nat) ^ (32 - 8 * Suc d) = 256 ^ (3 - d)"
  proof -
    have "32 - 8 * Suc d = 8 * (3 - d)" by simp
    then show ?thesis by (simp only: power_mult) simp
  qed
  have p: "(256 :: nat) ^ d * 256 ^ (3 - d) = 2 ^ 24"
    using assms by (simp add: power_add [symmetric])
  have e4: "256 ^ (4 - d) = 256 * (256 :: nat) ^ (3 - d)"
    using assms by (cases "d = 3") (simp_all add: power_Suc [symmetric] Suc_diff_le del: power_Suc)
  have "s * 256 ^ (3 - d) < 256 ^ d * 256 ^ (3 - d)" using s by simp
  then have "rotate_left_8 (r * (256 ^ d * 256 ^ (3 - d)) + s * 256 ^ (3 - d)) = s * 256 ^ (3 - d) * 256 + r"
    unfolding p using rotate_rest [OF _ r] by blast
  then show "rotate_left_8 (h mod 256 ^ Suc d * 2 ^ (32 - 8 * Suc d)) = walk_key d (h mod 256 ^ Suc d)"
    unfolding e g_def [symmetric] walk_key_def r_def [symmetric] s_def [symmetric] e4 by (simp add: g algebra_simps)
qed

section \<open>What a tree holds\<close>

fun tree_get :: "nat \<Rightarrow> slot list \<Rightarrow> nat \<Rightarrow> arc option" where
  "tree_get 0 t g = (case t ! (g mod 256) of Value p \<Rightarrow> Some p | _ \<Rightarrow> None)"
| "tree_get (Suc n) t g = (case t ! (g div 256 ^ Suc n mod 256) of Table u \<Rightarrow> tree_get n u g | _ \<Rightarrow> None)"

fun tree_ok :: "nat \<Rightarrow> slot list \<Rightarrow> bool" where
  "tree_ok 0 t \<longleftrightarrow> length t = 256 \<and> (\<forall>v \<in> set t. case v of Table u \<Rightarrow> False | _ \<Rightarrow> True)"
| "tree_ok (Suc n) t \<longleftrightarrow> length t = 256 \<and>
     (\<forall>v \<in> set t. case v of Empty \<Rightarrow> True | Value p \<Rightarrow> False | Table u \<Rightarrow> tree_ok n u)"

definition leaf_of :: "arc option \<Rightarrow> slot" where
  "leaf_of v = (case v of None \<Rightarrow> Empty | Some p \<Rightarrow> Value p)"

lemma tree_ok_length: "tree_ok n t \<Longrightarrow> length t = 256"
  by (cases n) auto

lemma tree_ok_default [simp]: "tree_ok n table_default"
  by (cases n) (auto simp: table_default_def)

lemma tree_get_default [simp]: "tree_get n table_default g = None"
  by (cases n) (auto simp: table_default_def)

lemma tree_ok_slot:
  assumes "tree_ok (Suc n) t" and "i < 256"
  obtains "t ! i = Empty" | u where "t ! i = Table u" and "tree_ok n u"
proof -
  have "case t ! i of Empty \<Rightarrow> True | Value p \<Rightarrow> False | Table u \<Rightarrow> tree_ok n u" using assms by simp
  then show thesis using that by (auto split: slot.splits)
qed

text \<open>The slot of the leaf that a key selects holds what the tree holds for the key.\<close>

lemma tree_ok_leaf:
  assumes "tree_ok 0 t" and "i < 256"
  shows "t ! i = leaf_of (tree_get 0 t i)"
proof -
  have "case t ! i of Table u \<Rightarrow> False | _ \<Rightarrow> True" using assms by simp
  then show ?thesis using assms(2) by (auto simp: leaf_of_def split: slot.splits)
qed

text \<open>Storing a leaf value: \<open>t'\<close> holds \<open>v\<close> for the key \<open>g\<close> and what \<open>t\<close> holds elsewhere.\<close>

definition tree_upd :: "nat \<Rightarrow> slot list \<Rightarrow> nat \<Rightarrow> arc option \<Rightarrow> slot list \<Rightarrow> bool" where
  "tree_upd n t g v t' \<longleftrightarrow> tree_ok n t' \<and>
     (\<forall>k. tree_get n t' k = (if k mod 256 ^ Suc n = g mod 256 ^ Suc n then v else tree_get n t k))"

lemma tree_upd_leaf:
  assumes "tree_ok 0 t"
  shows "tree_upd 0 t g v (t[g mod 256 := leaf_of v])"
proof -
  have l: "length t = 256" using assms by simp
  have "tree_ok 0 (t[g mod 256 := leaf_of v])"
    using assms set_update_subset_insert [of t "g mod 256" "leaf_of v"] by (auto simp: leaf_of_def split: option.splits)
  moreover have "tree_get 0 (t[g mod 256 := leaf_of v]) k = (if k mod 256 = g mod 256 then v else tree_get 0 t k)" for k
    using l by (auto simp: leaf_of_def split: option.splits)
  ultimately show ?thesis by (simp add: tree_upd_def)
qed

lemma key_eq_iff:
  "(k :: nat) mod 256 ^ Suc (Suc n) = g mod 256 ^ Suc (Suc n) \<longleftrightarrow>
   k div 256 ^ Suc n mod 256 = g div 256 ^ Suc n mod 256 \<and> k mod 256 ^ Suc n = g mod 256 ^ Suc n"
proof -
  have m: "x mod 256 ^ Suc (Suc n) = 256 ^ Suc n * (x div 256 ^ Suc n mod 256) + x mod 256 ^ Suc n" for x :: nat
    using mod_mult2_eq [of x "256 ^ Suc n" 256] by (simp only: power_Suc2 [of 256 "Suc n"])
  have d: "x mod 256 ^ Suc (Suc n) div 256 ^ Suc n = x div 256 ^ Suc n mod 256" for x :: nat
    unfolding m by simp
  have r: "x mod 256 ^ Suc (Suc n) mod 256 ^ Suc n = x mod 256 ^ Suc n" for x :: nat
    unfolding m by simp
  show ?thesis by (metis d r m)
qed

lemma tree_upd_node:
  assumes "tree_ok (Suc n) t" and "i = g div 256 ^ Suc n mod 256" and "tree_upd n u g v u'"
    and "\<And>k. k div 256 ^ Suc n mod 256 = i \<Longrightarrow> tree_get n u k = tree_get (Suc n) t k"
  shows "tree_upd (Suc n) t g v (t[i := Table u'])"
proof -
  have l: "length t = 256" and i: "i < 256" using assms(1,2) by simp_all
  have "tree_ok (Suc n) (t[i := Table u'])"
    using assms(1,3) set_update_subset_insert [of t i "Table u'"] by (auto simp: tree_upd_def)
  moreover have "tree_get (Suc n) (t[i := Table u']) k =
      (if k mod 256 ^ Suc (Suc n) = g mod 256 ^ Suc (Suc n) then v else tree_get (Suc n) t k)" for k
  proof (cases "k div 256 ^ Suc n mod 256 = i")
    case True
    then have "tree_get (Suc n) (t[i := Table u']) k = tree_get n u' k" using l i by simp
    also have "\<dots> = (if k mod 256 ^ Suc n = g mod 256 ^ Suc n then v else tree_get (Suc n) t k)"
      using assms(3) assms(4) [OF True] by (simp add: tree_upd_def)
    finally show ?thesis using True assms(2) unfolding key_eq_iff by simp
  next
    case False
    then show ?thesis using l i assms(2) unfolding key_eq_iff by simp
  qed
  ultimately show ?thesis by (simp only: tree_upd_def) blast
qed

text \<open>An operation on a leaf table that reads the slot of the key and stores a value there.\<close>

definition leaf_op :: "(slot list \<Rightarrow> nat \<Rightarrow> ('r \<times> slot list) panics) \<Rightarrow> (arc option \<Rightarrow> 'r \<times> arc option) \<Rightarrow> arc option \<Rightarrow> bool" where
  "leaf_op f F v \<longleftrightarrow> (\<forall>t i. tree_ok 0 t \<longrightarrow> i < 256 \<longrightarrow> t ! i = leaf_of v \<longrightarrow>
     f t i = Some (fst (F v), t[i := leaf_of (snd (F v))]))"

lemma at_leaf_ok:
  assumes "tree_ok n t" and "n < 4" and "g < 2 ^ 32" and "leaf_op f F (tree_get n t g)"
  shows "(\<exists>t'. at_leaf n (walk_key n g) t f = Some (Some (fst (F (tree_get n t g))), t') \<and>
      tree_upd n t g (snd (F (tree_get n t g))) t') \<or>
    at_leaf n (walk_key n g) t f = Some (None, t) \<and> tree_get n t g = None"
  using assms
proof (induction n arbitrary: t)
  case 0
  let ?i = "g mod 256"
  have "t ! ?i = leaf_of (tree_get 0 t ?i)" using tree_ok_leaf [OF "0.prems"(1), of ?i] by simp
  then have "t ! ?i = leaf_of (tree_get 0 t g)" by simp
  then have "f t ?i = Some (fst (F (tree_get 0 t g)), t[?i := leaf_of (snd (F (tree_get 0 t g)))])"
    using "0.prems"(1,4) unfolding leaf_op_def by simp
  then show ?case using tree_upd_leaf [OF "0.prems"(1)] by simp
next
  case (Suc n)
  let ?i = "g div 256 ^ Suc n mod 256"
  have idx: "walk_key (Suc n) g mod 256 = ?i" by (rule walk_key_mod [OF Suc.prems(2)])
  have rot: "rotate_left_8 (walk_key (Suc n) g) = walk_key n g" using Suc.prems by (intro rotate_walk_key) simp_all
  have l: "length t = 256" using Suc.prems(1) by simp
  show ?case
  proof (rule tree_ok_slot [OF Suc.prems(1), of ?i])
    assume e: "t ! ?i = Empty"
    then have "get_table t ?i = Some None" using l by (simp add: get_table_def nth_p_def)
    then show ?thesis using e idx by simp
  next
    fix u assume e: "t ! ?i = Table u" and u: "tree_ok n u"
    then have gt: "get_table t ?i = Some (Some u)" using l by (simp add: get_table_def nth_p_def)
    have g: "tree_get (Suc n) t k = tree_get n u k" if "k div 256 ^ Suc n mod 256 = ?i" for k using e that by simp
    have al: "at_leaf (Suc n) (walk_key (Suc n) g) t f =
        at_leaf n (walk_key n g) u f \<bind> (\<lambda>(r, u'). Some (r, t[?i := Table u']))"
      using gt idx rot by simp
    have "leaf_op f F (tree_get n u g)" using Suc.prems(4) g [OF refl] by simp
    from Suc.IH [OF u Suc_lessD [OF Suc.prems(2)] Suc.prems(3) this] show ?thesis
    proof (elim disjE exE conjE)
      fix u' assume a: "at_leaf n (walk_key n g) u f = Some (Some (fst (F (tree_get n u g))), u')"
        and up: "tree_upd n u g (snd (F (tree_get n u g))) u'"
      have "tree_upd (Suc n) t g (snd (F (tree_get n u g))) (t[?i := Table u'])"
        using tree_upd_node [OF Suc.prems(1) refl up] g by simp
      then show ?thesis using al a g [OF refl] by simp
    next
      assume a: "at_leaf n (walk_key n g) u f = Some (None, u)" and n: "tree_get n u g = None"
      have "t[?i := Table u] = t" using e by (metis list_update_id)
      then show ?thesis using al a n g [OF refl] by simp
    qed
  qed simp
qed

lemma insert_walk_ok:
  assumes "tree_ok n t" and "n < 4" and "g < 2 ^ 32" and "leaf_op (f g) F (tree_get n t g)"
  shows "\<exists>t'. insert_walk n (walk_key n g) t f = Some (fst (F (tree_get n t g)), t') \<and>
      tree_upd n t g (snd (F (tree_get n t g))) t'"
  using assms
proof (induction n arbitrary: t)
  case 0
  let ?i = "g mod 256"
  have "t ! ?i = leaf_of (tree_get 0 t ?i)" using tree_ok_leaf [OF "0.prems"(1), of ?i] by simp
  then have "t ! ?i = leaf_of (tree_get 0 t g)" by simp
  then have "f g t ?i = Some (fst (F (tree_get 0 t g)), t[?i := leaf_of (snd (F (tree_get 0 t g)))])"
    using "0.prems"(1,4) unfolding leaf_op_def by simp
  then show ?case using tree_upd_leaf [OF "0.prems"(1)] by simp
next
  case (Suc n)
  let ?i = "g div 256 ^ Suc n mod 256"
  have idx: "walk_key (Suc n) g mod 256 = ?i" by (rule walk_key_mod [OF Suc.prems(2)])
  have rot: "rotate_left_8 (walk_key (Suc n) g) = walk_key n g" using Suc.prems by (intro rotate_walk_key) simp_all
  have l: "length t = 256" using Suc.prems(1) by simp
  have main: ?case if u: "tree_ok n u" and g: "\<And>k. k div 256 ^ Suc n mod 256 = ?i \<Longrightarrow> tree_get n u k = tree_get (Suc n) t k"
    and iw: "insert_walk (Suc n) (walk_key (Suc n) g) t f =
        insert_walk n (walk_key n g) u f \<bind> (\<lambda>(r, u'). Some (r, t[?i := Table u']))" for u
  proof -
    have "leaf_op (f g) F (tree_get n u g)" using Suc.prems(4) g [OF refl] by simp
    then obtain u' where "insert_walk n (walk_key n g) u f = Some (fst (F (tree_get n u g)), u')"
      and "tree_upd n u g (snd (F (tree_get n u g))) u'"
      using Suc.IH [OF u _ Suc.prems(3)] Suc.prems(2) by auto
    then show ?thesis using iw g [OF refl] tree_upd_node [OF Suc.prems(1) refl _ g] by auto
  qed
  show ?case
  proof (rule tree_ok_slot [OF Suc.prems(1), of ?i])
    assume e: "t ! ?i = Empty"
    then have "get_table t ?i = Some None" "new_next_level_table t ?i = Some (table_default, t[?i := Table table_default])"
      using l by (simp_all add: get_table_def new_next_level_table_def nth_p_def)
    then show ?thesis using e idx rot by (intro main [of table_default]) simp_all
  next
    fix u assume e: "t ! ?i = Table u" and u: "tree_ok n u"
    then have "get_table t ?i = Some (Some u)" using l by (simp add: get_table_def nth_p_def)
    then show ?thesis using e u idx rot by (intro main [of u]) simp_all
  qed simp
qed

section \<open>The map that a handle map implements\<close>

definition hm_map :: "HandleMap \<Rightarrow> nat \<rightharpoonup> arc" where
  "hm_map hm h = (if h < 256 ^ hm_depth hm then tree_get (hm_depth hm - 1) (hm_table hm) h else None)"

definition hm_inv :: "HandleMap \<Rightarrow> bool" where
  "hm_inv hm \<longleftrightarrow> handles_inv (hm_allocator hm) \<and> 0 < hm_depth hm \<and> hm_depth hm \<le> 4 \<and>
     handle_zeros_prefix_bit_length hm = 32 - 8 * hm_depth hm \<and>
     max_handle (hm_allocator hm) \<le> 256 ^ hm_depth hm \<and> tree_ok (hm_depth hm - 1) (hm_table hm) \<and>
     dom (hm_map hm) = handle_set (bits (hm_allocator hm))"

lemma hm_map_allocator [simp]:
  "hm_map (hm\<lparr>hm_table := t, hm_allocator := a\<rparr>) = hm_map (hm\<lparr>hm_table := t\<rparr>)"
  "hm_map (hm\<lparr>hm_allocator := a, hm_table := t\<rparr>) = hm_map (hm\<lparr>hm_table := t\<rparr>)"
  by (simp_all add: hm_map_def fun_eq_iff)

lemma leaf_table_walk:
  assumes "hm_inv hm" and "hm_depth hm = Suc d"
  shows "leaf_table_for_handle hm h f = at_leaf d (walk_key d (h mod 256 ^ Suc d)) (hm_table hm) f"
proof -
  have d: "d < 4" and p: "handle_zeros_prefix_bit_length hm = 32 - 8 * Suc d" using assms by (simp_all add: hm_inv_def)
  show ?thesis unfolding leaf_table_for_handle_def p walk_start(1) [OF d] assms(2) bind.bind_lunit
      sub_p_def walk_start(2) [OF d] by simp
qed

lemma key_bound: "d < 4 \<Longrightarrow> (h :: nat) mod 256 ^ Suc d < 2 ^ 32"
proof -
  assume "d < 4"
  then have "(256 :: nat) ^ Suc d \<le> 256 ^ 4" by (intro power_increasing) simp_all
  moreover have "h mod 256 ^ Suc d < 256 ^ Suc d" by simp
  ultimately have "h mod 256 ^ Suc d < 256 ^ 4" by (rule less_le_trans [rotated])
  then show ?thesis by simp
qed

lemma hm_map_mod: "hm_depth hm = Suc d \<Longrightarrow> hm_map hm (h mod 256 ^ Suc d) = tree_get d (hm_table hm) (h mod 256 ^ Suc d)"
  by (simp add: hm_map_def)

lemma at_leaf_map:
  assumes "hm_inv hm" and "g = h mod 256 ^ hm_depth hm" and "leaf_op f F (hm_map hm g)"
  shows "(\<exists>t'. leaf_table_for_handle hm h f = Some (Some (fst (F (hm_map hm g))), t') \<and>
      tree_ok (hm_depth hm - 1) t' \<and>
      hm_map (hm\<lparr>hm_table := t'\<rparr>) = (hm_map hm)(g := snd (F (hm_map hm g)))) \<or>
    leaf_table_for_handle hm h f = Some (None, hm_table hm) \<and> hm_map hm g = None"
proof -
  obtain d where d: "hm_depth hm = Suc d" "d < 4" using assms(1) by (cases "hm_depth hm") (auto simp: hm_inv_def)
  have t: "tree_ok d (hm_table hm)" using assms(1) d by (simp add: hm_inv_def)
  have g: "g = h mod 256 ^ Suc d" and m: "hm_map hm g = tree_get d (hm_table hm) g"
    using assms(2) hm_map_mod [OF d(1), of h] d(1) by simp_all
  have gb: "g < 256 ^ Suc d" by (simp only: g) simp
  have gs: "g < 2 ^ 32" using key_bound [OF d(2)] g by simp
  have "leaf_op f F (tree_get d (hm_table hm) g)" using assms(3) m by simp
  from at_leaf_ok [OF t d(2) gs this] show ?thesis
  proof (elim disjE exE conjE)
    fix t' assume a: "at_leaf d (walk_key d g) (hm_table hm) f = Some (Some (fst (F (tree_get d (hm_table hm) g))), t')"
      and up: "tree_upd d (hm_table hm) g (snd (F (tree_get d (hm_table hm) g))) t'"
    have "hm_map (hm\<lparr>hm_table := t'\<rparr>) k = ((hm_map hm)(g := snd (F (hm_map hm g)))) k" for k
    proof (cases "k < 256 ^ Suc d")
      case True
      then have "hm_map (hm\<lparr>hm_table := t'\<rparr>) k = tree_get d t' k" using d by (simp add: hm_map_def)
      also have "\<dots> = (if k mod 256 ^ Suc d = g mod 256 ^ Suc d then snd (F (hm_map hm g)) else tree_get d (hm_table hm) k)"
        using up m by (simp add: tree_upd_def)
      finally show ?thesis using True gb d(1) unfolding mod_less [OF True] mod_less [OF gb]
        by (simp add: hm_map_def)
    next
      case False
      then show ?thesis using gb d by (auto simp: hm_map_def)
    qed
    then show ?thesis using a up m d leaf_table_walk [OF assms(1) d(1), of h f] g by (auto simp: tree_upd_def)
  next
    assume "at_leaf d (walk_key d g) (hm_table hm) f = Some (None, hm_table hm)" "tree_get d (hm_table hm) g = None"
    then show ?thesis using m leaf_table_walk [OF assms(1) d(1), of h f] g by simp
  qed
qed

lemma leaf_op_get:
  assumes "\<forall>p. v = Some p \<longrightarrow> c p \<noteq> 0"
  shows "leaf_op (\<lambda>t i. do { (v, c') \<leftarrow> get_value t i c; Some ((v, c'), t) })
     (\<lambda>v. ((v, case v of None \<Rightarrow> c | Some p \<Rightarrow> c(p := c p + 1)), v)) v"
proof -
  have "do { (v, c') \<leftarrow> get_value t i c; Some ((v, c'), t) } =
      Some ((v, case v of None \<Rightarrow> c | Some p \<Rightarrow> c(p := c p + 1)), t[i := leaf_of v])"
    if "length t = 256" "i < 256" "t ! i = leaf_of v" for t i
    using that assms list_update_id [of t i]
    by (cases v) (simp_all add: get_value_def nth_p_def leaf_of_def increment_strong_count_def)
  then show ?thesis by (simp add: leaf_op_def)
qed

lemma leaf_op_take: "leaf_op take_value (\<lambda>v. (v, None)) v"
  by (cases v) (auto simp: leaf_op_def take_value_def nth_p_def leaf_of_def)

definition counted_up :: "arcs \<Rightarrow> arc option \<Rightarrow> arcs" where
  "counted_up c v = (case v of None \<Rightarrow> c | Some p \<Rightarrow> c(p := c p + 1))"

text \<open>\<^verbatim>\<open>get\<close> returns the value of the handle, with one more reference to it, and \<open>None\<close> for
  a handle that has none.  A handle is read modulo the capacity of the tables.\<close>

lemma handle_map_get_correct:
  assumes "hm_inv hm" and "\<forall>p \<in> ran (hm_map hm). 0 < c p"
  shows "handle_map_get hm h c =
    Some (hm_map hm (h mod 256 ^ hm_depth hm), counted_up c (hm_map hm (h mod 256 ^ hm_depth hm)))"
proof -
  let ?g = "h mod 256 ^ hm_depth hm"
  have "\<forall>p. hm_map hm ?g = Some p \<longrightarrow> c p \<noteq> 0" using assms(2) by (auto simp: ran_def)
  from at_leaf_map [OF assms(1) refl leaf_op_get [OF this]] show ?thesis
    by (auto simp: handle_map_get_def counted_up_def)
qed

text \<open>C27: \<^verbatim>\<open>remove\<close> of a handle within the capacity returns its value, ends the association and gives
  the handle back to the allocator; without a value nothing changes.  The references do not
  change: the one of the map goes to the caller.\<close>

theorem handle_map_remove_correct:
  assumes "hm_inv hm" and "h < 256 ^ hm_depth hm"
  shows "\<exists>hm'. handle_map_remove hm h c = Some (hm_map hm h, hm', c) \<and> hm_inv hm' \<and>
    hm_map hm' = (hm_map hm)(h := None) \<and> max_handle (hm_allocator hm') = max_handle (hm_allocator hm)"
proof -
  let ?a = "hm_allocator hm"
  have a: "handles_inv ?a" and dm: "dom (hm_map hm) = handle_set (bits ?a)" using assms(1) by (simp_all add: hm_inv_def)
  from at_leaf_map [OF assms(1) refl leaf_op_take, of h, unfolded mod_less [OF assms(2)] fst_conv snd_conv] show ?thesis
  proof (elim disjE exE conjE)
    fix t' assume l: "leaf_table_for_handle hm h take_value = Some (Some (hm_map hm h), t')"
      and t: "tree_ok (hm_depth hm - 1) t'" and m: "hm_map (hm\<lparr>hm_table := t'\<rparr>) = (hm_map hm)(h := None)"
    have m': "hm_map (hm\<lparr>hm_table := t', hm_allocator := a'\<rparr>) = (hm_map hm)(h := None)" for a'
      using m by simp
    show ?thesis
    proof (cases "hm_map hm h")
      case None
      then have "h \<notin> handle_set (bits ?a)" using dm by auto
      then obtain e where "free_handle ?a h = Some (Inl e, ?a)" using handles.free_other [OF a] by blast
      then have "handle_map_remove hm h c = Some (None, hm\<lparr>hm_table := t', hm_allocator := ?a\<rparr>, c)"
        using l None by (simp add: handle_map_remove_def)
      moreover have "hm_inv (hm\<lparr>hm_table := t', hm_allocator := ?a\<rparr>)"
        using assms(1) t dm None unfolding hm_inv_def m' by (simp add: fun_upd_idem)
      ultimately show ?thesis using m' None by auto
    next
      case (Some p)
      then have "h \<in> handle_set (bits ?a)" using dm by auto
      then obtain a' where f: "free_handle ?a h = Some (Inr (), a')" "handles_inv a'"
        "max_handle a' = max_handle ?a" "handle_set (bits a') = handle_set (bits ?a) - {h}"
        using handles.free_live [OF a] by blast
      have "handle_map_remove hm h c = Some (Some p, hm\<lparr>hm_table := t', hm_allocator := a'\<rparr>, c)"
        using l Some f(1) by (simp add: handle_map_remove_def)
      moreover have "hm_inv (hm\<lparr>hm_table := t', hm_allocator := a'\<rparr>)"
        using assms(1) t dm f unfolding hm_inv_def m' by simp
      ultimately show ?thesis using m' Some f(3) by auto
    qed
  next
    assume l: "leaf_table_for_handle hm h take_value = Some (None, hm_table hm)" and n: "hm_map hm h = None"
    have "hm\<lparr>hm_table := hm_table hm\<rparr> = hm" by simp
    then have "handle_map_remove hm h c = Some (None, hm, c)" using l by (simp add: handle_map_remove_def)
    then show ?thesis using n assms(1) by (auto simp: fun_upd_idem)
  qed
qed

text \<open>Storing the made value in the slot of a new handle.\<close>

lemma insert_walk_map:
  assumes "hm_inv hm" and "h < 256 ^ hm_depth hm" and "leaf_op (f h) F (hm_map hm h)"
  shows "\<exists>n s t'. shl_u32 h (handle_zeros_prefix_bit_length hm) = Some s \<and> sub_p (hm_depth hm) 1 = Some n \<and>
    insert_walk n (rotate_left_8 s) (hm_table hm) f = Some (fst (F (hm_map hm h)), t') \<and>
    tree_ok (hm_depth hm - 1) t' \<and> hm_map (hm\<lparr>hm_table := t'\<rparr>) = (hm_map hm)(h := snd (F (hm_map hm h)))"
proof -
  obtain d where d: "hm_depth hm = Suc d" "d < 4" using assms(1) by (cases "hm_depth hm") (auto simp: hm_inv_def)
  have t: "tree_ok d (hm_table hm)" and p: "handle_zeros_prefix_bit_length hm = 32 - 8 * Suc d"
    using assms(1) d by (simp_all add: hm_inv_def)
  have hb: "h < 256 ^ Suc d" and m: "hm_map hm h = tree_get d (hm_table hm) h" using assms(2) d by (simp_all add: hm_map_def)
  note ws = walk_start [OF d(2), of h, unfolded mod_less [OF hb]]
  have "h < 2 ^ 32" using key_bound [OF d(2), of h] unfolding mod_less [OF hb] .
  then obtain t' where iw: "insert_walk d (walk_key d h) (hm_table hm) f = Some (fst (F (hm_map hm h)), t')"
    and up: "tree_upd d (hm_table hm) h (snd (F (hm_map hm h))) t'"
    using insert_walk_ok [OF t d(2), of h f F] assms(3) m by auto
  have "hm_map (hm\<lparr>hm_table := t'\<rparr>) k = ((hm_map hm)(h := snd (F (hm_map hm h)))) k" for k
  proof (cases "k < 256 ^ Suc d")
    case True
    then have "hm_map (hm\<lparr>hm_table := t'\<rparr>) k = tree_get d t' k" using d by (simp add: hm_map_def)
    also have "\<dots> = (if k = h then snd (F (hm_map hm h)) else tree_get d (hm_table hm) k)"
      using up unfolding tree_upd_def mod_less [OF hb] by (metis mod_less [OF True])
    finally show ?thesis using True d by (simp add: hm_map_def)
  next
    case False
    then have "k \<noteq> h" using hb by blast
    then show ?thesis using False d by (simp add: hm_map_def)
  qed
  then have mm: "hm_map (hm\<lparr>hm_table := t'\<rparr>) = (hm_map hm)(h := snd (F (hm_map hm h)))" by blast
  have "sub_p (hm_depth hm) 1 = Some d" using d by simp
  moreover have "tree_ok (hm_depth hm - 1) t'" using up d by (simp add: tree_upd_def)
  ultimately show ?thesis using ws iw mm unfolding p by auto
qed

lemma insert_self_referential_spec:
  assumes "hm_inv hm" and "\<forall>h. 0 < snd (make_value h c) (fst (make_value h c))"
  shows "case next_handle (hm_allocator hm) of
      Some (None, a') \<Rightarrow> insert_self_referential hm make_value c = Some (None, hm, c)
    | Some (Some h, a') \<Rightarrow> (\<exists>hm'. insert_self_referential hm make_value c =
          Some (Some (h, fst (make_value h c)), hm', counted_up (snd (make_value h c)) (Some (fst (make_value h c)))) \<and>
        hm_inv hm' \<and> hm_map hm h = None \<and> hm_map hm' = (hm_map hm)(h \<mapsto> fst (make_value h c)) \<and> hm_allocator hm' = a')
    | None \<Rightarrow> False"
proof -
  let ?a = "hm_allocator hm"
  have a: "handles_inv ?a" and dm: "dom (hm_map hm) = handle_set (bits ?a)" using assms(1) by (simp_all add: hm_inv_def)
  obtain r a' where n: "next_handle ?a = Some (r, a')" "handles_inv a'" "max_handle a' = max_handle ?a"
    using handles.next_returns [OF a] by blast
  show ?thesis
  proof (cases r)
    case None
    then have "a' = ?a" using handles.next_full [OF a] n by blast
    then show ?thesis using n(1) None by (simp add: insert_self_referential_def)
  next
    case (Some h)
    obtain val c1 where mv: "make_value h c = (val, c1)" by fastforce
    have f: "h < max_handle ?a" "h \<notin> handle_set (bits ?a)" "handle_set (bits a') = insert h (handle_set (bits ?a))"
      using handles.next_fresh [OF a] n(1) Some by blast+
    have hb: "h < 256 ^ hm_depth hm" using f(1) assms(1) by (auto simp: hm_inv_def)
    have none: "hm_map hm h = None" using f(2) dm by auto
    let ?f = "\<lambda>handle table index. do {
           let (val, c1) = make_value handle c;
           c2 \<leftarrow> increment_strong_count val c1;
           (res, table') \<leftarrow> put_value table index val;
           assert_p (res = None);
           Some (((handle, val), c2), table')
         }"
    let ?F = "\<lambda>_. (((h, val), c1(val := c1 val + 1)), Some val)"
    have "leaf_op (?f h) ?F (hm_map hm h)" using spec [OF assms(2), of h] none mv
      by (auto simp: leaf_op_def leaf_of_def put_value_def nth_p_def increment_strong_count_def)
    from insert_walk_map [where f = ?f and F = ?F, OF assms(1) hb this] obtain m s t' where
      w: "shl_u32 h (handle_zeros_prefix_bit_length hm) = Some s" "sub_p (hm_depth hm) 1 = Some m"
        "insert_walk m (rotate_left_8 s) (hm_table hm) ?f = Some (((h, val), c1(val := c1 val + 1)), t')"
      and t: "tree_ok (hm_depth hm - 1) t'" and hm: "hm_map (hm\<lparr>hm_table := t'\<rparr>) = (hm_map hm)(h \<mapsto> val)"
      by auto
    let ?hm = "hm\<lparr>hm_allocator := a', hm_table := t'\<rparr>"
    have hm': "hm_map ?hm = (hm_map hm)(h \<mapsto> val)" using hm by simp
    have "insert_self_referential hm make_value c = Some (Some (h, val), ?hm, c1(val := c1 val + 1))"
      using n(1) Some w(1,3) w(2)  by (simp add: insert_self_referential_def sub_p_def split: if_splits)
    moreover have "hm_inv ?hm" using assms(1) t dm n f(3) unfolding hm_inv_def hm' by auto
    ultimately show ?thesis using n(1) Some mv none hm' by (simp add: counted_up_def)
  qed
qed

text \<open>C16: \<^verbatim>\<open>insert\<close> associates the least free handle with the value, or hands the value back when
  all handles are taken.  The reference that the caller passes in becomes the reference of the
  map, so the counts do not change, and no other handle changes.\<close>

theorem handle_map_insert_correct:
  assumes "hm_inv hm" and "0 < c value" and "H = dom (hm_map hm)" and "mh = max_handle (hm_allocator hm)"
  shows "if H = {..<mh} then insert_value hm value c = Some (Inl value, hm, c)
    else \<exists>hm'. insert_value hm value c = Some (Inr (LEAST h. h \<notin> H), hm', c) \<and> hm_inv hm' \<and>
      (LEAST h. h \<notin> H) < mh \<and> max_handle (hm_allocator hm') = mh \<and>
      hm_map hm' = (hm_map hm)((LEAST h. h \<notin> H) \<mapsto> value)"
proof -
  let ?a = "hm_allocator hm"
  have a: "handles_inv ?a" and H: "H = handle_set (bits ?a)" using assms(1,3) by (simp_all add: hm_inv_def)
  have spec: "case next_handle ?a of
      Some (None, a') \<Rightarrow> insert_self_referential hm (\<lambda>_ c. (value, c(value := c value + 1))) c = Some (None, hm, c)
    | Some (Some h, a') \<Rightarrow> (\<exists>hm'. insert_self_referential hm (\<lambda>_ c. (value, c(value := c value + 1))) c =
          Some (Some (h, value), hm', c(value := Suc (Suc (c value)))) \<and>
        hm_inv hm' \<and> hm_map hm' = (hm_map hm)(h \<mapsto> value) \<and> hm_allocator hm' = a')
    | None \<Rightarrow> False"
    using insert_self_referential_spec [OF assms(1), of "\<lambda>_ c. (value, c(value := c value + 1))" c]
    by (auto simp: counted_up_def split: option.splits)
  note next_spec = next_handle_spec [OF a]
  show ?thesis
  proof (cases "next_handle ?a")
    case (Some ra)
    obtain r a' where ra: "ra = (r, a')" by fastforce
    show ?thesis
    proof (cases r)
      case None
      then show ?thesis using spec next_spec Some ra H assms(4) by (simp add: insert_value_def)
    next
      case (Some h)
      note f = next_spec [unfolded \<open>next_handle ?a = Some ra\<close> ra Some, simplified]
      have l: "(LEAST h. h \<notin> H) = h" by (rule Least_equality) (use f H in \<open>auto simp: not_less [symmetric]\<close>)
      obtain hm' where i: "insert_self_referential hm (\<lambda>_ c. (value, c(value := c value + 1))) c =
          Some (Some (h, value), hm', c(value := Suc (Suc (c value))))" "hm_inv hm'" "hm_map hm' = (hm_map hm)(h \<mapsto> value)"
        "hm_allocator hm' = a'"
        using spec \<open>next_handle ?a = Some ra\<close> ra Some by auto
      have "insert_value hm value c = Some (Inr h, hm', c)"
        using i(1) assms(2) by (simp add: insert_value_def arc_drop_def)
      moreover have "H \<noteq> {..<mh}" using f H assms(4) by auto
      ultimately show ?thesis using i f l assms(4) by auto
    qed
  qed (use next_spec in simp)
qed

section \<open>New maps and dropped maps\<close>

lemma handle_map_new_depth:
  assumes "0 < mh" and "mh < 2 ^ 32"
  shows "hm_depth (handle_map_new mh) = Suc (ilog2 mh div 8)" and "ilog2 mh div 8 < 4"
    and "handle_zeros_prefix_bit_length (handle_map_new mh) = 32 - 8 * Suc (ilog2 mh div 8)"
    and "mh < 256 ^ Suc (ilog2 mh div 8)"
proof -
  let ?l = "ilog2 mh"
  have b: "2 ^ ?l \<le> mh" "mh < 2 ^ Suc ?l" using ilog2_bounds [OF assms(1)] by simp_all
  have "2 ^ ?l < (2 ^ 32 :: nat)" using b(1) assms(2) by (rule le_less_trans)
  then have l: "?l < 32" using power_less_imp_less_exp [of "2 :: nat" ?l 32] by simp
  then show "?l div 8 < 4" by simp
  have e: "leading_zeros mh div 8 * 8 = 32 - 8 * Suc (?l div 8)"
  proof -
    define q r where "q = ?l div 8" and "r = ?l mod 8"
    then have qr: "?l = 8 * q + r" "r < 8" "q < 4" using l by simp_all
    then have "31 - ?l = 8 * (3 - q) + (7 - r)" by linarith
    moreover have "(8 * (3 - q) + (7 - r)) div 8 = 3 - q" by (subst div_mult_self4) simp_all
    ultimately have "leading_zeros mh div 8 = 3 - q" using assms(1) by (simp add: leading_zeros_def)
    then show ?thesis using q_def qr(3) by simp
  qed
  then show "handle_zeros_prefix_bit_length (handle_map_new mh) = 32 - 8 * Suc (?l div 8)"
    by (simp only: handle_map_new_def Let_def HandleMap.select_convs)
  have "hm_depth (handle_map_new mh) = (32 - (32 - 8 * Suc (?l div 8)) + 7) div 8"
    using e by (simp only: handle_map_new_def Let_def HandleMap.select_convs)
  also have "\<dots> = Suc (?l div 8)" using l by simp
  finally show "hm_depth (handle_map_new mh) = Suc (?l div 8)" .
  have "(256 :: nat) = 2 ^ 8" by simp
  then have "(256 :: nat) ^ Suc (?l div 8) = 2 ^ (8 * Suc (?l div 8))" by (simp only: power_mult)
  moreover have "(2 :: nat) ^ Suc ?l \<le> 2 ^ (8 * Suc (?l div 8))" by (intro power_increasing) simp_all
  ultimately show "mh < 256 ^ Suc (?l div 8)" using b(2) by simp
qed

lemma handle_map_new_fields [simp]:
  "hm_table (handle_map_new mh) = table_default" "hm_allocator (handle_map_new mh) = handle_allocator_new mh"
  by (simp_all add: handle_map_new_def Let_def)

text \<open>A new map for at least one handle is well-formed and empty, and can hold \<^verbatim>\<open>max_handle\<close>
  values.  A map for no handle at all has a prefix of 32 bits, and every access to it panics.\<close>

lemma handle_map_new_correct:
  assumes "mh < 2 ^ 32"
  shows "(0 < mh \<longrightarrow> hm_inv (handle_map_new mh) \<and> hm_map (handle_map_new mh) = Map.empty \<and>
      max_handle (hm_allocator (handle_map_new mh)) = mh) \<and>
    handle_map_get (handle_map_new 0) h c = None"
proof -
  have "hm_inv (handle_map_new mh) \<and> hm_map (handle_map_new mh) = Map.empty" if "0 < mh"
  proof -
    note d = handle_map_new_depth [OF that assms]
    have "hm_map (handle_map_new mh) = Map.empty" by (auto simp: hm_map_def)
    moreover have "hm_inv (handle_map_new mh)" unfolding hm_inv_def calculation d(1,3)
      using d(2,4) handles_inv_new [OF assms] by simp
    ultimately show ?thesis by simp
  qed
  moreover have "handle_map_get (handle_map_new 0) h c = None"
    by (simp add: handle_map_get_def leaf_table_for_handle_def shl_u32_def handle_map_new_def leading_zeros_def Let_def)
  ultimately show ?thesis by simp
qed

fun tree_refs :: "nat \<Rightarrow> slot list \<Rightarrow> arc \<Rightarrow> nat" where
  "tree_refs 0 t p = sum_list (map (\<lambda>v. if v = Value p then 1 else 0) t)"
| "tree_refs (Suc n) t p = sum_list (map (\<lambda>v. case v of Table u \<Rightarrow> tree_refs n u p | _ \<Rightarrow> 0) t)"

lemma drop_slots_refs:
  assumes "\<And>v c. v \<in> set vs \<Longrightarrow> \<forall>p. R v p \<le> c p \<Longrightarrow> f v c = Some (\<lambda>p. c p - R v p)"
    and "\<forall>p. sum_list (map (\<lambda>v. R v p) vs) \<le> c p"
  shows "drop_slots f vs c = Some (\<lambda>p. c p - sum_list (map (\<lambda>v. R v p) vs))"
  using assms
proof (induction vs arbitrary: c)
  case (Cons v vs)
  have le: "R v p + sum_list (map (\<lambda>v. R v p) vs) \<le> c p" for p using Cons.prems(2) by simp
  have "\<forall>p. R v p \<le> c p" using le add_leD1 by blast
  then have "f v c = Some (\<lambda>p. c p - R v p)" using Cons.prems(1) [of v c] by simp
  moreover have "drop_slots f vs (\<lambda>p. c p - R v p) = Some (\<lambda>p. c p - R v p - sum_list (map (\<lambda>v. R v p) vs))"
  proof (rule Cons.IH)
    show "\<forall>p. sum_list (map (\<lambda>v. R v p) vs) \<le> c p - R v p"
    proof
      fix p show "sum_list (map (\<lambda>v. R v p) vs) \<le> c p - R v p" using le [of p] by linarith
    qed
  qed (use Cons.prems(1) in simp)
  ultimately show ?case by (simp add: diff_diff_eq)
qed simp

lemma drop_children_refs:
  assumes "tree_ok n t" and "\<forall>p. tree_refs n t p \<le> c p"
  shows "drop_children (Suc n) t c = Some (\<lambda>p. c p - tree_refs n t p)"
  using assms
proof (induction n arbitrary: t c)
  case 0
  have "(case v of Empty \<Rightarrow> Some c | Value p \<Rightarrow> arc_drop p c | Table u \<Rightarrow> None) =
      Some (\<lambda>p. c p - (if v = Value p then 1 else 0))"
    if "v \<in> set t" "\<forall>p. (if v = Value p then 1 else 0) \<le> c p" for v and c :: arcs
  proof (cases v)
    case (Value q)
    then have "c q \<noteq> 0" using that(2) by (metis not_one_le_zero)
    then show ?thesis using Value by (auto simp: arc_drop_def)
  qed (use that(1) 0(1) in auto)
  then show ?case
    using drop_slots_refs [of t "\<lambda>v p. if v = Value p then 1 else 0"
        "\<lambda>v c. case v of Empty \<Rightarrow> Some c | Value p \<Rightarrow> arc_drop p c | Table u \<Rightarrow> None" c] 0(2)
    by (simp cong: slot.case_cong)
next
  case (Suc n)
  let ?R = "\<lambda>v p. case v of Table u \<Rightarrow> tree_refs n u p | _ \<Rightarrow> 0"
  have "(case v of Empty \<Rightarrow> Some c | Value p \<Rightarrow> None | Table u \<Rightarrow> drop_children (Suc n) u c) = Some (\<lambda>p. c p - ?R v p)"
    if "v \<in> set t" "\<forall>p. ?R v p \<le> c p" for v c
  proof (cases v)
    case (Table u)
    then have "tree_ok n u" "\<forall>p. tree_refs n u p \<le> c p" using that Suc.prems(1) by auto
    then show ?thesis using Table Suc.IH by (simp del: drop_children.simps)
  qed (use that(1) Suc.prems(1) in auto)
  then show ?case
    using drop_slots_refs [of t ?R "\<lambda>v c. case v of Empty \<Rightarrow> Some c | Value p \<Rightarrow> None | Table u \<Rightarrow> drop_children (Suc n) u c" c]
      Suc.prems(2) by (simp del: drop_children.simps(2) add: drop_children.simps(2) [of "Suc n"] cong: slot.case_cong)
qed

text \<open>The references of a tree are its keys.\<close>

lemma tree_get_mod: "tree_get n t (k mod 256 ^ Suc n) = tree_get n t k"
proof (induction n arbitrary: t k)
  case (Suc n)
  have d: "k mod 256 ^ Suc (Suc n) div 256 ^ Suc n mod 256 = k div 256 ^ Suc n mod 256"
    and m: "k mod 256 ^ Suc (Suc n) mod 256 ^ Suc n = k mod 256 ^ Suc n"
    using key_eq_iff [of "k mod 256 ^ Suc (Suc n)" n k] by simp_all
  have "tree_get n u (k mod 256 ^ Suc (Suc n)) = tree_get n u k" for u
    using Suc.IH [of u k] Suc.IH [of u "k mod 256 ^ Suc (Suc n)"] unfolding m by simp
  then have "(case v of Table u \<Rightarrow> tree_get n u (k mod 256 ^ Suc (Suc n)) | _ \<Rightarrow> None) =
      (case v of Table u \<Rightarrow> tree_get n u k | _ \<Rightarrow> None)" for v by (cases v) (simp_all only: slot.case)
  then show ?case unfolding tree_get.simps d .
qed simp

lemma tree_refs_sum:
  "tree_ok n t \<Longrightarrow> tree_refs n t p = (\<Sum>k < 256 ^ Suc n. if tree_get n t k = Some p then 1 else 0)"
proof (induction n arbitrary: t)
  case 0
  have "t ! i = Value p \<longleftrightarrow> tree_get 0 t i = Some p" if "i < 256" for i
    using tree_ok_leaf [OF 0 that] by (simp add: leaf_of_def split: option.splits)
  then show ?case using 0 by (simp add: sum_list_sum_nth lessThan_atLeast0)
next
  case (Suc n)
  let ?k = "256 ^ Suc n" and ?f = "\<lambda>k :: nat. if tree_get (Suc n) t k = Some p then 1 else 0 :: nat"
  have l: "length t = 256" using Suc.prems by simp
  have row: "(case t ! i of Table u \<Rightarrow> tree_refs n u p | _ \<Rightarrow> 0) = sum ?f {i * ?k..<i * ?k + ?k}" if i: "i < 256" for i
  proof -
    have "sum ?f {i * ?k..<i * ?k + ?k} = (\<Sum>k < ?k. ?f (i * ?k + k))"
      using sum.shift_bounds_nat_ivl [of ?f 0 "i * ?k" ?k] by (simp add: lessThan_atLeast0 add.commute)
    also have "\<dots> = (\<Sum>k < ?k. if (case t ! i of Table u \<Rightarrow> tree_get n u k | _ \<Rightarrow> None) = Some p then 1 else 0)"
    proof (rule sum.cong [OF refl])
      fix k :: nat assume "k \<in> {..<?k}"
      then have k: "k < ?k" by simp
      have d: "(i * ?k + k) div ?k mod 256 = i" using i k by simp
      have m: "(i * ?k + k) mod ?k = k" using k by simp
      have "tree_get n u (i * ?k + k) = tree_get n u k" for u
        using tree_get_mod [of n u "i * ?k + k"] unfolding m by simp
      then have "(case v of Table u \<Rightarrow> tree_get n u (i * ?k + k) | _ \<Rightarrow> None) =
          (case v of Table u \<Rightarrow> tree_get n u k | _ \<Rightarrow> None)" for v by (cases v) (simp_all only: slot.case)
      then show "?f (i * ?k + k) = (if (case t ! i of Table u \<Rightarrow> tree_get n u k | _ \<Rightarrow> None) = Some p then 1 else 0)"
        unfolding tree_get.simps d by simp
    qed
    also have "\<dots> = (case t ! i of Table u \<Rightarrow> tree_refs n u p | _ \<Rightarrow> 0)"
      by (rule tree_ok_slot [OF Suc.prems i]) (simp_all add: Suc.IH)
    finally show ?thesis by simp
  qed
  have "tree_refs (Suc n) t p = (\<Sum>i < 256. case t ! i of Table u \<Rightarrow> tree_refs n u p | _ \<Rightarrow> 0)"
    using l by (simp add: sum_list_sum_nth lessThan_atLeast0)
  also have "\<dots> = (\<Sum>i < 256. sum ?f {i * ?k..<i * ?k + ?k})" by (rule sum.cong [OF refl]) (rule row, simp)
  also have "\<dots> = sum ?f {..<256 * ?k}" by (rule sum.nat_group)
  finally show ?case unfolding power_Suc [of 256 "Suc n"] .
qed

text \<open>C28: dropping the map releases exactly one reference for every handle that is associated with a
  value, and nothing else: no reference leaks and none is released twice.\<close>

theorem handle_map_drop_correct:
  assumes "hm_inv hm" and "\<forall>p. card {h. hm_map hm h = Some p} \<le> c p"
  shows "handle_map_drop hm c = Some (\<lambda>p. c p - card {h. hm_map hm h = Some p})"
proof -
  obtain d where d: "hm_depth hm = Suc d" using assms(1) by (cases "hm_depth hm") (auto simp: hm_inv_def)
  have t: "tree_ok d (hm_table hm)" using assms(1) d by (simp add: hm_inv_def)
  have "card {h. hm_map hm h = Some p} = tree_refs d (hm_table hm) p" for p
  proof -
    have "{h. hm_map hm h = Some p} = {h \<in> {..<256 ^ Suc d}. tree_get d (hm_table hm) h = Some p}"
      using d by (auto simp: hm_map_def split: if_splits)
    then have "card {h. hm_map hm h = Some p} = (\<Sum>h < 256 ^ Suc d. if tree_get d (hm_table hm) h = Some p then 1 else 0)"
      by (simp add: sum.If_cases Int_def)
    then show ?thesis using tree_refs_sum [OF t] by simp
  qed
  then show ?thesis using drop_children_refs [OF t, of c] assms(2) d by (simp add: handle_map_drop_def)
qed

text \<open>C29: a handle beyond the capacity of the tables is not rejected: its high bits are shifted out
  before the allocator sees it.  Removing such a handle takes the value of the handle it aliases
  out of the map and drops it, reports that there was nothing, and leaves the aliased handle
  allocated.\<close>

theorem remove_out_of_range_aliases:
  assumes "hm_inv hm" and "256 ^ hm_depth hm \<le> h" and "g = h mod 256 ^ hm_depth hm"
    and "hm_map hm g = Some p" and "0 < c p"
  shows "\<exists>hm'. handle_map_remove hm h c = Some (None, hm', c(p := c p - 1)) \<and>
    hm_map hm' = (hm_map hm)(g := None) \<and> hm_allocator hm' = hm_allocator hm \<and> \<not> hm_inv hm'"
proof -
  let ?a = "hm_allocator hm"
  have a: "handles_inv ?a" and dm: "dom (hm_map hm) = handle_set (bits ?a)"
    and mh: "max_handle ?a \<le> 256 ^ hm_depth hm" using assms(1) by (simp_all add: hm_inv_def)
  have "\<not> h < max_handle ?a" using mh assms(2) by linarith
  then have f: "free_handle ?a h = Some (Inl OutOfBounds, ?a)" by (simp add: free_handle_def)
  obtain t' where l: "leaf_table_for_handle hm h take_value = Some (Some (Some p), t')"
    and m: "hm_map (hm\<lparr>hm_table := t'\<rparr>) = (hm_map hm)(g := None)"
    using at_leaf_map [OF assms(1,3) leaf_op_take] assms(4) by auto
  have r: "handle_map_remove hm h c = Some (None, hm\<lparr>hm_table := t', hm_allocator := ?a\<rparr>, c(p := c p - 1))"
    using l f assms(5) by (simp add: handle_map_remove_def arc_drop_def)
  have "g \<in> handle_set (bits ?a)" using dm assms(4) by auto
  then have "\<not> hm_inv (hm\<lparr>hm_table := t', hm_allocator := ?a\<rparr>)" using m by (auto simp: hm_inv_def)
  with r m show ?thesis by auto
qed

section \<open>A concrete map\<close>

text \<open>A map for 200 handles of which handle 0 has a value.\<close>

definition map200 :: HandleMap where
  "map200 = \<lparr> hm_allocator = \<lparr>bits = [1, 0, 0, 0], max_handle = 200\<rparr>, hm_table = table_default[0 := Value 16],
     handle_zeros_prefix_bit_length = 24, hm_depth = 1 \<rparr>"

lemma map200_map: "hm_map map200 = [0 \<mapsto> 16]"
  by (auto simp: hm_map_def map200_def table_default_def fun_eq_iff nth_list_update)

lemma map200_set: "handle_set [1, 0, 0, 0] = {0}"
proof -
  have "h \<in> handle_set [1, 0, 0, 0] \<longleftrightarrow> h = 0" for h
  proof (cases "h < 64")
    case False
    then have "h div 64 \<noteq> 0" by simp
    then obtain j where "h div 64 = Suc j" by (cases "h div 64") auto
    then show ?thesis using False by (auto simp: handle_set_def nth_Cons' split: if_splits)
  qed (auto simp: handle_set_def bit_1_iff)
  then show ?thesis by blast
qed

lemma map200_inv: "hm_inv map200"
proof -
  have "tree_ok 0 (table_default[0 := Value 16])"
    using set_update_subset_insert [of table_default 0 "Value 16"] by (auto simp: table_default_def)
  then show ?thesis unfolding hm_inv_def map200_map
    by (simp add: map200_def handles_inv_def map200_set)
qed

lemma handle_map_get_correct_example:
  "handle_map_get map200 0 ((\<lambda>_. 0)(16 := 1)) = Some (Some 16, (\<lambda>_. 0)(16 := 2)) \<and>
   handle_map_get map200 256 ((\<lambda>_. 0)(16 := 1)) = Some (Some 16, (\<lambda>_. 0)(16 := 2)) \<and>
   handle_map_get map200 7 ((\<lambda>_. 0)(16 := 1)) = Some (None, (\<lambda>_. 0)(16 := 1))"
proof -
  have "\<forall>p \<in> ran (hm_map map200). 0 < ((\<lambda>_. 0 :: nat)(16 := 1)) p" unfolding map200_map by simp
  then have g: "handle_map_get map200 h ((\<lambda>_. 0)(16 := 1)) = Some (hm_map map200 (h mod 256 ^ hm_depth map200),
      counted_up ((\<lambda>_. 0)(16 := 1)) (hm_map map200 (h mod 256 ^ hm_depth map200)))" for h
    by (rule handle_map_get_correct [OF map200_inv])
  have "hm_depth map200 = 1" by (simp add: map200_def)
  then show ?thesis using g [of 0] g [of 256] g [of 7]
    by (simp add: map200_map counted_up_def numeral_2_eq_2)
qed

theorem handle_map_remove_correct_witness:
  "\<exists>hm'. handle_map_remove map200 0 (\<lambda>_. 1) = Some (Some 16, hm', \<lambda>_. 1) \<and> hm_map hm' = Map.empty"
  using handle_map_remove_correct [OF map200_inv, of 0 "\<lambda>_. 1"] by (auto simp: map200_map)

lemma map200_free:
  "max_handle (hm_allocator map200) = 200" "dom (hm_map map200) \<noteq> {..<200}" "(LEAST h. h \<notin> dom (hm_map map200)) = 1"
proof -
  have d: "dom (hm_map map200) = {0}" by (simp add: map200_map)
  show "max_handle (hm_allocator map200) = 200" by (simp add: map200_def)
  show "dom (hm_map map200) \<noteq> {..<200}"
  proof
    assume "dom (hm_map map200) = {..<200}"
    then have "card (dom (hm_map map200)) = card {..<200 :: nat}" by (rule arg_cong)
    then show False by (simp add: d)
  qed
  show "(LEAST h. h \<notin> dom (hm_map map200)) = 1" unfolding d by (rule Least_equality) auto
qed

theorem handle_map_insert_correct_witness:
  "\<exists>hm'. insert_value map200 32 (\<lambda>_. 1) = Some (Inr 1, hm', \<lambda>_. 1) \<and> hm_map hm' = [0 \<mapsto> 16, 1 \<mapsto> 32]"
  using handle_map_insert_correct [OF map200_inv, of "\<lambda>_. 1" 32, OF _ refl refl,
      unfolded map200_free(1) map200_free(3) if_not_P [OF map200_free(2)]] by (auto simp: map200_map)

lemma handle_map_new_correct_example: "hm_inv (handle_map_new 70000) \<and> handle_map_get (handle_map_new 0) 3 (\<lambda>_. 0) = None"
  using handle_map_new_correct [of 70000 3 "\<lambda>_. 0"] by simp

theorem handle_map_drop_correct_witness: "handle_map_drop map200 ((\<lambda>_. 0)(16 := 3)) = Some ((\<lambda>_. 0)(16 := 2))"
proof -
  have c: "card {h. hm_map map200 h = Some p} = (if p = 16 then 1 else 0)" for p
  proof -
    have "{h. hm_map map200 h = Some p} = (if p = 16 then {0} else {})" by (auto simp: map200_map split: if_splits)
    then show ?thesis by simp
  qed
  then have "handle_map_drop map200 ((\<lambda>_. 0)(16 := 3)) =
      Some (\<lambda>p. ((\<lambda>_. 0)(16 := 3)) p - card {h. hm_map map200 h = Some p})"
    by (intro handle_map_drop_correct [OF map200_inv]) simp
  moreover have "(\<lambda>p. ((\<lambda>_. 0)(16 := 3)) p - card {h. hm_map map200 h = Some p}) = (\<lambda>_. 0)(16 := 2)"
    unfolding c by (auto simp: fun_eq_iff)
  ultimately show ?thesis by simp
qed

theorem remove_out_of_range_aliases_witness:
  "\<exists>hm'. handle_map_remove map200 256 (\<lambda>_. 1) = Some (None, hm', (\<lambda>_. 1)(16 := 0)) \<and> \<not> hm_inv hm'"
proof -
  have "hm_depth map200 = 1" by (simp add: map200_def)
  then show ?thesis
    using remove_out_of_range_aliases [OF map200_inv, of 256 0 16 "\<lambda>_. 1"] by (auto simp: map200_map)
qed

end
