(* ===== verification/Addresses.thy ===== *)
theory Addresses
  imports Kernel_Prelude
begin

text \<open>
  Addresses, pointers and page sizes of \<^verbatim>\<open>kernel_core/src/memory/mod.rs\<close>.
  \<^verbatim>\<open>PhysicalPointer<T>\<close>, \<^verbatim>\<open>VirtualPointer<T>\<close>, \<^verbatim>\<open>VirtualPointerMut<T>\<close> and raw
  pointers are all a \<^verbatim>\<open>usize\<close> with phantom type parameters; the model keeps the
  number and drops the phantom, so casts are the identity.  The size of \<^verbatim>\<open>T\<close> is an
  argument where the code uses it.  The conversions are those of the kernel build, not the
  \<^verbatim>\<open>cfg(test)\<close> variant.
\<close>

section \<open>Physical pointers\<close>

type_synonym paddr = usize
type_synonym vaddr = usize
type_synonym ptr = usize

definition phys_byte_add :: "paddr \<Rightarrow> usize \<Rightarrow> paddr panics" where
  "phys_byte_add p count = add_p p count"

definition phys_add :: "usize \<Rightarrow> paddr \<Rightarrow> usize \<Rightarrow> paddr panics" where
  "phys_add size_of_T p count = do { bytes \<leftarrow> mul_p count size_of_T; phys_byte_add p bytes }"

definition phys_null :: paddr where
  "phys_null = 0"

definition phys_is_null :: "paddr \<Rightarrow> bool" where
  "phys_is_null p \<longleftrightarrow> p = 0"

definition is_aligned_to :: "usize \<Rightarrow> usize \<Rightarrow> bool panics" where
  "is_aligned_to p alignment = (if alignment = 0 then panic else Some (p mod alignment = 0))"

definition phys_from_usize :: "usize \<Rightarrow> paddr panics" where
  "phys_from_usize value = do { assert_p (value < 0xffff000000000000); Some value }"

definition phys_from_ptr :: "ptr \<Rightarrow> paddr" where
  "phys_from_ptr value = value AND 0x0000ffffffffffff"

definition ptr_from_phys :: "paddr \<Rightarrow> ptr" where
  "ptr_from_phys val = val OR 0xffff000000000000"

section \<open>Virtual pointers\<close>

datatype NotInKernelAddressSpaceError = NotInKernelAddressSpaceError

definition is_in_kernel_space :: "vaddr \<Rightarrow> bool" where
  "is_in_kernel_space v \<longleftrightarrow> v AND 0xffff000000000000 = 0xffff000000000000"

definition virt_byte_add :: "vaddr \<Rightarrow> usize \<Rightarrow> vaddr panics" where
  "virt_byte_add v count = add_p v count"

definition virt_add :: "usize \<Rightarrow> vaddr \<Rightarrow> usize \<Rightarrow> vaddr panics" where
  "virt_add size_of_T v count = do { bytes \<leftarrow> mul_p count size_of_T; virt_byte_add v bytes }"

definition virt_null :: vaddr where
  "virt_null = 0"

definition ptr_try_from_virt :: "vaddr \<Rightarrow> NotInKernelAddressSpaceError + ptr" where
  "ptr_try_from_virt v =
     (if is_in_kernel_space v then Inr v else Inl NotInKernelAddressSpaceError)"

definition virt_from_phys :: "paddr \<Rightarrow> vaddr" where
  "virt_from_phys p = p OR 0xffff000000000000"

text \<open>\<^verbatim>\<open>then_some\<close> evaluates its argument also when the pointer is not in kernel
  space, so the assertion of \<^verbatim>\<open>PhysicalPointer::from\<close> comes first.\<close>

definition phys_try_from_virt :: "vaddr \<Rightarrow> (NotInKernelAddressSpaceError + paddr) panics" where
  "phys_try_from_virt v = do {
     p \<leftarrow> phys_from_usize (v AND 0x0000ffffffffffff);
     Some (if is_in_kernel_space v then Inr p else Inl NotInKernelAddressSpaceError)
   }"

section \<open>Errors and page sizes\<close>

datatype MemoryError = OutOfMemory | InvalidSize | UnknownPtr

datatype PageSize = FourKiB | SixteenKiB

definition page_size_from_usize :: "usize \<Rightarrow> PageSize panics" where
  "page_size_from_usize value =
     (if value = 0x1000 then Some FourKiB
      else if value = 0x4000 then Some SixteenKiB
      else panic)"

fun page_bytes :: "PageSize \<Rightarrow> usize" where
  "page_bytes FourKiB = 0x1000"
| "page_bytes SixteenKiB = 0x4000"

definition page_size_mul :: "PageSize \<Rightarrow> usize \<Rightarrow> usize panics" where
  "page_size_mul ps n = mul_p (page_bytes ps) n"

definition page_size_div :: "usize \<Rightarrow> PageSize \<Rightarrow> usize" where
  "page_size_div n ps = n div page_bytes ps"

lemma page_bytes_pos [simp]: "0 < page_bytes ps"
  by (cases ps) simp_all

lemma page_bytes_pow: "page_bytes ps = 2 ^ (case ps of FourKiB \<Rightarrow> 12 | SixteenKiB \<Rightarrow> 14)"
  by (cases ps) simp_all

lemma page_bytes_dvd_8 [simp]: "8 dvd page_bytes ps"
  by (cases ps) simp_all

section \<open>Tag bits\<close>

lemma low_mask: "(0x0000ffffffffffff :: nat) = mask 48"
  by (simp add: mask_eq_exp_minus_1)

lemma tag_mask: "(0xffff000000000000 :: nat) = push_bit 48 (mask 16)"
  by (simp add: mask_eq_exp_minus_1 push_bit_eq_mult)

lemma phys_from_ptr_mod: "phys_from_ptr a = a mod 2 ^ 48"
  unfolding phys_from_ptr_def low_mask by (simp only: take_bit_eq_mask [symmetric] take_bit_eq_mod)

lemma or_tag_add:
  fixes p :: nat
  assumes "p < 2 ^ 48"
  shows "p OR 0xffff000000000000 = p + 0xffff000000000000"
proof -
  have "p AND push_bit 48 (mask 16) = (0 :: nat)"
  proof (rule bit_eqI)
    fix n
    have "\<not> bit p n" if "48 \<le> n"
      using that assms take_bit_nat_eq_self_iff [of 48 p] by (metis bit_take_bit_iff not_less)
    then show "bit (p AND push_bit 48 (mask 16)) n \<longleftrightarrow> bit (0 :: nat) n"
      by (auto simp: bit_simps)
  qed
  then show ?thesis
    unfolding tag_mask by (simp add: disjunctive_add_eq_or)
qed

lemma and_tag: "(v :: nat) AND 0xffff000000000000 = v div 2 ^ 48 mod 2 ^ 16 * 2 ^ 48"
proof -
  have "v AND push_bit 48 (mask 16) = push_bit 48 (take_bit 16 (drop_bit 48 v))"
    by (rule bit_eqI) (auto simp: bit_simps)
  then show ?thesis
    unfolding tag_mask by (simp add: push_bit_eq_mult take_bit_eq_mod drop_bit_eq_div)
qed

lemma in_kernel_space_iff:
  assumes "v \<le> usize_max"
  shows "is_in_kernel_space v \<longleftrightarrow> 0xffff000000000000 \<le> v"
proof -
  have "v div 2 ^ 48 < 2 ^ 16" using assms by (simp add: usize_max_def less_mult_imp_div_less)
  then have "is_in_kernel_space v \<longleftrightarrow> v div 2 ^ 48 = 0xffff"
    unfolding is_in_kernel_space_def and_tag by simp
  then show ?thesis using assms by (auto simp: usize_max_def)
qed

lemma ptr_from_phys_add: "p < 2 ^ 48 \<Longrightarrow> ptr_from_phys p = p + 0xffff000000000000"
  by (simp add: ptr_from_phys_def or_tag_add)

lemma virt_from_phys_ptr: "virt_from_phys p = ptr_from_phys p"
  by (simp add: virt_from_phys_def ptr_from_phys_def)

lemma phys_ptr_roundtrip: "p < 2 ^ 48 \<Longrightarrow> phys_from_ptr (ptr_from_phys p) = p"
  using mod_mult_self1 [of p 65535 "2 ^ 48"] by (simp add: ptr_from_phys_add phys_from_ptr_mod)

lemma phys_from_ptr_sub:
  assumes "0xffff000000000000 \<le> a" and "a \<le> usize_max"
  shows "phys_from_ptr a = a - 0xffff000000000000"
proof -
  let ?p = "a - 0xffff000000000000"
  have p: "?p < 2 ^ 48" using assms by (simp add: usize_max_def)
  have "phys_from_ptr (ptr_from_phys ?p) = ?p" using p by (rule phys_ptr_roundtrip)
  with assms p show ?thesis by (simp add: ptr_from_phys_add)
qed

lemma ptr_phys_roundtrip:
  assumes "0xffff000000000000 \<le> a" and "a \<le> usize_max"
  shows "ptr_from_phys (phys_from_ptr a) = a"
  using assms phys_from_ptr_sub [OF assms] by (simp add: ptr_from_phys_add usize_max_def)

section \<open>Properties\<close>

text \<open>Physical pointers of 48 bits and kernel-space pointers convert into each other without
  loss: a physical address becomes an address of kernel space whose physical address it is
  again, by the raw pointer conversion and by the checked conversion from a virtual pointer,
  and a kernel-space pointer survives the trip through its physical address.\<close>

lemma kernel_pointer_roundtrip:
  "(p < 2 ^ 48 \<longrightarrow>
      is_in_kernel_space (ptr_from_phys p) \<and> phys_from_ptr (ptr_from_phys p) = p \<and>
      phys_try_from_virt (virt_from_phys p) = Some (Inr p)) \<and>
   (a \<le> usize_max \<and> is_in_kernel_space a \<longrightarrow>
      ptr_from_phys (phys_from_ptr a) = a \<and> ptr_try_from_virt a = Inr a)"
proof (intro conjI impI)
  assume p: "p < 2 ^ 48"
  then show k: "is_in_kernel_space (ptr_from_phys p)"
    by (simp add: ptr_from_phys_add in_kernel_space_iff usize_max_def)
  show r: "phys_from_ptr (ptr_from_phys p) = p" using p by (rule phys_ptr_roundtrip)
  show "phys_try_from_virt (virt_from_phys p) = Some (Inr p)"
    using k r p
    by (simp add: phys_try_from_virt_def virt_from_phys_ptr phys_from_usize_def phys_from_ptr_def)
next
  assume a: "a \<le> usize_max \<and> is_in_kernel_space a"
  then show "ptr_from_phys (phys_from_ptr a) = a"
    using in_kernel_space_iff ptr_phys_roundtrip by blast
  from a show "ptr_try_from_virt a = Inr a" by (simp add: ptr_try_from_virt_def)
qed

lemma kernel_pointer_roundtrip_example:
  "is_in_kernel_space (ptr_from_phys 0x40001000) \<and>
   phys_from_ptr (ptr_from_phys 0x40001000) = 0x40001000 \<and>
   ptr_from_phys (phys_from_ptr 0xffff000040001000) = 0xffff000040001000"
proof -
  have "is_in_kernel_space 0xffff000040001000"
    by (simp add: in_kernel_space_iff usize_max_def)
  then show ?thesis
    using kernel_pointer_roundtrip [of "0x40001000" "0xffff000040001000"]
    by (simp add: usize_max_def)
qed

end
