(* ===== verification/Threads.thy ===== *)
theory Threads
  imports Handle_Map Addresses
begin

text \<open>
  Threads: \<^verbatim>\<open>kernel_core/src/process/thread/mod.rs\<close>, and the field accessors that the
  \<^verbatim>\<open>bitfield!\<close> declarations of the kernel make.  A field is the pair of its highest and lowest
  bit.  Thread objects live at the address of their \<^verbatim>\<open>Arc\<close>; the memory for a new object comes
  from the global allocator, which is the parameter \<open>arc_new\<close>: an address that is not in use.
  A \<^verbatim>\<open>Mutex\<close> is the value it protects with a flag that says whether it is locked.
\<close>

section \<open>Bit fields\<close>

type_synonym field = "nat \<times> nat"

definition field_get :: "field \<Rightarrow> u64 \<Rightarrow> u64" where
  "field_get f x = take_bit (fst f + 1 - snd f) (drop_bit (snd f) x)"

definition field_set :: "field \<Rightarrow> u64 \<Rightarrow> u64 \<Rightarrow> u64" where
  "field_set f v x =
     (x AND NOT (push_bit (snd f) (mask (fst f + 1 - snd f)))) OR
     push_bit (snd f) (take_bit (fst f + 1 - snd f) v)"

definition field_ok :: "field \<Rightarrow> bool" where
  "field_ok f \<longleftrightarrow> snd f \<le> fst f \<and> fst f < 64"

definition field_disjoint :: "field \<Rightarrow> field \<Rightarrow> bool" where
  "field_disjoint f g \<longleftrightarrow> fst f < snd g \<or> fst g < snd f"

lemma bit_field_set:
  assumes "field_ok f"
  shows "bit (field_set f v x) i \<longleftrightarrow> (if snd f \<le> i \<and> i \<le> fst f then bit v (i - snd f) else bit x i)"
proof (cases "i < 64")
  case True
  then show ?thesis using assms
    by (auto simp: field_set_def field_ok_def bit_simps not_le)
next
  case False
  then have "\<not> bit (field_set f v x) i" "\<not> bit x i" using bit_imp_le_length [of _ i] by fastforce+
  then show ?thesis using False assms by (auto simp: field_ok_def)
qed

lemma bit_field_get:
  assumes "field_ok f"
  shows "bit (field_get f x) i \<longleftrightarrow> i \<le> fst f - snd f \<and> bit x (i + snd f)"
  using assms by (auto simp: field_get_def field_ok_def bit_simps add.commute)

lemma field_get_set:
  assumes "field_ok f"
  shows "field_get f (field_set f v x) = take_bit (fst f + 1 - snd f) v"
proof (rule bit_word_eqI)
  fix i assume "i < LENGTH(64)"
  then show "bit (field_get f (field_set f v x)) i \<longleftrightarrow> bit (take_bit (fst f + 1 - snd f) v) i"
    using assms by (auto simp: bit_field_get bit_field_set bit_take_bit_iff field_ok_def)
qed

lemma field_get_other:
  assumes "field_ok f" and "field_ok g" and "field_disjoint f g"
  shows "field_get g (field_set f v x) = field_get g x"
proof (rule bit_word_eqI)
  fix i assume "i < LENGTH(64)"
  then show "bit (field_get g (field_set f v x)) i \<longleftrightarrow> bit (field_get g x) i"
    using assms by (auto simp: bit_field_get bit_field_set field_ok_def field_disjoint_def)
qed

section \<open>Processor state\<close>

datatype SpsrField = SpsrN | SpsrZ | SpsrC | SpsrV | SpsrTco | SpsrDit | SpsrUao | SpsrPan | SpsrSs | SpsrIl
  | SpsrAllint | SpsrSsbs | SpsrBtype | SpsrD | SpsrA | SpsrI | SpsrF | SpsrEl | SpsrSp

fun SavedProgramStatus :: "SpsrField \<Rightarrow> field" where
  "SavedProgramStatus SpsrN = (31, 31)"
| "SavedProgramStatus SpsrZ = (30, 30)"
| "SavedProgramStatus SpsrC = (29, 29)"
| "SavedProgramStatus SpsrV = (28, 28)"
| "SavedProgramStatus SpsrTco = (25, 25)"
| "SavedProgramStatus SpsrDit = (24, 24)"
| "SavedProgramStatus SpsrUao = (23, 23)"
| "SavedProgramStatus SpsrPan = (22, 22)"
| "SavedProgramStatus SpsrSs = (21, 21)"
| "SavedProgramStatus SpsrIl = (20, 20)"
| "SavedProgramStatus SpsrAllint = (13, 13)"
| "SavedProgramStatus SpsrSsbs = (12, 12)"
| "SavedProgramStatus SpsrBtype = (11, 10)"
| "SavedProgramStatus SpsrD = (9, 9)"
| "SavedProgramStatus SpsrA = (8, 8)"
| "SavedProgramStatus SpsrI = (7, 7)"
| "SavedProgramStatus SpsrF = (6, 6)"
| "SavedProgramStatus SpsrEl = (3, 2)"
| "SavedProgramStatus SpsrSp = (0, 0)"

definition initial_for_el0 :: u64 where
  "initial_for_el0 = 0"

definition initial_for_el1 :: u64 where
  "initial_for_el1 = field_set (SavedProgramStatus SpsrEl) 1 0"

text \<open>The \<^verbatim>\<open>Registers\<close> of a thread: the values of \<^verbatim>\<open>x0\<close> to \<^verbatim>\<open>x30\<close>.\<close>

type_synonym xregs = "usize list"

definition registers_default :: xregs where
  "registers_default = replicate 31 0"

record ProcessorState =
  spsr :: u64
  program_counter :: vaddr
  stack_pointer :: vaddr
  ps_registers :: xregs

definition new_for_idle_thread :: ProcessorState where
  "new_for_idle_thread = \<lparr> spsr = 0, program_counter = 0, stack_pointer = 0, ps_registers = registers_default \<rparr>"

section \<open>Thread objects\<close>

datatype State = Running | Blocked

definition state_from_u8 :: "nat \<Rightarrow> State panics" where
  "state_from_u8 v = (if v = 0 then Some Running else if v = 1 then Some Blocked else panic)"

definition u8_from_state :: "State \<Rightarrow> nat" where
  "u8_from_state s = (case s of Running \<Rightarrow> 0 | Blocked \<Rightarrow> 1)"

definition ThreadProperties_state :: field where
  "ThreadProperties_state = (8, 0)"

definition thread_properties_new :: "State \<Rightarrow> u64" where
  "thread_properties_new s = field_set ThreadProperties_state (word_of_nat (u8_from_state s)) 0"

definition MAX_THREAD_ID :: nat where
  "MAX_THREAD_ID = 0xffff"

record Thread =
  thread_id :: nat
  thread_properties :: u64
  processor_state :: ProcessorState
  state_locked :: bool

text \<open>The accessor of a \<^verbatim>\<open>u8\<close> field truncates the 9 bits of the field.\<close>

definition thread_state :: "Thread \<Rightarrow> State panics" where
  "thread_state t = state_from_u8 (unat (field_get ThreadProperties_state (thread_properties t)) mod 2 ^ 8)"

type_synonym threads = "arc \<Rightarrow> Thread"

definition thread_new ::
  "(arcs \<Rightarrow> arc) \<Rightarrow> HandleMap \<Rightarrow> State \<Rightarrow> ProcessorState \<Rightarrow> arcs \<Rightarrow> threads \<Rightarrow> (arc \<times> HandleMap \<times> arcs \<times> threads) panics" where
  "thread_new arc_new store initial_state initial_processor_state c heap = do {
     (r, store', c') \<leftarrow> insert_self_referential store (\<lambda>id c. (arc_new c, c(arc_new c := 1))) c;
     (id, p) \<leftarrow> r;
     Some (p, store', c', heap(p := \<lparr> thread_id = id, thread_properties = thread_properties_new initial_state,
       processor_state = initial_processor_state, state_locked = False \<rparr>))
   }"

lemma spsr_fields_ok [simp]: "field_ok (SavedProgramStatus f)"
  by (cases f) (simp_all add: field_ok_def)

text \<open>the fields of the saved program status do not overlap: setting one of them makes its
  accessor return the value, cut to the width of the field, and changes no other field.\<close>

lemma spsr_fields_independent:
  "field_get (SavedProgramStatus g) (field_set (SavedProgramStatus f) v x) =
     (if f = g then take_bit (fst (SavedProgramStatus f) + 1 - snd (SavedProgramStatus f)) v
      else field_get (SavedProgramStatus g) x)"
proof (cases "f = g")
  case False
  then have "field_disjoint (SavedProgramStatus f) (SavedProgramStatus g)"
    by (cases f; cases g) (simp_all add: field_disjoint_def)
  then show ?thesis using False field_get_other by simp
qed (simp add: field_get_set)

lemma thread_state_new:
  "thread_properties t = thread_properties_new s \<Longrightarrow> thread_state t = Some s"
proof -
  assume "thread_properties t = thread_properties_new s"
  moreover have "field_ok ThreadProperties_state" by (simp add: field_ok_def ThreadProperties_state_def)
  ultimately have "field_get ThreadProperties_state (thread_properties t) =
      take_bit 9 (word_of_nat (u8_from_state s))"
    using field_get_set [of ThreadProperties_state] by (simp add: thread_properties_new_def ThreadProperties_state_def)
  then show ?thesis
    by (cases s) (simp_all add: thread_state_def u8_from_state_def state_from_u8_def)
qed

text \<open>\<^verbatim>\<open>Thread::new\<close> with a table that has a free id makes a thread whose id is the least free one,
  registers it under that id and returns it in the given state and processor state.  The object
  has two references, that of the table and that of the caller, and no other object changes.
  With no id left it panics.\<close>

lemma thread_new_spec:
  assumes "hm_inv store" and "H = dom (hm_map store)"
    and "mh = max_handle (hm_allocator store)"
  shows "if H = {..<mh} then thread_new arc_new store st ps c heap = None
    else \<exists>store' c' heap'. thread_new arc_new store st ps c heap = Some (arc_new c, store', c', heap') \<and>
      hm_inv store' \<and> max_handle (hm_allocator store') = mh \<and> hm_map store' = (hm_map store)((LEAST h. h \<notin> H) \<mapsto> arc_new c) \<and>
      thread_id (heap' (arc_new c)) = (LEAST h. h \<notin> H) \<and> thread_state (heap' (arc_new c)) = Some st \<and>
      processor_state (heap' (arc_new c)) = ps \<and> \<not> state_locked (heap' (arc_new c)) \<and>
      (\<forall>p. p \<noteq> arc_new c \<longrightarrow> heap' p = heap p) \<and> c' = c(arc_new c := 2)"
proof -
  let ?a = "hm_allocator store" and ?mk = "\<lambda>id c. (arc_new c, c(arc_new c := 1))"
  have a: "handles_inv ?a" and H: "H = handle_set (bits ?a)" using assms(1,2) by (simp_all add: hm_inv_def)
  note spec = insert_self_referential_spec [OF assms(1), of ?mk c] and nx = next_handle_spec [OF a]
  show ?thesis
  proof (cases "next_handle ?a")
    case (Some ra)
    obtain r a' where ra: "ra = (r, a')" by fastforce
    show ?thesis
    proof (cases r)
      case None
      then show ?thesis using spec nx Some ra H assms(3) by (simp add: thread_new_def)
    next
      case (Some h)
      note f = nx [unfolded \<open>next_handle ?a = Some ra\<close> ra Some, simplified]
      have l: "(LEAST h. h \<notin> H) = h" by (rule Least_equality) (use f H in \<open>auto simp: not_less [symmetric]\<close>)
      have ne: "H \<noteq> {..<mh}" using f H assms(3) by auto
      obtain store' where i: "insert_self_referential store ?mk c = Some (Some (h, arc_new c), store', c(arc_new c := 2))"
        "hm_inv store'" "hm_map store' = (hm_map store)(h \<mapsto> arc_new c)" "hm_allocator store' = a'"
        using spec \<open>next_handle ?a = Some ra\<close> ra Some by (auto simp: counted_up_def numeral_2_eq_2)
      let ?t = "\<lparr> thread_id = h, thread_properties = thread_properties_new st, processor_state = ps, state_locked = False \<rparr>"
      have "thread_new arc_new store st ps c heap = Some (arc_new c, store', c(arc_new c := 2), heap(arc_new c := ?t))"
        using i(1) by (simp add: thread_new_def)
      moreover have "thread_state ?t = Some st" by (rule thread_state_new) simp
      ultimately show ?thesis using ne i(2-4) l f assms(3) by simp
    qed
  qed (use nx in simp)
qed

lemma thread_new_example:
  "\<forall>heap. \<exists>store' heap'. thread_new (\<lambda>_. 48) map200 Blocked new_for_idle_thread (\<lambda>_. 0) heap =
       Some (48, store', (\<lambda>_. 0)(48 := 2), heap') \<and>
     hm_map store' = [0 \<mapsto> 16, 1 \<mapsto> 48] \<and> thread_id (heap' 48) = 1 \<and> thread_state (heap' 48) = Some Blocked"
proof
  fix heap :: threads
  show "\<exists>store' heap'. thread_new (\<lambda>_. 48) map200 Blocked new_for_idle_thread (\<lambda>_. 0) heap =
       Some (48, store', (\<lambda>_. 0)(48 := 2), heap') \<and>
     hm_map store' = [0 \<mapsto> 16, 1 \<mapsto> 48] \<and> thread_id (heap' 48) = 1 \<and> thread_state (heap' 48) = Some Blocked"
    using thread_new_spec [OF map200_inv refl refl, of "\<lambda>_. 48" Blocked new_for_idle_thread "\<lambda>_. 0" heap,
        unfolded map200_free(1) map200_free(3) if_not_P [OF map200_free(2)]] by (auto simp: map200_map)
qed

end
