(* ===== verification/Scheduler.thy ===== *)
theory Scheduler
  imports Threads "HOL-Library.Multiset"
begin

text \<open>
  The round-robin scheduler of \<^verbatim>\<open>kernel_core/src/process/thread/scheduler.rs\<close>.  The queue type
  \<^verbatim>\<open>crossbeam::queue::SegQueue\<close> is a parameter: its operations are the record \<open>SegQueue\<close>, and
  \<open>fifo\<close> says what its documentation promises.  The maps from CPU ids are partial functions, the
  current CPU (\<^verbatim>\<open>C::current_cpu()\<close>) is an argument.  A queue is only used by its own core, with
  interrupts masked, so the operations run one at a time.
\<close>

section \<open>Model\<close>

type_synonym cpu = usize

record 'q SegQueue =
  sq_new :: 'q
  sq_len :: "'q \<Rightarrow> nat"
  sq_pop :: "'q \<Rightarrow> arc option \<times> 'q"
  sq_push :: "'q \<Rightarrow> arc \<Rightarrow> 'q"

record 'q RoundRobinScheduler =
  queues :: "cpu \<rightharpoonup> 'q"
  current_threads :: "cpu \<rightharpoonup> ArcSwap"

text \<open>Each idle thread is cloned into its cell.\<close>

fun clone_all :: "(cpu \<times> arc) list \<Rightarrow> arcs \<Rightarrow> arcs panics" where
  "clone_all [] c = Some c"
| "clone_all ((_, t) # cpus) c = do { c' \<leftarrow> increment_strong_count t c; clone_all cpus c' }"

definition scheduler_new :: "'q SegQueue \<Rightarrow> (cpu \<times> arc) list \<Rightarrow> arcs \<Rightarrow> ('q RoundRobinScheduler \<times> arcs) panics" where
  "scheduler_new sq cpus c = do {
     c' \<leftarrow> clone_all cpus c;
     Some (\<lparr> queues = map_of (rev (map (\<lambda>(i, _). (i, sq_new sq)) cpus)),
             current_threads = map_of (rev (map (\<lambda>(i, t). (i, arc_swap_new t)) cpus)) \<rparr>, c')
   }"

definition current_thread :: "cpu \<Rightarrow> 'q RoundRobinScheduler \<Rightarrow> arcs \<Rightarrow> (arc \<times> arcs) panics" where
  "current_thread cpu_id s c = do { cell \<leftarrow> current_threads s cpu_id; arc_swap_load cell c }"

text \<open>The loop of \<^verbatim>\<open>next_time_slice\<close>, for the rounds that are left.\<close>

fun pop_running :: "'q SegQueue \<Rightarrow> (arc \<Rightarrow> State panics) \<Rightarrow> nat \<Rightarrow> 'q \<Rightarrow> (arc option \<times> 'q) panics" where
  "pop_running sq state_of 0 queue = Some (None, queue)"
| "pop_running sq state_of (Suc n) queue =
     (case sq_pop sq queue of
        (Some t, queue) \<Rightarrow> do {
          st \<leftarrow> state_of t;
          case st of
            Running \<Rightarrow> Some (Some t, queue)
          | Blocked \<Rightarrow> pop_running sq state_of n (sq_push sq queue t)
        }
      | (None, queue) \<Rightarrow> Some (None, queue))"

definition next_time_slice :: "'q SegQueue \<Rightarrow> (arc \<Rightarrow> State panics) \<Rightarrow> cpu \<Rightarrow> 'q RoundRobinScheduler \<Rightarrow>
    'q RoundRobinScheduler panics" where
  "next_time_slice sq state_of cpu_id s = do {
     queue \<leftarrow> queues s cpu_id;
     (next_thread, queue) \<leftarrow> pop_running sq state_of (sq_len sq queue) queue;
     case next_thread of
       Some next_thread \<Rightarrow> do {
         cell \<leftarrow> current_threads s cpu_id;
         let (last_thread, cell) = arc_swap_swap cell next_thread;
         Some (s\<lparr>queues := (queues s)(cpu_id \<mapsto> sq_push sq queue last_thread),
                  current_threads := (current_threads s)(cpu_id \<mapsto> cell)\<rparr>)
       }
     | None \<Rightarrow> Some (s\<lparr>queues := (queues s)(cpu_id \<mapsto> queue)\<rparr>)
   }"

section \<open>Queues\<close>

text \<open>The documented behaviour of the queue: \<open>ql\<close> is the sequence of its elements.\<close>

definition fifo :: "'q SegQueue \<Rightarrow> ('q \<Rightarrow> arc list) \<Rightarrow> bool" where
  "fifo sq ql \<longleftrightarrow> ql (sq_new sq) = [] \<and> (\<forall>q. sq_len sq q = length (ql q)) \<and>
     (\<forall>q t. ql (sq_push sq q t) = ql q @ [t]) \<and>
     (\<forall>q. fst (sq_pop sq q) = (case ql q of [] \<Rightarrow> None | t # _ \<Rightarrow> Some t) \<and> ql (snd (sq_pop sq q)) = tl (ql q))"

definition list_queue :: "arc list SegQueue" where
  "list_queue = \<lparr> sq_new = [], sq_len = length,
     sq_pop = (\<lambda>q. case q of [] \<Rightarrow> (None, []) | t # q \<Rightarrow> (Some t, q)), sq_push = (\<lambda>q t. q @ [t]) \<rparr>"

lemma list_queue_fifo: "fifo list_queue id"
  by (simp add: fifo_def list_queue_def split: list.splits)

lemma fifo_pop:
  assumes "fifo sq ql"
  shows "ql q = [] \<Longrightarrow> \<exists>q'. sq_pop sq q = (None, q') \<and> ql q' = []"
    and "ql q = t # ts \<Longrightarrow> \<exists>q'. sq_pop sq q = (Some t, q') \<and> ql q' = ts"
proof -
  have p: "fst (sq_pop sq q) = (case ql q of [] \<Rightarrow> None | t # _ \<Rightarrow> Some t)" "ql (snd (sq_pop sq q)) = tl (ql q)"
    using assms by (simp_all add: fifo_def)
  show "ql q = [] \<Longrightarrow> \<exists>q'. sq_pop sq q = (None, q') \<and> ql q' = []"
    using p by (cases "sq_pop sq q") simp
  show "ql q = t # ts \<Longrightarrow> \<exists>q'. sq_pop sq q = (Some t, q') \<and> ql q' = ts"
    using p by (cases "sq_pop sq q") simp
qed

section \<open>The time slice on lists\<close>

text \<open>The abstract scheduler of one core: the current thread and the waiting threads in order.
  The first runnable one is next; the blocked ones before it go to the back, and then the last
  one that ran.\<close>

definition slice_spec :: "(arc \<Rightarrow> bool) \<Rightarrow> arc \<times> arc list \<Rightarrow> arc \<times> arc list" where
  "slice_spec runnable s = (case s of (cur, ts) \<Rightarrow>
     (case dropWhile (\<lambda>t. \<not> runnable t) ts of
        [] \<Rightarrow> (cur, ts)
      | t # rest \<Rightarrow> (t, rest @ takeWhile (\<lambda>t. \<not> runnable t) ts @ [cur])))"

lemma pop_running_spec:
  assumes "fifo sq ql" and "\<forall>t \<in> set (ql q). state_of t = Some (if runnable t then Running else Blocked)"
    and "n \<le> length (ql q)"
  shows "\<exists>q'. pop_running sq state_of n q =
      Some (case dropWhile (\<lambda>t. \<not> runnable t) (take n (ql q)) of [] \<Rightarrow> None | t # _ \<Rightarrow> Some t, q') \<and>
    ql q' = (case dropWhile (\<lambda>t. \<not> runnable t) (take n (ql q)) of
        [] \<Rightarrow> drop n (ql q) @ take n (ql q)
      | t # rest \<Rightarrow> rest @ drop n (ql q) @ takeWhile (\<lambda>t. \<not> runnable t) (take n (ql q)))"
  using assms(2,3)
proof (induction n arbitrary: q)
  case (Suc n)
  obtain t ts where q: "ql q = t # ts" using Suc.prems(2) by (cases "ql q") auto
  obtain q1 where q1: "sq_pop sq q = (Some t, q1)" "ql q1 = ts" using fifo_pop(2) [OF assms(1) q] by blast
  show ?case
  proof (cases "runnable t")
    case True
    then have "state_of t = Some Running" using Suc.prems(1) q by simp
    then show ?thesis using q q1 True by simp
  next
    case False
    then have s: "state_of t = Some Blocked" using Suc.prems(1) q by simp
    let ?q = "sq_push sq q1 t"
    have ql: "ql ?q = ts @ [t]" using assms(1) q1(2) by (simp add: fifo_def)
    have n: "n \<le> length ts" using Suc.prems(2) q by simp
    have "\<forall>t \<in> set (ql ?q). state_of t = Some (if runnable t then Running else Blocked)" using Suc.prems(1) q ql by auto
    moreover have "n \<le> length (ql ?q)" using n ql by simp
    ultimately obtain q' where q': "pop_running sq state_of n ?q =
        Some (case dropWhile (\<lambda>t. \<not> runnable t) (take n (ql ?q)) of [] \<Rightarrow> None | t # _ \<Rightarrow> Some t, q')"
      "ql q' = (case dropWhile (\<lambda>t. \<not> runnable t) (take n (ql ?q)) of
          [] \<Rightarrow> drop n (ql ?q) @ take n (ql ?q)
        | t # rest \<Rightarrow> rest @ drop n (ql ?q) @ takeWhile (\<lambda>t. \<not> runnable t) (take n (ql ?q)))"
      using Suc.IH by blast
    have tk: "take n (ql ?q) = take n ts" "drop n (ql ?q) = drop n ts @ [t]" using n ql by simp_all
    have "pop_running sq state_of (Suc n) q = pop_running sq state_of n ?q" using q1(1) s by simp
    then show ?thesis using q' q False unfolding tk
      by (cases "dropWhile (\<lambda>t. \<not> runnable t) (take n ts)") (simp_all del: dropWhile_eq_Nil_conv)
  qed
qed simp

text \<open>The state of one core as the current thread and the queue.\<close>

definition core_state :: "('q \<Rightarrow> arc list) \<Rightarrow> 'q RoundRobinScheduler \<Rightarrow> cpu \<Rightarrow> (arc \<times> arc list) option" where
  "core_state ql s cpu_id =
     (case (current_threads s cpu_id, queues s cpu_id) of (Some cell, Some q) \<Rightarrow> Some (cell_ptr cell, ql q) | _ \<Rightarrow> None)"

lemma core_state_Some:
  "core_state ql s cpu_id = Some (cur, ts) \<longleftrightarrow>
   (\<exists>cell q. current_threads s cpu_id = Some cell \<and> queues s cpu_id = Some q \<and> cell_ptr cell = cur \<and> ql q = ts)"
  by (auto simp: core_state_def split: option.splits)

lemma next_time_slice_spec:
  assumes "fifo sq ql" and "core_state ql s cpu_id = Some (cur, ts)"
    and "\<forall>t \<in> set ts. state_of t = Some (if runnable t then Running else Blocked)"
  shows "\<exists>s'. next_time_slice sq state_of cpu_id s = Some s' \<and>
    core_state ql s' cpu_id = Some (slice_spec runnable (cur, ts)) \<and>
    (\<forall>i. i \<noteq> cpu_id \<longrightarrow> core_state ql s' i = core_state ql s i)"
proof -
  obtain cell q where cq: "current_threads s cpu_id = Some cell" "queues s cpu_id = Some q" "cell_ptr cell = cur" "ql q = ts"
    using assms(2) by (auto simp: core_state_Some)
  have len: "sq_len sq q = length ts" using assms(1) cq(4) by (simp add: fifo_def)
  obtain q' where pr: "pop_running sq state_of (sq_len sq q) q =
      Some (case dropWhile (\<lambda>t. \<not> runnable t) ts of [] \<Rightarrow> None | t # _ \<Rightarrow> Some t, q')"
    and ql: "ql q' = (case dropWhile (\<lambda>t. \<not> runnable t) ts of
        [] \<Rightarrow> ts | t # rest \<Rightarrow> rest @ takeWhile (\<lambda>t. \<not> runnable t) ts)"
    using pop_running_spec [OF assms(1), of q state_of runnable "length ts"] assms(3) cq(4) len
    by (auto cong: list.case_cong)
  show ?thesis
  proof (cases "dropWhile (\<lambda>t. \<not> runnable t) ts")
    case Nil
    let ?s = "s\<lparr>queues := (queues s)(cpu_id \<mapsto> q')\<rparr>"
    have "next_time_slice sq state_of cpu_id s = Some ?s" using cq(2) pr Nil by (simp add: next_time_slice_def)
    then show ?thesis using cq ql Nil by (simp add: core_state_def slice_spec_def del: dropWhile_eq_Nil_conv cong: option.case_cong)
  next
    case (Cons t rest)
    let ?s = "s\<lparr>queues := (queues s)(cpu_id \<mapsto> sq_push sq q' cur),
      current_threads := (current_threads s)(cpu_id \<mapsto> cell\<lparr>cell_ptr := t\<rparr>)\<rparr>"
    have "next_time_slice sq state_of cpu_id s = Some ?s"
      using cq pr Cons by (simp add: next_time_slice_def arc_swap_swap_def)
    moreover have "ql (sq_push sq q' cur) = ql q' @ [cur]" using assms(1) by (simp add: fifo_def)
    ultimately show ?thesis using cq ql Cons
      by (simp add: core_state_def slice_spec_def cong: option.case_cong)
  qed
qed

text \<open>C14: \<^verbatim>\<open>next_time_slice\<close> implements the abstract scheduler on its core and does not touch the other
  cores: the first runnable thread of the queue runs next, the blocked threads before it and
  then the thread that ran last go to the back of the queue; without a runnable thread the
  current one goes on and the queue is as it was.\<close>

theorem next_time_slice_refines:
  assumes "fifo sq ql" and "core_state ql s cpu_id = Some (cur, ts)"
    and "\<forall>t \<in> set ts. state_of t = Some (if runnable t then Running else Blocked)"
  shows "\<exists>s'. next_time_slice sq state_of cpu_id s = Some s' \<and>
    core_state ql s' cpu_id = Some (slice_spec runnable (cur, ts)) \<and>
    (\<forall>i. i \<noteq> cpu_id \<longrightarrow> core_state ql s' i = core_state ql s i)"
  using assms by (rule next_time_slice_spec)

definition sched3 :: "arc list RoundRobinScheduler" where
  "sched3 = \<lparr> queues = [0 \<mapsto> [16, 32, 48]], current_threads = [0 \<mapsto> arc_swap_new 8] \<rparr>"

theorem next_time_slice_refines_witness:
  "\<exists>s'. next_time_slice list_queue (\<lambda>t. Some (if t = 16 then Blocked else Running)) 0 sched3 = Some s' \<and>
     core_state id s' 0 = Some (32, [48, 16, 8])"
  using next_time_slice_refines [OF list_queue_fifo, of sched3 0 8 "[16, 32, 48]"
      "\<lambda>t. Some (if t = 16 then Blocked else Running)" "\<lambda>t. t \<noteq> 16"]
  by (auto simp: core_state_def sched3_def arc_swap_new_def slice_spec_def)

section \<open>No thread is lost and every thread gets its turn\<close>

fun slices :: "'q SegQueue \<Rightarrow> (arc \<Rightarrow> State panics) \<Rightarrow> cpu \<Rightarrow> nat \<Rightarrow> 'q RoundRobinScheduler \<Rightarrow> 'q RoundRobinScheduler panics" where
  "slices sq state_of cpu_id 0 s = Some s"
| "slices sq state_of cpu_id (Suc n) s = do { s' \<leftarrow> next_time_slice sq state_of cpu_id s; slices sq state_of cpu_id n s' }"

lemma slice_spec_mset: "add_mset (fst (slice_spec r s)) (mset (snd (slice_spec r s))) = add_mset (fst s) (mset (snd s))"
proof -
  obtain cur ts where s: "s = (cur, ts)" by fastforce
  show ?thesis
  proof (cases "dropWhile (\<lambda>t. \<not> r t) ts")
    case (Cons t rest)
    have "mset ts = mset (takeWhile (\<lambda>t. \<not> r t) ts) + mset (t # rest)"
      using takeWhile_dropWhile_id [of "\<lambda>t. \<not> r t" ts] Cons by (metis mset_append)
    then show ?thesis using Cons s by (simp add: slice_spec_def)
  qed (simp add: s slice_spec_def del: dropWhile_eq_Nil_conv)
qed

lemma slices_spec:
  assumes "fifo sq ql" and "core_state ql s cpu_id = Some cs"
    and "\<forall>t \<in> insert (fst cs) (set (snd cs)). state_of t = Some (if runnable t then Running else Blocked)"
  shows "\<exists>s'. slices sq state_of cpu_id n s = Some s' \<and> core_state ql s' cpu_id = Some ((slice_spec runnable ^^ n) cs)"
  using assms(2,3)
proof (induction n arbitrary: s cs)
  case (Suc n)
  obtain cur ts where cs: "cs = (cur, ts)" by fastforce
  obtain s1 where s1: "next_time_slice sq state_of cpu_id s = Some s1" "core_state ql s1 cpu_id = Some (slice_spec runnable cs)"
    using next_time_slice_spec [OF assms(1), of s cpu_id cur ts state_of runnable] Suc.prems cs by auto
  have "insert (fst (slice_spec runnable cs)) (set (snd (slice_spec runnable cs))) = insert (fst cs) (set (snd cs))"
    using slice_spec_mset [of runnable cs] by (metis set_mset_add_mset_insert set_mset_mset)
  then show ?case using Suc.IH [OF s1(2)] Suc.prems(2) s1(1) by (simp add: funpow_Suc_right del: funpow.simps)
qed simp

text \<open>No thread is lost and none is duplicated: after any number of time slices the current
  thread and the queue of the core hold the same threads as before.\<close>

lemma threads_conserved:
  assumes "fifo sq ql" and "core_state ql s cpu_id = Some (cur, ts)"
    and "\<forall>t \<in> insert cur (set ts). state_of t = Some (if runnable t then Running else Blocked)"
  shows "\<exists>s' cur' ts'. slices sq state_of cpu_id n s = Some s' \<and> core_state ql s' cpu_id = Some (cur', ts') \<and>
    add_mset cur' (mset ts') = add_mset cur (mset ts)"
proof -
  obtain s' where s': "slices sq state_of cpu_id n s = Some s'"
    "core_state ql s' cpu_id = Some ((slice_spec runnable ^^ n) (cur, ts))"
    using slices_spec [OF assms(1,2), of state_of runnable n] assms(3) by auto
  have "add_mset (fst ((slice_spec runnable ^^ n) (cur, ts))) (mset (snd ((slice_spec runnable ^^ n) (cur, ts)))) =
      add_mset cur (mset ts)"
    by (induction n) (simp_all add: slice_spec_mset)
  then show ?thesis using s' by (metis prod.collapse)
qed

text \<open>The abstract scheduler moves a runnable thread at least one place forward.\<close>

lemma slice_spec_forward:
  assumes "p < length ts" and "r (ts ! p)"
  shows "fst (slice_spec r (cur, ts)) = ts ! p \<or>
    (\<exists>p' < p. p' < length (snd (slice_spec r (cur, ts))) \<and> snd (slice_spec r (cur, ts)) ! p' = ts ! p)"
proof -
  let ?b = "takeWhile (\<lambda>t. \<not> r t) ts"
  have "dropWhile (\<lambda>t. \<not> r t) ts \<noteq> []" using assms(1,2) by (auto simp: dropWhile_eq_Nil_conv)
  then obtain t rest where d: "dropWhile (\<lambda>t. \<not> r t) ts = t # rest" by (cases "dropWhile (\<lambda>t. \<not> r t) ts") auto
  have ts: "ts = ?b @ t # rest" using takeWhile_dropWhile_id [of "\<lambda>t. \<not> r t" ts] d by simp
  have sp: "slice_spec r (cur, ts) = (t, rest @ ?b @ [cur])" using d by (simp add: slice_spec_def)
  have p: "length ?b \<le> p"
  proof (rule ccontr)
    assume "\<not> length ?b \<le> p"
    then have "ts ! p \<in> set ?b" by (metis not_le nth_mem takeWhile_nth)
    then show False using assms(2) by (auto dest: set_takeWhileD)
  qed
  show ?thesis
  proof (cases "p = length ?b")
    case True
    then have "ts ! p = t" using ts by (metis nth_append_length)
    then show ?thesis using sp by simp
  next
    case False
    let ?q = "p - length ?b - 1"
    have l: "length ts = length ?b + Suc (length rest)" using arg_cong [OF ts, of length] by simp
    have q: "?q < length rest" using p False assms(1) l by linarith
    have "ts ! p = (?b @ t # rest) ! p" using ts by simp
    also have "\<dots> = (t # rest) ! (p - length ?b)" using p by (simp add: nth_append)
    also have "\<dots> = rest ! ?q" using p False by (simp add: nth_Cons')
    finally have "snd (slice_spec r (cur, ts)) ! ?q = ts ! p" using sp q by (simp add: nth_append)
    moreover have "?q < p" using p False by linarith
    moreover have "?q < length (snd (slice_spec r (cur, ts)))" using sp q by simp
    ultimately show ?thesis by blast
  qed
qed

lemma slices_reach:
  assumes "p < length ts" and "r (ts ! p)"
  shows "\<exists>n \<le> Suc p. 0 < n \<and> fst ((slice_spec r ^^ n) (cur, ts)) = ts ! p"
  using assms
proof (induction p arbitrary: cur ts rule: less_induct)
  case (less p)
  obtain c1 ts1 where s1: "slice_spec r (cur, ts) = (c1, ts1)" by fastforce
  have st: "(slice_spec r ^^ Suc n) (cur, ts) = (slice_spec r ^^ n) (c1, ts1)" for n
    using s1 by (simp add: funpow_Suc_right del: funpow.simps)
  from slice_spec_forward [of p ts r cur, OF less.prems] show ?case
  proof (elim disjE exE conjE)
    assume "fst (slice_spec r (cur, ts)) = ts ! p"
    then have "fst ((slice_spec r ^^ Suc 0) (cur, ts)) = ts ! p" by simp
    then show ?thesis by (intro exI [of _ "Suc 0"]) simp
  next
    fix p' assume p': "p' < p" "p' < length (snd (slice_spec r (cur, ts)))" "snd (slice_spec r (cur, ts)) ! p' = ts ! p"
    then have "r (ts1 ! p')" "p' < length ts1" "ts1 ! p' = ts ! p" using s1 less.prems(2) by auto
    then obtain n where "n \<le> Suc p'" "fst ((slice_spec r ^^ n) (c1, ts1)) = ts ! p" using less.IH [OF p'(1)] by metis
    then show ?thesis using st [of n] p'(1) by (intro exI [of _ "Suc n"]) simp
  qed
qed

text \<open>C20: round robin is fair: while the states of the threads do not change, a runnable thread that
  waits at position \<open>p\<close> of the queue is the current thread after at most \<open>p + 1\<close> time slices.\<close>

theorem round_robin_fair:
  assumes "fifo sq ql" and "core_state ql s cpu_id = Some (cur, ts)"
    and "\<forall>t \<in> insert cur (set ts). state_of t = Some (if runnable t then Running else Blocked)"
    and "p < length ts" and "runnable (ts ! p)"
  shows "\<exists>n s' ts'. 0 < n \<and> n \<le> p + 1 \<and> slices sq state_of cpu_id n s = Some s' \<and>
    core_state ql s' cpu_id = Some (ts ! p, ts')"
proof -
  obtain n where n: "n \<le> Suc p" "0 < n" "fst ((slice_spec runnable ^^ n) (cur, ts)) = ts ! p"
    using slices_reach [of p ts runnable cur] assms(4,5) by blast
  obtain s' where "slices sq state_of cpu_id n s = Some s'"
    "core_state ql s' cpu_id = Some ((slice_spec runnable ^^ n) (cur, ts))"
    using slices_spec [OF assms(1,2), of state_of runnable n] assms(3) by auto
  then show ?thesis using n by (metis Suc_eq_plus1 prod.collapse)
qed

lemma sched3_state: "core_state id sched3 0 = Some (8, [16, 32, 48])"
  by (simp add: core_state_def sched3_def arc_swap_new_def)

lemma threads_conserved_example:
  "\<exists>s' cur' ts'. slices list_queue (\<lambda>t. Some (if t = 16 then Blocked else Running)) 0 5 sched3 = Some s' \<and>
     core_state id s' 0 = Some (cur', ts') \<and> add_mset cur' (mset ts') = {#8, 16, 32, 48#}"
  using threads_conserved [OF list_queue_fifo sched3_state, of "\<lambda>t. Some (if t = 16 then Blocked else Running)" "\<lambda>t. t \<noteq> 16" 5]
  by simp

theorem round_robin_fair_witness:
  "\<exists>n s' ts'. 0 < n \<and> n \<le> 3 \<and> slices list_queue (\<lambda>t. Some (if t = 16 then Blocked else Running)) 0 n sched3 = Some s' \<and>
     core_state id s' 0 = Some (48, ts')"
  using round_robin_fair [OF list_queue_fifo sched3_state, of "\<lambda>t. Some (if t = 16 then Blocked else Running)" "\<lambda>t. t \<noteq> 16" 2]
  by simp

end
