(* ===== verification/Fdt.thy ===== *)
theory Fdt
  imports Kernel_Prelude
begin

text \<open>
  The flattened device tree format: \<^verbatim>\<open>platform/device_tree/fdt.rs\<close> (header and token types)
  and the iterators of \<^verbatim>\<open>platform/device_tree/iter.rs\<close> that read raw bytes.  A byte slice is a
  list of bytes; taking a sub-slice out of range and reading an integer from too short a slice
  panic.  An iterator is its state, and \<^verbatim>\<open>next\<close> returns the item with the new state.  The blob
  is shorter than \<open>2 ^ 63\<close> bytes and all lengths in it are 32-bit numbers, so no offset overflows
  a \<^verbatim>\<open>usize\<close>.
\<close>

section \<open>Bytes\<close>

type_synonym bytes = string

definition slice_from :: "bytes \<Rightarrow> usize \<Rightarrow> bytes panics" where
  "slice_from xs a = (if a \<le> length xs then Some (drop a xs) else panic)"

definition slice :: "bytes \<Rightarrow> usize \<Rightarrow> usize \<Rightarrow> bytes panics" where
  "slice xs a b = (if a \<le> b \<and> b \<le> length xs then Some (take (b - a) (drop a xs)) else panic)"

definition be_value :: "bytes \<Rightarrow> nat" where
  "be_value bs = foldl (\<lambda>v b. v * 256 + of_char b) 0 bs"

text \<open>The byteorder crate, which the kernel calls as \<^verbatim>\<open>BigEndian::read_u32\<close> and
  \<^verbatim>\<open>BigEndian::read_u64\<close>, is a parameter of the model.  What its documentation says of the two
  functions is \<open>big_endian\<close>: they read an unsigned big-endian integer of four or eight bytes and panic
  when the slice is shorter.\<close>

record ByteOrder =
  be_u32 :: "bytes \<Rightarrow> nat panics"
  be_u64 :: "bytes \<Rightarrow> nat panics"

definition read_u32 :: "bytes \<Rightarrow> nat panics" where
  "read_u32 bs = (if 4 \<le> length bs then Some (be_value (take 4 bs)) else panic)"

definition read_u64 :: "bytes \<Rightarrow> nat panics" where
  "read_u64 bs = (if 8 \<le> length bs then Some (be_value (take 8 bs)) else panic)"

definition big_endian :: "ByteOrder \<Rightarrow> bool" where
  "big_endian bo \<longleftrightarrow> (\<forall>bs. be_u32 bo bs = read_u32 bs \<and> be_u64 bo bs = read_u64 bs)"

definition BigEndian :: ByteOrder where
  "BigEndian = \<lparr> be_u32 = read_u32, be_u64 = read_u64 \<rparr>"

lemma BigEndian_sel [simp]: "be_u32 BigEndian = read_u32" "be_u64 BigEndian = read_u64"
  by (simp_all add: BigEndian_def)

lemma big_endian_eq: "big_endian bo \<longleftrightarrow> bo = BigEndian"
  by (cases bo) (auto simp: big_endian_def BigEndian_def)

lemma BigEndian_reads: "big_endian BigEndian"
  by (simp add: big_endian_eq)

abbreviation nul :: char where
  "nul \<equiv> CHR 0x00"

text \<open>The loops \<^verbatim>\<open>while slice.get(end).is_some_and(|b| *b != 0)\<close>.\<close>

definition scan_nul :: "bytes \<Rightarrow> usize \<Rightarrow> usize" where
  "scan_nul xs start = start + length (takeWhile (\<lambda>b. b \<noteq> nul) (drop start xs))"

text \<open>\<^verbatim>\<open>CStr::from_bytes_until_nul\<close>, without the terminator.\<close>

definition from_bytes_until_nul :: "bytes \<Rightarrow> bytes option" where
  "from_bytes_until_nul bs = (if nul \<in> set bs then Some (takeWhile (\<lambda>b. b \<noteq> nul) bs) else None)"

section \<open>Header and tokens\<close>

datatype TokenType = BeginNode | EndNodeType | Prop | Nop | End | Unknown nat

definition token_type_from :: "nat \<Rightarrow> TokenType" where
  "token_type_from v =
     (if v = 0x01 then BeginNode else if v = 0x02 then EndNodeType else if v = 0x03 then Prop
      else if v = 0x04 then Nop else if v = 0x09 then End else Unknown v)"

record BlobHeader =
  buf :: bytes

definition HEADER_SIZE :: usize where
  "HEADER_SIZE = 10 * 4"

definition HEADER_EXPECTED_MAGIC :: nat where
  "HEADER_EXPECTED_MAGIC = 0xd00dfeed"

definition header_field :: "ByteOrder \<Rightarrow> usize \<Rightarrow> BlobHeader \<Rightarrow> nat panics" where
  "header_field bo off h = do { bs \<leftarrow> slice_from (buf h) off; be_u32 bo bs }"

definition magic :: "ByteOrder \<Rightarrow> BlobHeader \<Rightarrow> nat panics" where "magic bo = header_field bo 0"
definition total_size :: "ByteOrder \<Rightarrow> BlobHeader \<Rightarrow> nat panics" where "total_size bo = header_field bo 4"
definition off_dt_struct :: "ByteOrder \<Rightarrow> BlobHeader \<Rightarrow> nat panics" where "off_dt_struct bo = header_field bo 8"
definition off_dt_strings :: "ByteOrder \<Rightarrow> BlobHeader \<Rightarrow> nat panics" where "off_dt_strings bo = header_field bo 12"
definition off_mem_rsvmap :: "ByteOrder \<Rightarrow> BlobHeader \<Rightarrow> nat panics" where "off_mem_rsvmap bo = header_field bo 16"
definition version :: "ByteOrder \<Rightarrow> BlobHeader \<Rightarrow> nat panics" where "version bo = header_field bo 20"
definition last_comp_version :: "ByteOrder \<Rightarrow> BlobHeader \<Rightarrow> nat panics" where "last_comp_version bo = header_field bo 24"
definition boot_cpuid_phys :: "ByteOrder \<Rightarrow> BlobHeader \<Rightarrow> nat panics" where "boot_cpuid_phys bo = header_field bo 28"
definition size_dt_strings :: "ByteOrder \<Rightarrow> BlobHeader \<Rightarrow> nat panics" where "size_dt_strings bo = header_field bo 32"
definition size_dt_structs :: "ByteOrder \<Rightarrow> BlobHeader \<Rightarrow> nat panics" where "size_dt_structs bo = header_field bo 36"

datatype Token = StartNode bytes | EndNode | Property bytes bytes

text \<open>\<open>dt_address\<close> is where the blob lies in memory.\<close>

record DeviceTree =
  dt_header :: BlobHeader
  dt_address :: usize
  dt_strings :: bytes
  dt_structure :: bytes
  mem_map :: bytes

section \<open>The token iterator\<close>

definition pad_end_4b :: "usize \<Rightarrow> usize" where
  "pad_end_4b n = n + (if n mod 4 = 0 then 0 else 4 - n mod 4)"

text \<open>\<^verbatim>\<open>FlattenedTreeIter::next\<close>; the state is \<^verbatim>\<open>current_offset\<close>.\<close>

lemma slice_from_Some [simp]: "slice_from xs a = Some ys \<longleftrightarrow> a \<le> length xs \<and> ys = drop a xs"
  by (auto simp: slice_from_def)

lemma slice_Some [simp]: "slice xs a b = Some ys \<longleftrightarrow> a \<le> b \<and> b \<le> length xs \<and> ys = take (b - a) (drop a xs)"
  by (auto simp: slice_def)

lemma read_u32_Some [simp]: "read_u32 xs = Some v \<longleftrightarrow> 4 \<le> length xs \<and> v = be_value (take 4 xs)"
  by (auto simp: read_u32_def)

lemma read_u64_Some [simp]: "read_u64 xs = Some v \<longleftrightarrow> 8 \<le> length xs \<and> v = be_value (take 8 xs)"
  by (auto simp: read_u64_def)

lemma slice_from_in [simp]: "a \<le> length xs \<Longrightarrow> slice_from xs a = Some (drop a xs)"
  by simp

lemma slice_in [simp]: "\<lbrakk> a \<le> b; b \<le> length xs \<rbrakk> \<Longrightarrow> slice xs a b = Some (take (b - a) (drop a xs))"
  by simp

lemma read_u32_in [simp]: "4 \<le> length xs \<Longrightarrow> read_u32 xs = Some (be_value (take 4 xs))"
  by simp

lemma read_u64_in [simp]: "8 \<le> length xs \<Longrightarrow> read_u64 xs = Some (be_value (take 8 xs))"
  by simp

function next_token :: "ByteOrder \<Rightarrow> DeviceTree \<Rightarrow> usize \<Rightarrow> (Token option \<times> usize) panics" where
  "next_token bo dt offset = do {
     let current_offset = offset + 4;
     w \<leftarrow> slice_from (dt_structure dt) (current_offset - 4);
     token \<leftarrow> be_u32 bo w;
     case token_type_from token of
       BeginNode \<Rightarrow> do {
         let name_end = scan_nul (dt_structure dt) current_offset;
         name \<leftarrow> slice (dt_structure dt) current_offset name_end;
         Some (Some (StartNode name), pad_end_4b (name_end + 1))
       }
     | EndNodeType \<Rightarrow> Some (Some EndNode, current_offset)
     | Prop \<Rightarrow> do {
         w1 \<leftarrow> slice_from (dt_structure dt) current_offset;
         len \<leftarrow> be_u32 bo w1;
         w2 \<leftarrow> slice_from (dt_structure dt) (current_offset + 4);
         name_offset \<leftarrow> be_u32 bo w2;
         let current_offset = current_offset + 8;
         let name_end = scan_nul (dt_strings dt) name_offset;
         name \<leftarrow> slice (dt_strings dt) name_offset name_end;
         data \<leftarrow> slice (dt_structure dt) current_offset (current_offset + len);
         Some (Some (Property name data), current_offset + pad_end_4b len)
       }
     | Nop \<Rightarrow> next_token bo dt current_offset
     | End \<Rightarrow> Some (None, current_offset)
     | Unknown x \<Rightarrow> panic
   }"
  by pat_completeness auto
termination
  by (relation "measure (\<lambda>(bo, dt, offset). Suc (length (dt_structure dt)) - offset)") auto

declare next_token.simps [simp del]

lemma pad_end_4b_ge: "n \<le> pad_end_4b n"
  by (simp add: pad_end_4b_def)

lemma scan_nul_ge: "start \<le> scan_nul xs start"
  by (simp add: scan_nul_def)

lemma next_token_advances:
  "next_token bo dt offset = Some (t, offset') \<Longrightarrow> offset \<le> length (dt_structure dt) \<and> offset < offset'"
proof (induction bo dt offset rule: next_token.induct)
  case (1 bo dt offset)
  obtain w token where w: "slice_from (dt_structure dt) (offset + 4 - 4) = Some w" "be_u32 bo w = Some token"
    using "1.prems" by (subst (asm) next_token.simps) (auto simp: Let_def split: bind_splits)
  then have l: "offset \<le> length (dt_structure dt)" by simp
  show ?case
  proof (cases "token_type_from token")
    case BeginNode
    then show ?thesis using "1.prems" w l pad_end_4b_ge [of "scan_nul (dt_structure dt) (offset + 4) + 1"]
        scan_nul_ge [of "offset + 4" "dt_structure dt"]
      by (subst (asm) next_token.simps) (auto simp: Let_def split: bind_splits)
  next
    case Nop
    then have "next_token bo dt (offset + 4) = Some (t, offset')"
      using "1.prems" w l by (subst (asm) next_token.simps) (simp add: Let_def)
    then show ?thesis using "1.IH" [OF refl w Nop] l by auto
  qed (use "1.prems" w l in \<open>subst (asm) next_token.simps, auto simp: Let_def split: bind_splits\<close>)+
qed

text \<open>\<^verbatim>\<open>FlattenedTreeIter::skip_node\<close>.\<close>

function skip_node :: "ByteOrder \<Rightarrow> DeviceTree \<Rightarrow> usize \<Rightarrow> nat \<Rightarrow> usize panics" where
  "skip_node bo dt offset depth = do {
     (token, offset') \<leftarrow> next_token bo dt offset;
     case token of
       None \<Rightarrow> Some offset'
     | Some (StartNode _) \<Rightarrow> skip_node bo dt offset' (depth + 1)
     | Some EndNode \<Rightarrow> if depth - 1 = 0 then Some offset' else skip_node bo dt offset' (depth - 1)
     | Some (Property _ _) \<Rightarrow> skip_node bo dt offset' depth
   }"
  by pat_completeness auto
termination
  by (relation "measure (\<lambda>(bo, dt, offset, depth). Suc (length (dt_structure dt)) - offset)")
    (auto dest!: next_token_advances)

declare skip_node.simps [simp del]

text \<open>All tokens from an offset on: a \<^verbatim>\<open>for\<close> loop over the iterator.\<close>

function tokens_from :: "ByteOrder \<Rightarrow> DeviceTree \<Rightarrow> usize \<Rightarrow> Token list panics" where
  "tokens_from bo dt offset = do {
     (token, offset') \<leftarrow> next_token bo dt offset;
     case token of
       None \<Rightarrow> Some []
     | Some t \<Rightarrow> do { ts \<leftarrow> tokens_from bo dt offset'; Some (t # ts) }
   }"
  by pat_completeness auto
termination
  by (relation "measure (\<lambda>(bo, dt, offset). Suc (length (dt_structure dt)) - offset)")
    (auto dest!: next_token_advances)

declare tokens_from.simps [simp del]

section \<open>The iterators over the data of a property\<close>

definition mem_region_next :: "ByteOrder \<Rightarrow> bytes \<Rightarrow> usize \<Rightarrow> ((nat \<times> nat) option \<times> usize) panics" where
  "mem_region_next bo data current_offset = do {
     w \<leftarrow> slice_from data current_offset;
     addr \<leftarrow> be_u64 bo w;
     let current_offset = current_offset + 8;
     w \<leftarrow> slice_from data current_offset;
     sz \<leftarrow> be_u64 bo w;
     let current_offset = current_offset + 8;
     Some (if addr = 0 \<and> sz = 0 then None else Some (addr, sz), current_offset)
   }"

definition string_list_next :: "bytes \<Rightarrow> usize \<Rightarrow> (bytes option \<times> usize) panics" where
  "string_list_next data current_offset =
     (if current_offset \<ge> length data then Some (None, current_offset)
      else do {
        w \<leftarrow> slice_from data current_offset;
        case from_bytes_until_nul w of
          Some s \<Rightarrow> Some (Some s, current_offset + (length s + 1))
        | None \<Rightarrow> Some (None, current_offset)
      })"

record Registers =
  reg_data :: bytes
  address_cells :: nat
  size_cells :: nat

text \<open>The loop that reads \<open>n\<close> cells; \<open>Inl\<close> is the early \<^verbatim>\<open>return None\<close>.\<close>

fun read_cells :: "ByteOrder \<Rightarrow> bytes \<Rightarrow> nat \<Rightarrow> usize \<Rightarrow> nat \<Rightarrow> ((usize + nat) \<times> usize) panics" where
  "read_cells bo data 0 offset v = Some (Inr v, offset)"
| "read_cells bo data (Suc n) offset v = do {
     w \<leftarrow> slice_from data offset;
     cell \<leftarrow> be_u32 bo w;
     let v = v * 2 ^ 32 mod 2 ^ 64 + cell;
     let offset = offset + 4;
     if offset > length data then Some (Inl offset, offset) else read_cells bo data n offset v
   }"

definition registers_next :: "ByteOrder \<Rightarrow> Registers \<Rightarrow> usize \<Rightarrow> ((nat \<times> nat) option \<times> usize) panics" where
  "registers_next bo regs offset =
     (if offset \<ge> length (reg_data regs) then Some (None, offset)
      else do {
        (a, offset) \<leftarrow> read_cells bo (reg_data regs) (address_cells regs) offset 0;
        case a of
          Inl _ \<Rightarrow> Some (None, offset)
        | Inr address \<Rightarrow> do {
            (s, offset) \<leftarrow> read_cells bo (reg_data regs) (size_cells regs) offset 0;
            case s of
              Inl _ \<Rightarrow> Some (None, offset)
            | Inr sz \<Rightarrow> Some (Some (address, sz), offset)
          }
      })"

definition split_node_name :: "bytes \<Rightarrow> bytes \<times> bytes option" where
  "split_node_name full_name =
     (if CHR ''@'' \<in> set full_name
      then let pos = length (takeWhile (\<lambda>c. c \<noteq> CHR ''@'') full_name)
           in (take pos full_name, Some (drop (pos + 1) full_name))
      else (full_name, None))"

section \<open>The encoding\<close>

text \<open>Section 5.4 of the Devicetree Specification: every token is a big-endian word, followed by its
  data, padded to a multiple of four bytes.\<close>

definition be32 :: "nat \<Rightarrow> bytes" where
  "be32 n = map char_of [n div 2 ^ 24, n div 2 ^ 16, n div 2 ^ 8, n]"

definition be64 :: "nat \<Rightarrow> bytes" where
  "be64 n = be32 (n div 2 ^ 32) @ be32 n"

definition pad4 :: "bytes \<Rightarrow> bytes" where
  "pad4 bs = bs @ replicate ((4 - length bs mod 4) mod 4) nul"

fun enc_token :: "(bytes \<Rightarrow> nat) \<Rightarrow> Token \<Rightarrow> bytes" where
  "enc_token name_offset (StartNode name) = be32 1 @ pad4 (name @ [nul])"
| "enc_token name_offset EndNode = be32 2"
| "enc_token name_offset (Property name data) = be32 3 @ be32 (length data) @ be32 (name_offset name) @ pad4 data"

text \<open>Before each token there may be any number of \<^verbatim>\<open>Nop\<close> tokens.\<close>

definition nops :: "nat \<Rightarrow> bytes" where
  "nops k = concat (replicate k (be32 4))"

fun enc_structure :: "(bytes \<Rightarrow> nat) \<Rightarrow> (nat \<times> Token) list \<Rightarrow> nat \<Rightarrow> bytes" where
  "enc_structure name_offset [] k = nops k @ be32 9"
| "enc_structure name_offset ((n, t) # ts) k = nops n @ enc_token name_offset t @ enc_structure name_offset ts k"

fun token_ok :: "bytes \<Rightarrow> (bytes \<Rightarrow> nat) \<Rightarrow> Token \<Rightarrow> bool" where
  "token_ok strs name_offset (StartNode name) \<longleftrightarrow> nul \<notin> set name"
| "token_ok strs name_offset EndNode \<longleftrightarrow> True"
| "token_ok strs name_offset (Property name data) \<longleftrightarrow>
     length data < 2 ^ 32 \<and> name_offset name < 2 ^ 32 \<and> name_offset name \<le> length strs \<and>
     takeWhile (\<lambda>b. b \<noteq> nul) (drop (name_offset name) strs) = name"

lemma length_be32 [simp]: "length (be32 n) = 4"
  by (simp add: be32_def)

lemma length_be64 [simp]: "length (be64 n) = 8"
  by (simp add: be64_def)

lemma be_value_be32_mod: "be_value (be32 n) = n mod 2 ^ 32"
proof -
  have m: "x mod (256 * m) = 256 * (x div 256 mod m) + x mod 256" for x m :: nat by (rule mod_mult2_eq)
  have "n mod 2 ^ 32 = 256 * (256 * (256 * (n div 256 div 256 div 256 mod 256) + n div 256 div 256 mod 256) + n div 256 mod 256) + n mod 256"
    using m [of n "256 * (256 * 256)"] m [of "n div 256" "256 * 256"] m [of "n div 256 div 256" 256] by simp
  moreover have "be_value (be32 n) =
      ((n div 2 ^ 24 mod 256 * 256 + n div 2 ^ 16 mod 256) * 256 + n div 2 ^ 8 mod 256) * 256 + n mod 256"
    by (simp add: be_value_def be32_def)
  moreover have "n div 2 ^ 8 = n div 256" "n div 2 ^ 16 = n div 256 div 256" "n div 2 ^ 24 = n div 256 div 256 div 256"
    using div_mult2_eq [of n 256 256] div_mult2_eq [of n "256 * 256" 256] by simp_all
  ultimately show ?thesis by (simp only: algebra_simps)
qed

lemma be_value_be32: "n < 2 ^ 32 \<Longrightarrow> be_value (be32 n) = n"
  by (simp add: be_value_be32_mod)

lemma be_value_append: "be_value (xs @ ys) = be_value xs * 256 ^ length ys + be_value ys"
proof (induction ys rule: rev_induct)
  case (snoc y ys)
  have c: "be_value (zs @ [y]) = be_value zs * 256 + of_char y" for zs by (simp add: be_value_def)
  have "be_value (xs @ ys @ [y]) = be_value (xs @ ys) * 256 + of_char y" using c [of "xs @ ys"] by simp
  then show ?case using snoc c [of ys] by simp
qed (simp add: be_value_def)

lemma be_value_be64: "n < 2 ^ 64 \<Longrightarrow> be_value (be64 n) = n"
proof -
  assume "n < 2 ^ 64"
  then have "n div 2 ^ 32 < 2 ^ 32" by (simp add: less_mult_imp_div_less)
  then have "be_value (be64 n) = n div 2 ^ 32 * 2 ^ 32 + n mod 2 ^ 32"
    by (simp add: be64_def be_value_append be_value_be32 be_value_be32_mod)
  then show ?thesis by (simp only: div_mult_mod_eq)
qed

section \<open>Reading an encoded tree\<close>

lemma at_offset:
  assumes "drop off xs = ys @ zs" and "ys \<noteq> []"
  shows "off + length ys \<le> length xs" and "take (length ys) (drop off xs) = ys" and "drop (off + length ys) xs = zs"
proof -
  have "length (drop off xs) = length ys + length zs" using assms(1) by simp
  then show "off + length ys \<le> length xs" using assms(2) by (cases "off \<le> length xs") auto
  show "take (length ys) (drop off xs) = ys" using assms(1) by simp
  have "drop (off + length ys) xs = drop (length ys) (drop off xs)" by (simp add: add.commute)
  then show "drop (off + length ys) xs = zs" using assms(1) by simp
qed

lemma word_at:
  assumes "drop off xs = be32 n @ zs" and "n < 2 ^ 32"
  shows "off + 4 \<le> length xs" and "be_value (take 4 (drop off xs)) = n" and "drop (off + 4) xs = zs"
proof -
  have "be32 n \<noteq> []" by (simp add: be32_def)
  note a = at_offset [OF assms(1) this, unfolded length_be32]
  show "off + 4 \<le> length xs" and "be_value (take 4 (drop off xs)) = n" and "drop (off + 4) xs = zs"
    using a be_value_be32 [OF assms(2)] by simp_all
qed

lemma pad_end_add: "m mod 4 = 0 \<Longrightarrow> pad_end_4b (m + n) = m + pad_end_4b n"
proof -
  assume "m mod 4 = 0"
  then have "(m + n) mod 4 = n mod 4" by presburger
  then show ?thesis by (simp add: pad_end_4b_def)
qed

lemma pad_end_mod [simp]: "pad_end_4b n mod 4 = 0"
  by (simp add: pad_end_4b_def) presburger

lemma pad_end_4b_pads: "pad_end_4b n - n = (4 - n mod 4) mod 4"
proof (cases "n mod 4 = 0")
  case False
  then have "(4 - n mod 4) mod 4 = 4 - n mod 4" by (intro mod_less) linarith
  then show ?thesis using False by (simp add: pad_end_4b_def)
qed (simp add: pad_end_4b_def)

lemma length_pad4: "length (pad4 bs) = pad_end_4b (length bs)"
  using pad_end_4b_ge [of "length bs"] by (simp add: pad4_def pad_end_4b_pads [symmetric])

lemma next_token_nop:
  assumes "drop off (dt_structure dt) = be32 4 @ r"
  shows "next_token BigEndian dt off = next_token BigEndian dt (off + 4)" and "drop (off + 4) (dt_structure dt) = r"
proof -
  note w = word_at [OF assms]
  show "drop (off + 4) (dt_structure dt) = r" using w by simp
  have t: "token_type_from 4 = Nop" by (simp add: token_type_from_def)
  show "next_token BigEndian dt off = next_token BigEndian dt (off + 4)"
    using w t by (subst next_token.simps) (simp add: Let_def)
qed

lemma next_token_nops:
  assumes "drop off (dt_structure dt) = nops k @ r"
  shows "next_token BigEndian dt off = next_token BigEndian dt (off + 4 * k) \<and> drop (off + 4 * k) (dt_structure dt) = r"
  using assms
proof (induction k arbitrary: off)
  case (Suc k)
  have "drop off (dt_structure dt) = be32 4 @ nops k @ r" using Suc.prems by (simp add: nops_def)
  note n = next_token_nop [OF this]
  show ?case using n(1) Suc.IH [OF n(2)] by (simp add: algebra_simps)
qed (simp add: nops_def)

lemma next_token_end:
  assumes "drop off (dt_structure dt) = be32 9 @ r"
  shows "next_token BigEndian dt off = Some (None, off + 4)"
proof -
  note w = word_at [OF assms]
  have "token_type_from 9 = End" by (simp add: token_type_from_def)
  then show ?thesis using w by (subst next_token.simps) (simp add: Let_def)
qed

lemma next_token_end_node:
  assumes "drop off (dt_structure dt) = be32 2 @ r"
  shows "next_token BigEndian dt off = Some (Some EndNode, off + 4)"
proof -
  note w = word_at [OF assms]
  have "token_type_from 2 = EndNodeType" by (simp add: token_type_from_def)
  then show ?thesis using w by (subst next_token.simps) (simp add: Let_def)
qed

lemma next_token_start:
  assumes "drop off (dt_structure dt) = be32 1 @ pad4 (name @ [nul]) @ r" and "nul \<notin> set name" and "off mod 4 = 0"
  shows "next_token BigEndian dt off = Some (Some (StartNode name), off + 4 + pad_end_4b (length name + 1))"
proof -
  note w = word_at [OF assms(1)]
  have d: "drop (off + 4) (dt_structure dt) = (name @ [nul]) @ replicate (pad_end_4b (length name + 1) - (length name + 1)) nul @ r"
    using w by (simp add: pad4_def pad_end_4b_pads)
  have "takeWhile (\<lambda>b. b \<noteq> nul) (drop (off + 4) (dt_structure dt)) = name"
    unfolding d using assms(2) by (simp, subst takeWhile_append2) auto
  then have sc: "scan_nul (dt_structure dt) (off + 4) = off + 4 + length name" by (simp add: scan_nul_def)
  have l: "off + 4 + length name \<le> length (dt_structure dt)" using at_offset(1) [OF d] by simp
  have n: "take (length name) (drop (off + 4) (dt_structure dt)) = name" unfolding d by simp
  have p: "pad_end_4b (off + 4 + length name + 1) = off + 4 + pad_end_4b (length name + 1)"
    using pad_end_add [of "off + 4" "length name + 1"] assms(3) by simp
  have "token_type_from 1 = BeginNode" by (simp add: token_type_from_def)
  then show ?thesis using w sc l n p by (subst next_token.simps) (simp add: Let_def)
qed

lemma next_token_property:
  assumes "drop off (dt_structure dt) = be32 3 @ be32 (length data) @ be32 (no name) @ pad4 data @ r"
    and "token_ok (dt_strings dt) no (Property name data)"
  shows "next_token BigEndian dt off = Some (Some (Property name data), off + 12 + pad_end_4b (length data))"
proof -
  note w = word_at [OF assms(1)]
  note w1 = word_at [OF w(3)]
  note w2 = word_at [OF w1(3)]
  have sc: "scan_nul (dt_strings dt) (no name) = no name + length name"
    and n: "take (length name) (drop (no name) (dt_strings dt)) = name"
    and ln: "no name + length name \<le> length (dt_strings dt)"
  proof -
    have t: "takeWhile (\<lambda>b. b \<noteq> nul) (drop (no name) (dt_strings dt)) = name" and o: "no name \<le> length (dt_strings dt)"
      using assms(2) by simp_all
    show "scan_nul (dt_strings dt) (no name) = no name + length name" using t by (simp add: scan_nul_def)
    show "take (length name) (drop (no name) (dt_strings dt)) = name"
      using t by (metis takeWhile_eq_take)
    have "length name \<le> length (drop (no name) (dt_strings dt))" using t by (metis length_takeWhile_le)
    then show "no name + length name \<le> length (dt_strings dt)" using o by simp
  qed
  have d: "drop (off + 12) (dt_structure dt) = data @ replicate (pad_end_4b (length data) - length data) nul @ r"
    using w2 assms(2) by (simp add: pad4_def pad_end_4b_pads algebra_simps)
  have ld: "off + 12 + length data \<le> length (dt_structure dt)"
    using at_offset(1) [OF d] w2 assms(2) by (cases "data = []") (simp_all add: algebra_simps)
  have td: "take (length data) (drop (off + 12) (dt_structure dt)) = data" unfolding d by simp
  have "token_type_from 3 = Prop" by (simp add: token_type_from_def)
  then show ?thesis using w w1 w2 sc n ln ld td assms(2)
    by (subst next_token.simps) (simp add: Let_def algebra_simps)
qed

lemma length_enc_token: "length (enc_token no t) mod 4 = 0"
  by (cases t) (simp_all add: length_pad4 mod_add_eq [symmetric, of _ "pad_end_4b _"])

lemma next_token_enc:
  assumes "drop off (dt_structure dt) = enc_token no t @ r" and "token_ok (dt_strings dt) no t" and "off mod 4 = 0"
  shows "next_token BigEndian dt off = Some (Some t, off + length (enc_token no t)) \<and>
    drop (off + length (enc_token no t)) (dt_structure dt) = r"
proof -
  have "enc_token no t \<noteq> []" by (cases t) (simp_all add: be32_def)
  note a = at_offset [OF assms(1) this]
  show ?thesis
  proof (cases t)
    case (StartNode name)
    then show ?thesis using next_token_start [of off dt name r] assms a(3) by (simp add: length_pad4 add.assoc)
  next
    case EndNode
    then show ?thesis using next_token_end_node [of off dt r] assms a(3) by simp
  next
    case (Property name data)
    then show ?thesis using next_token_property [of off dt data no name r] assms a(3) by (simp add: length_pad4 add.assoc)
  qed
qed

lemma next_token_head:
  assumes "drop off (dt_structure dt) = enc_structure no ((n, t) # ts) k @ post" and "token_ok (dt_strings dt) no t"
    and "off mod 4 = 0"
  shows "\<exists>off'. next_token BigEndian dt off = Some (Some t, off') \<and> off' mod 4 = 0 \<and>
    drop off' (dt_structure dt) = enc_structure no ts k @ post"
proof -
  have n: "next_token BigEndian dt off = next_token BigEndian dt (off + 4 * n)"
    "drop (off + 4 * n) (dt_structure dt) = enc_token no t @ enc_structure no ts k @ post"
    using next_token_nops [of off dt n "enc_token no t @ enc_structure no ts k @ post"] assms(1) by simp_all
  have m: "(off + 4 * n) mod 4 = 0" using assms(3) by simp
  note e = next_token_enc [OF n(2) assms(2) m]
  have "(off + 4 * n + length (enc_token no t)) mod 4 = 0"
    using m length_enc_token [of no t] by (simp add: mod_add_eq [symmetric])
  then show ?thesis using e n(1) by auto
qed

lemma next_token_last:
  assumes "drop off (dt_structure dt) = enc_structure no [] k @ post"
  shows "\<exists>off'. next_token BigEndian dt off = Some (None, off')"
proof -
  have n: "next_token BigEndian dt off = next_token BigEndian dt (off + 4 * k)" "drop (off + 4 * k) (dt_structure dt) = be32 9 @ post"
    using next_token_nops [of off dt k "be32 9 @ post"] assms by simp_all
  then show ?thesis using next_token_end by simp
qed

lemma tokens_from_enc:
  assumes "dt_structure dt = enc_structure no ts k @ post" and "\<forall>(n, t) \<in> set ts. token_ok (dt_strings dt) no t"
  shows "tokens_from BigEndian dt 0 = Some (map snd ts)"
proof -
  have "tokens_from BigEndian dt off = Some (map snd ts)"
    if "drop off (dt_structure dt) = enc_structure no ts k @ post" "off mod 4 = 0" for off
    using that assms(2)
  proof (induction ts arbitrary: off)
    case Nil
    then show ?case using next_token_last [OF Nil.prems(1)] by (subst tokens_from.simps) auto
  next
    case (Cons nt ts)
    obtain n t where nt: "nt = (n, t)" by fastforce
    obtain off' where o: "next_token BigEndian dt off = Some (Some t, off')" "off' mod 4 = 0"
      "drop off' (dt_structure dt) = enc_structure no ts k @ post"
      using next_token_head [of off dt no n t ts k post] Cons.prems nt by auto
    then show ?case using Cons.IH [OF o(3,2)] Cons.prems(3) nt by (subst tokens_from.simps) simp
  qed
  then show ?thesis using assms(1) by simp
qed

text \<open>C17: iterating over an encoded structure block yields exactly the tokens that were encoded, in
  order, whatever \<^verbatim>\<open>Nop\<close> tokens lie between them, and stops at the end token without reading what
  follows it.\<close>

theorem tokens_roundtrip:
  assumes "big_endian bo"
    and "dt_structure dt = enc_structure no ts k @ post" and "\<forall>(n, t) \<in> set ts. token_ok (dt_strings dt) no t"
  shows "tokens_from bo dt 0 = Some (map snd ts)"
  using assms(2,3) unfolding assms(1) [unfolded big_endian_eq] by (rule tokens_from_enc)

text \<open>A blob with a root node that has one property, and two \<^verbatim>\<open>Nop\<close> tokens before its end.\<close>

definition small_tokens :: "(nat \<times> Token) list" where
  "small_tokens = [(0, StartNode []), (0, Property ''a'' ''xyz''), (2, EndNode)]"

definition small_blob :: DeviceTree where
  "small_blob = \<lparr> dt_header = \<lparr> buf = [] \<rparr>, dt_address = 0, dt_strings = ''a'' @ [nul],
     dt_structure = enc_structure (\<lambda>_. 0) small_tokens 0 @ ''junk'', mem_map = [] \<rparr>"

theorem tokens_roundtrip_witness:
  "tokens_from BigEndian small_blob 0 = Some [StartNode [], Property ''a'' ''xyz'', EndNode]"
proof -
  have "tokens_from BigEndian small_blob 0 = Some (map snd small_tokens)"
    by (rule tokens_roundtrip [where no = "\<lambda>_. 0" and k = 0 and post = "''junk''"])
      (simp_all add: big_endian_eq small_blob_def small_tokens_def)
  then show ?thesis by (simp add: small_tokens_def)
qed

end
