(* ===== verification/Device_Tree.thy ===== *)
theory Device_Tree
  imports Fdt
begin

text \<open>
  The device tree parser of \<^verbatim>\<open>platform/device_tree/mod.rs\<close> and the node iterators of
  \<^verbatim>\<open>platform/device_tree/iter.rs\<close>: property values, opening a blob, looking up a node or a
  property by its path, and listing the children of a node by name.  An iterator is its cursor
  into the structure block with the fields of the struct.
\<close>

section \<open>Values\<close>

datatype Value =
  U32 nat | U64 nat | Phandle nat | String bytes | StringList bytes | Bytes bytes | Reg Registers

datatype ParseError =
  PropertyNotFound string
| NodeNotFound string
| UnexpectedType bytes Value string
| UnexpectedValue bytes Value string

datatype OwnedParseError =
  OwnedPropertyNotFound string
| OwnedNodeNotFound string
| OwnedUnexpectedType string string string
| OwnedUnexpectedValue string string string

text \<open>The text of a byte string (\<^verbatim>\<open>String::from_utf8_lossy\<close>) and of a value (its \<^verbatim>\<open>Debug\<close>
  output) are only passed on.\<close>

fun to_owned :: "(bytes \<Rightarrow> string) \<Rightarrow> (Value \<Rightarrow> string) \<Rightarrow> ParseError \<Rightarrow> OwnedParseError" where
  "to_owned lossy debug (PropertyNotFound name) = OwnedPropertyNotFound name"
| "to_owned lossy debug (NodeNotFound path) = OwnedNodeNotFound path"
| "to_owned lossy debug (UnexpectedType name v expected_type) = OwnedUnexpectedType (lossy name) (debug v) expected_type"
| "to_owned lossy debug (UnexpectedValue name v reason) = OwnedUnexpectedValue (lossy name) (debug v) reason"

text \<open>\<^verbatim>\<open>StringList::contains\<close>: \<^verbatim>\<open>windows(0)\<close> panics.\<close>

definition string_list_contains :: "bytes \<Rightarrow> bytes \<Rightarrow> bool panics" where
  "string_list_contains data s =
     (if length s = 0 then panic
      else Some (\<exists>i \<in> set [0..<length data + 1 - length s]. take (length s) (drop i data) = s))"

definition parse_value :: "ByteOrder \<Rightarrow> bytes \<Rightarrow> bytes \<Rightarrow> nat \<Rightarrow> nat \<Rightarrow> Value panics" where
  "parse_value bo name bs ac sc =
     (if name = ''compatible'' then Some (StringList bs)
      else if name = ''model'' \<or> name = ''status'' \<or> name = ''device_type'' then
        Some (case from_bytes_until_nul bs of Some s \<Rightarrow> String s | None \<Rightarrow> Bytes bs)
      else if name = ''phandle'' then do { v \<leftarrow> be_u32 bo bs; Some (Phandle v) }
      else if name = ''#address-cells'' \<or> name = ''#size-cells'' \<or> name = ''virtual-reg'' then
        do { v \<leftarrow> be_u32 bo bs; Some (U32 v) }
      else if name = ''reg'' then
        Some (Reg \<lparr> reg_data = bs, address_cells = ac, size_cells = sc \<rparr>)
      else Some (Bytes bs))"

definition as_u32 :: "Value \<Rightarrow> bytes \<Rightarrow> ParseError + nat" where
  "as_u32 v name = (case v of U32 x \<Rightarrow> Inr x | _ \<Rightarrow> Inl (UnexpectedType name v ''u32''))"

definition as_u64 :: "Value \<Rightarrow> bytes \<Rightarrow> ParseError + nat" where
  "as_u64 v name = (case v of U64 x \<Rightarrow> Inr x | _ \<Rightarrow> Inl (UnexpectedType name v ''u64''))"

definition as_phandle :: "Value \<Rightarrow> bytes \<Rightarrow> ParseError + nat" where
  "as_phandle v name = (case v of Phandle x \<Rightarrow> Inr x | _ \<Rightarrow> Inl (UnexpectedType name v ''phandle''))"

definition as_string :: "Value \<Rightarrow> bytes \<Rightarrow> ParseError + bytes" where
  "as_string v name = (case v of String x \<Rightarrow> Inr x | _ \<Rightarrow> Inl (UnexpectedType name v ''string''))"

definition as_strings :: "Value \<Rightarrow> bytes \<Rightarrow> ParseError + bytes" where
  "as_strings v name = (case v of StringList x \<Rightarrow> Inr x | _ \<Rightarrow> Inl (UnexpectedType name v ''stringlist''))"

definition as_bytes :: "Value \<Rightarrow> bytes \<Rightarrow> ParseError + bytes" where
  "as_bytes v name = (case v of Bytes x \<Rightarrow> Inr x | _ \<Rightarrow> Inl (UnexpectedType name v ''bytes''))"

definition as_reg :: "Value \<Rightarrow> bytes \<Rightarrow> ParseError + Registers" where
  "as_reg v name = (case v of Reg x \<Rightarrow> Inr x | _ \<Rightarrow> Inl (UnexpectedType name v ''reg''))"

definition into_u32 :: "Value \<Rightarrow> nat option" where
  "into_u32 v = (case v of U32 x \<Rightarrow> Some x | _ \<Rightarrow> None)"

definition into_u64 :: "Value \<Rightarrow> nat option" where
  "into_u64 v = (case v of U64 x \<Rightarrow> Some x | _ \<Rightarrow> None)"

definition into_phandle :: "Value \<Rightarrow> nat option" where
  "into_phandle v = (case v of Phandle x \<Rightarrow> Some x | _ \<Rightarrow> None)"

definition into_string :: "Value \<Rightarrow> bytes option" where
  "into_string v = (case v of String x \<Rightarrow> Some x | _ \<Rightarrow> None)"

definition into_strings :: "Value \<Rightarrow> bytes option" where
  "into_strings v = (case v of StringList x \<Rightarrow> Some x | _ \<Rightarrow> None)"

definition into_bytes :: "Value \<Rightarrow> bytes option" where
  "into_bytes v = (case v of Bytes x \<Rightarrow> Some x | _ \<Rightarrow> None)"

definition into_reg :: "Value \<Rightarrow> Registers option" where
  "into_reg v = (case v of Reg x \<Rightarrow> Some x | _ \<Rightarrow> None)"

section \<open>Opening a blob\<close>

definition from_bytes_and_header :: "ByteOrder \<Rightarrow> usize \<Rightarrow> bytes \<Rightarrow> BlobHeader \<Rightarrow> DeviceTree panics" where
  "from_bytes_and_header bo ptr bs header = do {
     m \<leftarrow> magic bo header;
     assert_p (m = HEADER_EXPECTED_MAGIC);
     ts \<leftarrow> total_size bo header;
     assert_p (ts = length bs);
     str_start \<leftarrow> off_dt_strings bo header;
     str_size \<leftarrow> size_dt_strings bo header;
     structs_start \<leftarrow> off_dt_struct bo header;
     structs_size \<leftarrow> size_dt_structs bo header;
     strs \<leftarrow> slice bs str_start (str_start + str_size);
     structs \<leftarrow> slice bs structs_start (structs_start + structs_size);
     rsv \<leftarrow> off_mem_rsvmap bo header;
     mm \<leftarrow> slice bs rsv structs_start;
     Some \<lparr> dt_header = header, dt_address = ptr, dt_strings = strs, dt_structure = structs, mem_map = mm \<rparr>
   }"

definition from_bytes :: "ByteOrder \<Rightarrow> usize \<Rightarrow> bytes \<Rightarrow> DeviceTree panics" where
  "from_bytes bo ptr bs = from_bytes_and_header bo ptr bs \<lparr> buf = bs \<rparr>"

text \<open>\<open>memory\<close> gives the byte at an address.\<close>

definition from_memory :: "ByteOrder \<Rightarrow> (usize \<Rightarrow> char) \<Rightarrow> usize \<Rightarrow> DeviceTree panics" where
  "from_memory bo memory ptr = do {
     let header = \<lparr> buf = map memory [ptr..<ptr + HEADER_SIZE] \<rparr>;
     n \<leftarrow> total_size bo header;
     from_bytes_and_header bo ptr (map memory [ptr..<ptr + n]) header
   }"

definition memory_region :: "ByteOrder \<Rightarrow> DeviceTree \<Rightarrow> (usize \<times> usize) panics" where
  "memory_region bo dt = do { n \<leftarrow> total_size bo (dt_header dt); Some (dt_address dt, n) }"

definition iter_structure :: "DeviceTree \<Rightarrow> usize" where
  "iter_structure dt = 0"

section \<open>Looking up nodes\<close>

text \<open>\<^verbatim>\<open>path.split(|p| *p == b'/')\<close>.\<close>

fun split_path :: "bytes \<Rightarrow> bytes list" where
  "split_path [] = [[]]"
| "split_path (c # cs) = (if c = CHR ''/'' then [] # split_path cs
     else case split_path cs of s # ss \<Rightarrow> (c # s) # ss | [] \<Rightarrow> [[c]])"

definition update_cells :: "ByteOrder \<Rightarrow> bytes \<Rightarrow> bytes \<Rightarrow> nat option \<times> nat option \<Rightarrow> (nat option \<times> nat option) panics" where
  "update_cells bo name data cells =
     (if name = ''#address-cells'' then do { v \<leftarrow> be_u32 bo data; Some (Some v, snd cells) }
      else if name = ''#size-cells'' then do { v \<leftarrow> be_u32 bo data; Some (fst cells, Some v) }
      else Some cells)"

lemma skip_node_advances: "skip_node bo dt offset depth = Some offset' \<Longrightarrow> offset < offset'"
proof (induction bo dt offset depth rule: skip_node.induct)
  case (1 bo dt offset depth)
  obtain t o1 where n: "next_token bo dt offset = Some (t, o1)"
    using "1.prems" by (subst (asm) skip_node.simps) (auto split: bind_splits)
  then have a: "offset < o1" by (rule next_token_advances [THEN conjunct2])
  show ?case
    using "1.prems" a "1.IH" [OF n refl] n less_trans [OF a]
    by (subst (asm) skip_node.simps) (auto split: option.splits Token.splits if_splits)
qed

text \<open>The search that \<^verbatim>\<open>iter_node_properties\<close> and \<^verbatim>\<open>iter_nodes_named\<close> share: the result is the
  cursor behind the start of the node and the cell sizes collected on the way.\<close>

function find_path :: "ByteOrder \<Rightarrow> DeviceTree \<Rightarrow> usize \<Rightarrow> bytes \<Rightarrow> bytes list \<Rightarrow> nat option \<times> nat option \<Rightarrow>
    (usize \<times> nat option \<times> nat option) option panics" where
  "find_path bo dt tokens looking_for segments cells = do {
     (token, tokens') \<leftarrow> next_token bo dt tokens;
     case token of
       None \<Rightarrow> Some None
     | Some (StartNode name) \<Rightarrow>
         if name = looking_for then
           (case segments of
              [] \<Rightarrow> Some (Some (tokens', cells))
            | next_segment # rest \<Rightarrow>
                if next_segment = [] then Some (Some (tokens', cells))
                else find_path bo dt tokens' next_segment rest cells)
         else do {
           tokens'' \<leftarrow> skip_node bo dt tokens' 1;
           find_path bo dt tokens'' looking_for segments cells
         }
     | Some EndNode \<Rightarrow> Some None
     | Some (Property name data) \<Rightarrow> do {
         cells' \<leftarrow> update_cells bo name data cells;
         find_path bo dt tokens' looking_for segments cells'
       }
   }"
  by pat_completeness auto
termination
  by (relation "measure (\<lambda>(bo, dt, tokens, l, s, c). Suc (length (dt_structure dt)) - tokens)")
    (auto dest!: next_token_advances skip_node_advances)

declare find_path.simps [simp del]

record NodePropertyIter =
  np_cur :: usize
  np_depth :: nat
  parent_address_cells :: nat
  parent_size_cells :: nat

definition unwrap_or :: "'a option \<Rightarrow> 'a \<Rightarrow> 'a" where
  "unwrap_or v d = (case v of None \<Rightarrow> d | Some x \<Rightarrow> x)"

definition iter_node_properties :: "ByteOrder \<Rightarrow> DeviceTree \<Rightarrow> bytes \<Rightarrow> NodePropertyIter option panics" where
  "iter_node_properties bo dt path = do {
     r \<leftarrow> find_path bo dt (iter_structure dt) (hd (split_path path)) (tl (split_path path)) (None, None);
     Some (case r of
       None \<Rightarrow> None
     | Some (tokens, ac, sc) \<Rightarrow> Some \<lparr> np_cur = tokens, np_depth = 1,
         parent_address_cells = unwrap_or ac 2, parent_size_cells = unwrap_or sc 1 \<rparr>)
   }"

function node_property_scan :: "ByteOrder \<Rightarrow> DeviceTree \<Rightarrow> NodePropertyIter \<Rightarrow>
    ((bytes \<times> Value) option \<times> NodePropertyIter) panics" where
  "node_property_scan bo dt it = do {
     (item, cur) \<leftarrow> next_token bo dt (np_cur it);
     let it = it\<lparr>np_cur := cur\<rparr>;
     case item of
       None \<Rightarrow> Some (None, it)
     | Some (StartNode _) \<Rightarrow> node_property_scan bo dt (it\<lparr>np_depth := np_depth it + 1\<rparr>)
     | Some EndNode \<Rightarrow> do {
         d \<leftarrow> sub_p (np_depth it) 1;
         if d = 0 then Some (None, it\<lparr>np_depth := d\<rparr>) else node_property_scan bo dt (it\<lparr>np_depth := d\<rparr>)
       }
     | Some (Property name data) \<Rightarrow>
         if np_depth it = 1 then do {
           v \<leftarrow> parse_value bo name data (parent_address_cells it) (parent_size_cells it);
           Some (Some (name, v), it)
         } else node_property_scan bo dt it
   }"
  by pat_completeness auto
termination
  by (relation "measure (\<lambda>(bo, dt, it). Suc (length (dt_structure dt)) - np_cur it)") (auto dest!: next_token_advances)

declare node_property_scan.simps [simp del]

definition node_property_next :: "ByteOrder \<Rightarrow> DeviceTree \<Rightarrow> NodePropertyIter \<Rightarrow>
    ((bytes \<times> Value) option \<times> NodePropertyIter) panics" where
  "node_property_next bo dt it = (if np_depth it = 0 then Some (None, it) else node_property_scan bo dt it)"

lemma node_property_scan_advances:
  "node_property_scan bo dt it = Some (Some p, it') \<Longrightarrow> np_cur it < np_cur it' \<and> np_cur it \<le> length (dt_structure dt)"
proof (induction bo dt it rule: node_property_scan.induct)
  case (1 bo dt it)
  obtain t cur where n: "next_token bo dt (np_cur it) = Some (t, cur)"
    using "1.prems" by (subst (asm) node_property_scan.simps) (auto split: bind_splits)
  then have a: "np_cur it < cur" "np_cur it \<le> length (dt_structure dt)" by (auto dest!: next_token_advances)
  note IH = "1.IH" [OF n refl refl]
  show ?case using "1.prems" a n IH
    by (subst (asm) node_property_scan.simps)
      (auto simp: Let_def split: option.splits Token.splits if_splits bind_splits dest: less_trans)
qed

text \<open>\<^verbatim>\<open>Iterator::find\<close> for a property name.\<close>

function find_in_properties :: "ByteOrder \<Rightarrow> DeviceTree \<Rightarrow> NodePropertyIter \<Rightarrow> bytes \<Rightarrow> Value option panics" where
  "find_in_properties bo dt it property_name = do {
     (item, it') \<leftarrow> node_property_next bo dt it;
     case item of
       None \<Rightarrow> Some None
     | Some (name, v) \<Rightarrow> if name = property_name then Some (Some v) else find_in_properties bo dt it' property_name
   }"
  by pat_completeness auto
termination
  by (relation "measure (\<lambda>(bo, dt, it, p). Suc (length (dt_structure dt)) - np_cur it)")
    (auto simp: node_property_next_def split: if_splits dest!: node_property_scan_advances)

declare find_in_properties.simps [simp del]

definition find_property :: "ByteOrder \<Rightarrow> DeviceTree \<Rightarrow> bytes \<Rightarrow> Value option panics" where
  "find_property bo dt path =
     (if CHR ''/'' \<notin> set path then Some None
      else do {
        let split = length (takeWhile (\<lambda>c. c \<noteq> CHR ''/'') (rev path));
        let node_path = take (length path - split) path;
        let property_name = drop (length path - split) path;
        it \<leftarrow> iter_node_properties bo dt node_path;
        case it of None \<Rightarrow> Some None | Some it \<Rightarrow> find_in_properties bo dt it property_name
      })"

record NodesNamedIter =
  nn_cur :: usize
  nn_depth :: nat
  node_name :: bytes
  nn_address_cells :: nat
  nn_size_cells :: nat

record NodeItem =
  unit_address :: "bytes option"
  properties :: NodePropertyIter

definition iter_nodes_named :: "ByteOrder \<Rightarrow> DeviceTree \<Rightarrow> bytes \<Rightarrow> bytes \<Rightarrow> NodesNamedIter option panics" where
  "iter_nodes_named bo dt path name = do {
     r \<leftarrow> find_path bo dt (iter_structure dt) (hd (split_path path)) (tl (split_path path)) (None, None);
     Some (case r of
       None \<Rightarrow> None
     | Some (tokens, ac, sc) \<Rightarrow> Some \<lparr> nn_cur = tokens, nn_depth = 1, node_name = name,
         nn_address_cells = unwrap_or ac 2, nn_size_cells = unwrap_or sc 1 \<rparr>)
   }"

text \<open>Around \<^verbatim>\<open>skip_node\<close> the depth goes up by one and down again.\<close>

function nodes_named_next :: "ByteOrder \<Rightarrow> DeviceTree \<Rightarrow> NodesNamedIter \<Rightarrow> (NodeItem option \<times> NodesNamedIter) panics" where
  "nodes_named_next bo dt it = do {
     (token, cur) \<leftarrow> next_token bo dt (nn_cur it);
     let it = it\<lparr>nn_cur := cur\<rparr>;
     case token of
       None \<Rightarrow> Some (None, it)
     | Some (StartNode full_name) \<Rightarrow> do {
         let (name, unit_address) = split_node_name full_name;
         cur' \<leftarrow> skip_node bo dt cur 1;
         let it = it\<lparr>nn_cur := cur'\<rparr>;
         if name = node_name it then
           Some (Some \<lparr> unit_address = unit_address, properties = \<lparr> np_cur = cur, np_depth = 1,
               parent_address_cells = nn_address_cells it, parent_size_cells = nn_size_cells it \<rparr> \<rparr>, it)
         else nodes_named_next bo dt it
       }
     | Some EndNode \<Rightarrow> do {
         d \<leftarrow> sub_p (nn_depth it) 1;
         let it = it\<lparr>nn_depth := d\<rparr>;
         if d = 0 then Some (None, it) else nodes_named_next bo dt it
       }
     | Some (Property name data) \<Rightarrow>
         if name = ''#address-cells'' then do {
           v \<leftarrow> be_u32 bo data;
           nodes_named_next bo dt (it\<lparr>nn_address_cells := v\<rparr>)
         } else if name = ''#size-cells'' then do {
           v \<leftarrow> be_u32 bo data;
           nodes_named_next bo dt (it\<lparr>nn_size_cells := v\<rparr>)
         } else nodes_named_next bo dt it
   }"
  by pat_completeness auto
termination
  by (relation "measure (\<lambda>(bo, dt, it). Suc (length (dt_structure dt)) - nn_cur it)")
    (auto dest!: next_token_advances skip_node_advances)

declare nodes_named_next.simps [simp del]

lemma nodes_named_start:
  assumes "next_token bo dt (nn_cur it) = Some (Some (StartNode f), cur)" and "split_node_name f = (nm, ua)"
  shows "nodes_named_next bo dt it = do {
     cur' \<leftarrow> skip_node bo dt cur 1;
     if nm = node_name it then
       Some (Some \<lparr> unit_address = ua, properties = \<lparr> np_cur = cur, np_depth = 1,
           parent_address_cells = nn_address_cells it, parent_size_cells = nn_size_cells it \<rparr> \<rparr>, it\<lparr>nn_cur := cur'\<rparr>)
     else nodes_named_next bo dt (it\<lparr>nn_cur := cur'\<rparr>) }"
  using assms by (subst nodes_named_next.simps) (simp add: Let_def cong: if_cong)

lemma nodes_named_none:
  "next_token bo dt (nn_cur it) = Some (None, cur) \<Longrightarrow> nodes_named_next bo dt it = Some (None, it\<lparr>nn_cur := cur\<rparr>)"
  by (subst nodes_named_next.simps) simp

lemma nodes_named_end_node:
  assumes "next_token bo dt (nn_cur it) = Some (Some EndNode, cur)"
  shows "nodes_named_next bo dt it = do {
     d \<leftarrow> sub_p (nn_depth it) 1;
     if d = 0 then Some (None, it\<lparr>nn_cur := cur, nn_depth := d\<rparr>)
     else nodes_named_next bo dt (it\<lparr>nn_cur := cur, nn_depth := d\<rparr>) }"
  using assms by (subst nodes_named_next.simps) (simp add: Let_def)

lemma nodes_named_property:
  assumes "next_token bo dt (nn_cur it) = Some (Some (Property nm d), cur)"
  shows "nodes_named_next bo dt it =
    (if nm = ''#address-cells'' then do {
       v \<leftarrow> be_u32 bo d; nodes_named_next bo dt (it\<lparr>nn_cur := cur, nn_address_cells := v\<rparr>) }
     else if nm = ''#size-cells'' then do {
       v \<leftarrow> be_u32 bo d; nodes_named_next bo dt (it\<lparr>nn_cur := cur, nn_size_cells := v\<rparr>) }
     else nodes_named_next bo dt (it\<lparr>nn_cur := cur\<rparr>))"
  using assms by (subst nodes_named_next.simps) (simp add: Let_def)

lemma nodes_named_next_advances:
  "nodes_named_next bo dt it = Some (Some n, it') \<Longrightarrow> nn_cur it < nn_cur it' \<and> nn_cur it \<le> length (dt_structure dt)"
proof (induction "Suc (length (dt_structure dt)) - nn_cur it" arbitrary: it rule: less_induct)
  case less
  obtain t cur where n: "next_token bo dt (nn_cur it) = Some (t, cur)"
    using less.prems by (subst (asm) nodes_named_next.simps) (auto split: bind_splits)
  then have a: "nn_cur it < cur" "nn_cur it \<le> length (dt_structure dt)" by (auto dest!: next_token_advances)
  have IH: "nn_cur it < nn_cur it'" if "cur \<le> nn_cur i" "nodes_named_next bo dt i = Some (Some n, it')" for i
  proof -
    have "Suc (length (dt_structure dt)) - nn_cur i < Suc (length (dt_structure dt)) - nn_cur it" using a that(1) by linarith
    then have "nn_cur i < nn_cur it'" using less.hyps that(2) by blast
    then show ?thesis using a that(1) by linarith
  qed
  have "nn_cur it < nn_cur it'" if t: "t = Some (StartNode f)" for f
  proof -
    obtain nm ua where s: "split_node_name f = (nm, ua)" by fastforce
    note e = less.prems [unfolded nodes_named_start [OF n [unfolded t] s]]
    obtain cur' where c: "skip_node bo dt cur 1 = Some cur'" using e by (auto split: bind_splits)
    then have "cur < cur'" by (rule skip_node_advances)
    then show ?thesis using e c a IH [of "it\<lparr>nn_cur := cur'\<rparr>"] by (auto split: if_splits)
  qed
  moreover have "nn_cur it < nn_cur it'" if t: "t = Some EndNode"
    using less.prems [unfolded nodes_named_end_node [OF n [unfolded t]]]
      IH [of "it\<lparr>nn_cur := cur, nn_depth := nn_depth it - 1\<rparr>"]
    by (auto split: if_splits bind_splits)
  moreover have "nn_cur it < nn_cur it'" if t: "t = Some (Property nm d)" for nm d
    using less.prems [unfolded nodes_named_property [OF n [unfolded t]]]
      IH [of "it\<lparr>nn_cur := cur\<rparr>"] IH [of "it\<lparr>nn_cur := cur, nn_address_cells := v\<rparr>" for v]
      IH [of "it\<lparr>nn_cur := cur, nn_size_cells := v\<rparr>" for v]
    by (auto split: if_splits bind_splits)
  moreover have "t \<noteq> None" using less.prems n nodes_named_none [of bo dt it cur] by auto
  ultimately have "nn_cur it < nn_cur it'" by (metis Token.exhaust option.exhaust)
  then show ?case using a by simp
qed

text \<open>The \<^verbatim>\<open>for\<close> loops over the two iterators: everything they yield.\<close>

function properties_from :: "ByteOrder \<Rightarrow> DeviceTree \<Rightarrow> NodePropertyIter \<Rightarrow> (bytes \<times> Value) list panics" where
  "properties_from bo dt it = do {
     (item, it') \<leftarrow> node_property_next bo dt it;
     case item of None \<Rightarrow> Some [] | Some p \<Rightarrow> do { ps \<leftarrow> properties_from bo dt it'; Some (p # ps) }
   }"
  by pat_completeness auto
termination
  by (relation "measure (\<lambda>(bo, dt, it). Suc (length (dt_structure dt)) - np_cur it)")
    (auto simp: node_property_next_def split: if_splits dest!: node_property_scan_advances)

declare properties_from.simps [simp del]

function nodes_from :: "ByteOrder \<Rightarrow> DeviceTree \<Rightarrow> NodesNamedIter \<Rightarrow> NodeItem list panics" where
  "nodes_from bo dt it = do {
     (item, it') \<leftarrow> nodes_named_next bo dt it;
     case item of None \<Rightarrow> Some [] | Some n \<Rightarrow> do { ns \<leftarrow> nodes_from bo dt it'; Some (n # ns) }
   }"
  by pat_completeness auto
termination
  by (relation "measure (\<lambda>(bo, dt, it). Suc (length (dt_structure dt)) - nn_cur it)") (auto dest!: nodes_named_next_advances)

declare nodes_from.simps [simp del]

text \<open>A \<^verbatim>\<open>for\<close> loop over the properties of a node whose body \<open>f\<close> may leave the function with an
  error.\<close>

function for_each_property :: "ByteOrder \<Rightarrow> DeviceTree \<Rightarrow> NodePropertyIter \<Rightarrow> (bytes \<Rightarrow> Value \<Rightarrow> 's \<Rightarrow> ('e + 's) panics) \<Rightarrow> 's \<Rightarrow>
    ('e + 's) panics" where
  "for_each_property bo dt it f s = do {
     (item, it') \<leftarrow> node_property_next bo dt it;
     case item of
       None \<Rightarrow> Some (Inr s)
     | Some (name, v) \<Rightarrow> do {
         r \<leftarrow> f name v s;
         case r of Inl e \<Rightarrow> Some (Inl e) | Inr s' \<Rightarrow> for_each_property bo dt it' f s'
       }
   }"
  by pat_completeness auto
termination
  by (relation "measure (\<lambda>(bo, dt, it, f, s). Suc (length (dt_structure dt)) - np_cur it)")
    (auto simp: node_property_next_def split: if_splits dest!: node_property_scan_advances)

declare for_each_property.simps [simp del]

fun for_each :: "(bytes \<Rightarrow> Value \<Rightarrow> 's \<Rightarrow> ('e + 's) panics) \<Rightarrow> (bytes \<times> Value) list \<Rightarrow> 's \<Rightarrow> ('e + 's) panics" where
  "for_each f [] s = Some (Inr s)"
| "for_each f ((name, v) # ps) s = do {
     r \<leftarrow> f name v s;
     case r of Inl e \<Rightarrow> Some (Inl e) | Inr s' \<Rightarrow> for_each f ps s'
   }"

lemma for_each_property_list:
  "properties_from bo dt it = Some ps \<Longrightarrow> for_each_property bo dt it f s = for_each f ps s"
proof (induction ps arbitrary: it s)
  case Nil
  then obtain it' where "node_property_next bo dt it = Some (None, it')"
    by (subst (asm) properties_from.simps) (auto split: bind_splits option.splits)
  then show ?case by (subst for_each_property.simps) simp
next
  case (Cons p ps)
  obtain name v where p: "p = (name, v)" by fastforce
  obtain it' where it': "node_property_next bo dt it = Some (Some (name, v), it')" "properties_from bo dt it' = Some ps"
    using Cons.prems p by (subst (asm) properties_from.simps) (auto split: bind_splits option.splits)
  have "for_each_property bo dt it' f = for_each f ps" by (rule ext, rule Cons.IH [OF it'(2)])
  then show ?case using it'(1) p by (subst for_each_property.simps) (simp cong: sum.case_cong)
qed

text \<open>A loop whose body accepts some properties and updates its state with each of them.\<close>

lemma for_each_exact:
  assumes "\<And>name v s s'. f name v s = Some (Inr s') \<longleftrightarrow> A (name, v) \<and> s' = u (name, v) s"
  shows "for_each f ps s = Some (Inr s') \<longleftrightarrow> (\<forall>p \<in> set ps. A p) \<and> s' = fold u ps s"
proof (induction ps arbitrary: s)
  case (Cons p ps)
  obtain name v where p: "p = (name, v)" by fastforce
  have "for_each f (p # ps) s = Some (Inr s') \<longleftrightarrow>
      (\<exists>s1. f name v s = Some (Inr s1) \<and> for_each f ps s1 = Some (Inr s'))"
    using p by (auto split: bind_splits sum.splits)
  then show ?case using p Cons.IH by (auto simp: assms)
qed auto

lemma fold_last:
  "fold (\<lambda>(name, v) x. if name = k then F v else x) ps x = (case map_of (rev ps) k of None \<Rightarrow> x | Some v \<Rightarrow> F v)"
  by (induction ps arbitrary: x) (auto simp: map_add_def split: option.splits)

lemma fold_pair: "fold (\<lambda>p (x, y). (g p x, h p y)) ps (x, y) = (fold g ps x, fold h ps y)"
  by (induction ps arbitrary: x y) auto

lemma fold_found: "fold (\<lambda>(name, v) x. x \<or> name = k) ps x \<longleftrightarrow> x \<or> k \<in> fst ` set ps"
  by (induction ps arbitrary: x) force+

text \<open>The same for a loop over the nodes with a name.\<close>

function for_each_node :: "ByteOrder \<Rightarrow> DeviceTree \<Rightarrow> NodesNamedIter \<Rightarrow> (NodeItem \<Rightarrow> 's \<Rightarrow> ('e + 's) panics) \<Rightarrow> 's \<Rightarrow>
    ('e + 's) panics" where
  "for_each_node bo dt it f s = do {
     (item, it') \<leftarrow> nodes_named_next bo dt it;
     case item of
       None \<Rightarrow> Some (Inr s)
     | Some n \<Rightarrow> do {
         r \<leftarrow> f n s;
         case r of Inl e \<Rightarrow> Some (Inl e) | Inr s' \<Rightarrow> for_each_node bo dt it' f s'
       }
   }"
  by pat_completeness auto
termination
  by (relation "measure (\<lambda>(bo, dt, it, f, s). Suc (length (dt_structure dt)) - nn_cur it)") (auto dest!: nodes_named_next_advances)

declare for_each_node.simps [simp del]

fun for_nodes :: "(NodeItem \<Rightarrow> 's \<Rightarrow> ('e + 's) panics) \<Rightarrow> NodeItem list \<Rightarrow> 's \<Rightarrow> ('e + 's) panics" where
  "for_nodes f [] s = Some (Inr s)"
| "for_nodes f (n # ns) s = do {
     r \<leftarrow> f n s;
     case r of Inl e \<Rightarrow> Some (Inl e) | Inr s' \<Rightarrow> for_nodes f ns s'
   }"

lemma for_each_node_list:
  "nodes_from bo dt it = Some ns \<Longrightarrow> for_each_node bo dt it f s = for_nodes f ns s"
proof (induction ns arbitrary: it s)
  case Nil
  then obtain it' where "nodes_named_next bo dt it = Some (None, it')"
    by (subst (asm) nodes_from.simps) (auto split: bind_splits option.splits)
  then show ?case by (subst for_each_node.simps) simp
next
  case (Cons n ns)
  obtain it' where it': "nodes_named_next bo dt it = Some (Some n, it')" "nodes_from bo dt it' = Some ns"
    using Cons.prems by (subst (asm) nodes_from.simps) (auto split: bind_splits option.splits)
  have "for_each_node bo dt it' f = for_nodes f ns" by (rule ext, rule Cons.IH [OF it'(2)])
  then show ?case using it'(1) by (subst for_each_node.simps) (simp cong: sum.case_cong)
qed

end
