(* ===== verification/Device_Tree_Lookup.thy ===== *)
theory Device_Tree_Lookup
  imports Device_Tree
begin

text \<open>
  What the device tree parser computes, in terms of the tree that a blob encodes: nodes with
  properties and children.  The lookups by path, the property iterator and the iterator over the
  children with a given name are related to the obvious functions on trees.
\<close>

section \<open>Trees\<close>

datatype node = Node (label: bytes) (props: "(bytes \<times> bytes) list") (children: "node list")

abbreviation prop_token :: "bytes \<times> bytes \<Rightarrow> Token" where
  "prop_token p \<equiv> Property (fst p) (snd p)"

fun node_tokens :: "node \<Rightarrow> Token list" where
  "node_tokens (Node name ps cs) = StartNode name # map prop_token ps @ concat (map node_tokens cs) @ [EndNode]"

definition body_tokens :: "node \<Rightarrow> Token list" where
  "body_tokens n = map prop_token (props n) @ concat (map node_tokens (children n)) @ [EndNode]"

definition prop_ok :: "bytes \<times> bytes \<Rightarrow> bool" where
  "prop_ok p \<longleftrightarrow> (fst p \<in> {''phandle'', ''#address-cells'', ''#size-cells'', ''virtual-reg''} \<longrightarrow> 4 \<le> length (snd p))"

fun node_ok :: "node \<Rightarrow> bool" where
  "node_ok (Node name ps cs) \<longleftrightarrow> (\<forall>p \<in> set ps. prop_ok p) \<and> (\<forall>c \<in> set cs. node_ok c)"

definition set_cells :: "bytes \<times> bytes \<Rightarrow> nat option \<times> nat option \<Rightarrow> nat option \<times> nat option" where
  "set_cells p cells =
     (if fst p = ''#address-cells'' then (Some (be_value (take 4 (snd p))), snd cells)
      else if fst p = ''#size-cells'' then (fst cells, Some (be_value (take 4 (snd p))))
      else cells)"

text \<open>The node below \<open>n\<close> that a list of path segments names, with the cell sizes that its ancestors
  have set.  The first child with the name is taken; an empty segment ends the path.\<close>

fun descend :: "node \<Rightarrow> bytes list \<Rightarrow> nat option \<times> nat option \<Rightarrow> (node \<times> nat option \<times> nat option) option" where
  "descend n [] cells = Some (n, cells)"
| "descend n (s # segs) cells =
     (if s = [] then Some (n, cells)
      else case find (\<lambda>c. label c = s) (children n) of
        None \<Rightarrow> None
      | Some c \<Rightarrow> descend c segs (fold set_cells (props n) cells))"

definition node_at :: "node \<Rightarrow> bytes \<Rightarrow> (node \<times> nat option \<times> nat option) option" where
  "node_at root path =
     (if label root = hd (split_path path) then descend root (tl (split_path path)) (None, None) else None)"

lemma node_tokens_body: "node_tokens n = StartNode (label n) # body_tokens n"
  by (cases n) (simp add: body_tokens_def)

lemma node_ok_children: "node_ok n \<Longrightarrow> c \<in> set (children n) \<Longrightarrow> node_ok c"
  by (cases n) auto

lemma node_ok_props: "node_ok n \<Longrightarrow> p \<in> set (props n) \<Longrightarrow> prop_ok p"
  by (cases n) auto

section \<open>Skipping\<close>

lemma tokens_Cons:
  "tokens_from BigEndian dt off = Some (t # ts) \<longleftrightarrow> (\<exists>o1. next_token BigEndian dt off = Some (Some t, o1) \<and> tokens_from BigEndian dt o1 = Some ts)"
  by (subst tokens_from.simps) (auto split: bind_splits option.splits)

lemma tokens_Nil: "tokens_from BigEndian dt off = Some [] \<longleftrightarrow> (\<exists>o1. next_token BigEndian dt off = Some (None, o1))"
  by (subst tokens_from.simps) (auto split: bind_splits option.splits)

text \<open>A piece of the token stream that \<^verbatim>\<open>skip_node\<close> reads over.\<close>

definition skipped :: "DeviceTree \<Rightarrow> Token list \<Rightarrow> bool" where
  "skipped dt ts \<longleftrightarrow> (\<forall>off rest d. 0 < d \<longrightarrow> tokens_from BigEndian dt off = Some (ts @ rest) \<longrightarrow>
     (\<exists>off'. skip_node BigEndian dt off d = skip_node BigEndian dt off' d \<and> tokens_from BigEndian dt off' = Some rest))"

lemma skippedD:
  assumes "skipped dt ts" and "0 < d" and "tokens_from BigEndian dt off = Some (ts @ rest)"
  obtains off' where "skip_node BigEndian dt off d = skip_node BigEndian dt off' d" and "tokens_from BigEndian dt off' = Some rest"
  using assms unfolding skipped_def by blast

lemma skipped_Nil: "skipped dt []"
  by (auto simp: skipped_def)

lemma skipped_append: "skipped dt xs \<Longrightarrow> skipped dt ys \<Longrightarrow> skipped dt (xs @ ys)"
  unfolding skipped_def by (metis append.assoc)

lemma skipped_concat: "\<forall>c \<in> set cs. skipped dt (f c) \<Longrightarrow> skipped dt (concat (map f cs))"
  by (induction cs) (auto intro: skipped_Nil skipped_append)

lemma skipped_prop: "skipped dt [Property n v]"
  unfolding skipped_def
proof (intro allI impI)
  fix off rest and d :: nat
  assume "tokens_from BigEndian dt off = Some ([Property n v] @ rest)"
  then obtain o1 where "next_token BigEndian dt off = Some (Some (Property n v), o1)" "tokens_from BigEndian dt o1 = Some rest"
    by (auto simp: tokens_Cons)
  then show "\<exists>off'. skip_node BigEndian dt off d = skip_node BigEndian dt off' d \<and> tokens_from BigEndian dt off' = Some rest"
    by (subst skip_node.simps) auto
qed

lemma skipped_props: "skipped dt (map prop_token ps)"
  using skipped_concat [of ps dt "\<lambda>p. [prop_token p]"] skipped_prop by (simp add: concat_map_singleton)

lemma skipped_node: "skipped dt (node_tokens t)"
proof (induction t)
  case (Node name ps cs)
  have b: "skipped dt (map prop_token ps @ concat (map node_tokens cs))"
    using Node by (intro skipped_append skipped_props skipped_concat) blast
  show ?case unfolding skipped_def
  proof (intro allI impI)
    fix off rest and d :: nat
    assume d: "0 < d" and "tokens_from BigEndian dt off = Some (node_tokens (Node name ps cs) @ rest)"
    then obtain o1 where o1: "next_token BigEndian dt off = Some (Some (StartNode name), o1)"
      "tokens_from BigEndian dt o1 = Some ((map prop_token ps @ concat (map node_tokens cs)) @ EndNode # rest)"
      by (auto simp: tokens_Cons)
    obtain o2 where o2: "skip_node BigEndian dt o1 (d + 1) = skip_node BigEndian dt o2 (d + 1)" "tokens_from BigEndian dt o2 = Some (EndNode # rest)"
      using skippedD [OF b _ o1(2), of "d + 1"] by auto
    obtain o3 where o3: "next_token BigEndian dt o2 = Some (Some EndNode, o3)" "tokens_from BigEndian dt o3 = Some rest"
      using o2(2) by (auto simp: tokens_Cons)
    have "skip_node BigEndian dt off d = skip_node BigEndian dt o1 (d + 1)" using o1(1) by (subst skip_node.simps) simp
    moreover have "skip_node BigEndian dt o2 (d + 1) = skip_node BigEndian dt o3 d" using o3(1) d by (subst skip_node.simps) simp
    ultimately show "\<exists>off'. skip_node BigEndian dt off d = skip_node BigEndian dt off' d \<and> tokens_from BigEndian dt off' = Some rest"
      using o2(1) o3(2) by auto
  qed
qed

lemma skip_body:
  assumes "tokens_from BigEndian dt off = Some (body_tokens n @ rest)"
  shows "\<exists>off'. skip_node BigEndian dt off 1 = Some off' \<and> tokens_from BigEndian dt off' = Some rest"
proof -
  have b: "skipped dt (map prop_token (props n) @ concat (map node_tokens (children n)))"
    by (intro skipped_append skipped_props skipped_concat ballI skipped_node)
  have t: "tokens_from BigEndian dt off = Some ((map prop_token (props n) @ concat (map node_tokens (children n))) @ EndNode # rest)"
    using assms by (simp add: body_tokens_def)
  obtain o2 where o2: "skip_node BigEndian dt off 1 = skip_node BigEndian dt o2 1" "tokens_from BigEndian dt o2 = Some (EndNode # rest)"
    using skippedD [OF b _ t, of 1] by auto
  obtain o3 where o3: "next_token BigEndian dt o2 = Some (Some EndNode, o3)" "tokens_from BigEndian dt o3 = Some rest"
    using o2(2) by (auto simp: tokens_Cons)
  have "skip_node BigEndian dt o2 1 = Some o3" using o3(1) by (subst skip_node.simps) simp
  then show ?thesis using o2(1) o3(2) by auto
qed

section \<open>Nodes by path\<close>

lemma update_cells_ok: "prop_ok p \<Longrightarrow> update_cells BigEndian (fst p) (snd p) cells = Some (set_cells p cells)"
  by (auto simp: update_cells_def set_cells_def prop_ok_def)

lemma find_path_props:
  assumes "tokens_from BigEndian dt off = Some (map prop_token ps @ rest)" and "\<forall>p \<in> set ps. prop_ok p"
  shows "\<exists>off'. find_path BigEndian dt off l segs cells = find_path BigEndian dt off' l segs (fold set_cells ps cells) \<and>
    tokens_from BigEndian dt off' = Some rest"
  using assms
proof (induction ps arbitrary: off cells)
  case (Cons p ps)
  then obtain o1 where o1: "next_token BigEndian dt off = Some (Some (prop_token p), o1)"
    "tokens_from BigEndian dt o1 = Some (map prop_token ps @ rest)" by (auto simp: tokens_Cons)
  have "find_path BigEndian dt off l segs cells = find_path BigEndian dt o1 l segs (set_cells p cells)"
    using o1(1) Cons.prems(2) update_cells_ok [of p cells] by (subst find_path.simps) simp
  then show ?case using Cons.IH [OF o1(2), of "set_cells p cells"] Cons.prems(2) by simp
qed auto

lemma find_path_children:
  assumes "tokens_from BigEndian dt off = Some (concat (map node_tokens cs) @ EndNode # rest)"
  shows "case find (\<lambda>c. label c = l) cs of
      None \<Rightarrow> find_path BigEndian dt off l segs cells = Some None
    | Some c \<Rightarrow> \<exists>off' rest'. tokens_from BigEndian dt off' = Some (body_tokens c @ rest') \<and>
        find_path BigEndian dt off l segs cells =
          (case segs of [] \<Rightarrow> Some (Some (off', cells))
           | s # segs' \<Rightarrow> if s = [] then Some (Some (off', cells)) else find_path BigEndian dt off' s segs' cells)"
  using assms
proof (induction cs arbitrary: off)
  case Nil
  then obtain o1 where "next_token BigEndian dt off = Some (Some EndNode, o1)" by (auto simp: tokens_Cons)
  then show ?case by (subst find_path.simps) simp
next
  case (Cons c cs)
  let ?rest = "concat (map node_tokens cs) @ EndNode # rest"
  obtain o1 where o1: "next_token BigEndian dt off = Some (Some (StartNode (label c)), o1)"
    "tokens_from BigEndian dt o1 = Some (body_tokens c @ ?rest)"
    using Cons.prems by (auto simp: node_tokens_body [of c] tokens_Cons)
  show ?case
  proof (cases "label c = l")
    case True
    then have "find_path BigEndian dt off l segs cells = (case segs of [] \<Rightarrow> Some (Some (o1, cells))
           | s # segs' \<Rightarrow> if s = [] then Some (Some (o1, cells)) else find_path BigEndian dt o1 s segs' cells)"
      using o1(1) by (subst find_path.simps) simp
    then show ?thesis using True o1(2) by auto
  next
    case False
    obtain o2 where o2: "skip_node BigEndian dt o1 1 = Some o2" "tokens_from BigEndian dt o2 = Some ?rest" using skip_body [OF o1(2)] by blast
    have "find_path BigEndian dt off l segs cells = find_path BigEndian dt o2 l segs cells"
      using o1(1) o2(1) False by (subst find_path.simps) simp
    then show ?thesis using Cons.IH [OF o2(2)] False by (simp cong: option.case_cong)
  qed
qed

lemma descend_ok: "node_ok n \<Longrightarrow> descend n segs cells = Some (m, cells') \<Longrightarrow> node_ok m"
proof (induction n segs cells rule: descend.induct)
  case (2 n s segs cells)
  show ?case
  proof (cases "s = []")
    case False
    then obtain c where c: "find (\<lambda>c. label c = s) (children n) = Some c" using "2.prems" by (auto split: option.splits)
    then have "c \<in> set (children n)" by (auto simp: find_Some_iff)
    then show ?thesis using "2.IH" [OF False c] "2.prems" False c node_ok_children by simp
  qed (use 2 in simp)
qed simp

lemma find_path_body:
  assumes "node_ok n" and "tokens_from BigEndian dt off = Some (body_tokens n @ rest)"
    and "F = (case segs of [] \<Rightarrow> Some (Some (off, cells))
           | s # segs' \<Rightarrow> if s = [] then Some (Some (off, cells)) else find_path BigEndian dt off s segs' cells)"
  shows "case descend n segs cells of
      None \<Rightarrow> F = Some None
    | Some (m, cells') \<Rightarrow> \<exists>off' rest'. F = Some (Some (off', cells')) \<and> tokens_from BigEndian dt off' = Some (body_tokens m @ rest')"
  using assms
proof (induction segs arbitrary: n off rest cells F)
  case (Cons s segs)
  show ?case
  proof (cases "s = []")
    case True
    then show ?thesis using Cons.prems by auto
  next
    case False
    have F: "F = find_path BigEndian dt off s segs cells" using Cons.prems(3) False by simp
    have "tokens_from BigEndian dt off = Some (map prop_token (props n) @ concat (map node_tokens (children n)) @ EndNode # rest)"
      using Cons.prems(2) by (simp add: body_tokens_def)
    then obtain o1 where o1: "find_path BigEndian dt off s segs cells = find_path BigEndian dt o1 s segs (fold set_cells (props n) cells)"
      "tokens_from BigEndian dt o1 = Some (concat (map node_tokens (children n)) @ EndNode # rest)"
      using find_path_props node_ok_props [OF Cons.prems(1)] by blast
    note fc = find_path_children [OF o1(2), of s segs "fold set_cells (props n) cells"]
    show ?thesis
    proof (cases "find (\<lambda>c. label c = s) (children n)")
      case None
      then show ?thesis using F o1(1) fc False by simp
    next
      case (Some c)
      then have "node_ok c" using node_ok_children [OF Cons.prems(1)] by (auto simp: find_Some_iff)
      moreover obtain o2 r2 where "tokens_from BigEndian dt o2 = Some (body_tokens c @ r2)"
        "F = (case segs of [] \<Rightarrow> Some (Some (o2, fold set_cells (props n) cells))
           | s # segs' \<Rightarrow> if s = [] then Some (Some (o2, fold set_cells (props n) cells))
               else find_path BigEndian dt o2 s segs' (fold set_cells (props n) cells))"
        using F o1(1) fc Some by auto
      ultimately show ?thesis using Cons.IH [of c o2 r2 F "fold set_cells (props n) cells"] False Some by simp
    qed
  qed
qed auto

lemma find_path_root:
  assumes "tokens_from BigEndian dt 0 = Some (node_tokens root)" and "node_ok root"
  shows "case node_at root path of
      None \<Rightarrow> find_path BigEndian dt 0 (hd (split_path path)) (tl (split_path path)) (None, None) = Some None
    | Some (m, cells) \<Rightarrow> node_ok m \<and> (\<exists>off rest. tokens_from BigEndian dt off = Some (body_tokens m @ rest) \<and>
        find_path BigEndian dt 0 (hd (split_path path)) (tl (split_path path)) (None, None) = Some (Some (off, cells)))"
proof -
  let ?l = "hd (split_path path)" and ?segs = "tl (split_path path)"
  obtain o1 where o1: "next_token BigEndian dt 0 = Some (Some (StartNode (label root)), o1)" "tokens_from BigEndian dt o1 = Some (body_tokens root @ [])"
    using assms(1) by (auto simp: node_tokens_body [of root] tokens_Cons)
  show ?thesis
  proof (cases "label root = ?l")
    case True
    have "find_path BigEndian dt 0 ?l ?segs (None, None) = (case ?segs of [] \<Rightarrow> Some (Some (o1, (None, None)))
           | s # segs' \<Rightarrow> if s = [] then Some (Some (o1, (None, None))) else find_path BigEndian dt o1 s segs' (None, None))"
      using o1(1) True by (subst find_path.simps) simp
    from find_path_body [OF assms(2) o1(2) this] show ?thesis
      using True descend_ok [OF assms(2), of ?segs "(None, None)"]
      by (cases "descend root ?segs (None, None)") (auto simp: node_at_def)
  next
    case False
    obtain o2 where o2: "skip_node BigEndian dt o1 1 = Some o2" "tokens_from BigEndian dt o2 = Some []" using skip_body [OF o1(2)] by blast
    obtain o3 where o3: "next_token BigEndian dt o2 = Some (None, o3)" using o2(2) by (auto simp: tokens_Nil)
    have "find_path BigEndian dt o2 ?l ?segs (None, None) = Some None" using o3 by (subst find_path.simps) simp
    moreover have "find_path BigEndian dt 0 ?l ?segs (None, None) = find_path BigEndian dt o2 ?l ?segs (None, None)"
      using o1(1) o2(1) False by (subst find_path.simps) simp
    ultimately show ?thesis using False by (simp add: node_at_def)
  qed
qed

section \<open>Properties\<close>

text \<open>A piece of the token stream that the property iterator reads over below its node.\<close>

definition passed :: "DeviceTree \<Rightarrow> Token list \<Rightarrow> nat \<Rightarrow> bool" where
  "passed dt ts k \<longleftrightarrow> (\<forall>it rest. k \<le> np_depth it \<longrightarrow> tokens_from BigEndian dt (np_cur it) = Some (ts @ rest) \<longrightarrow>
     (\<exists>cur. node_property_scan BigEndian dt it = node_property_scan BigEndian dt (it\<lparr>np_cur := cur\<rparr>) \<and> tokens_from BigEndian dt cur = Some rest))"

lemma passedD:
  assumes "passed dt ts k" and "k \<le> np_depth it" and "tokens_from BigEndian dt (np_cur it) = Some (ts @ rest)"
  obtains cur where "node_property_scan BigEndian dt it = node_property_scan BigEndian dt (it\<lparr>np_cur := cur\<rparr>)" and "tokens_from BigEndian dt cur = Some rest"
  using assms unfolding passed_def by blast

lemma passed_Nil: "passed dt [] k"
proof -
  have "it\<lparr>np_cur := np_cur it\<rparr> = it" for it by simp
  then show ?thesis unfolding passed_def by (metis append_Nil)
qed

lemma passed_append: "passed dt xs k \<Longrightarrow> passed dt ys k \<Longrightarrow> passed dt (xs @ ys) k"
  unfolding passed_def
proof (intro allI impI)
  fix it :: NodePropertyIter and rest
  assume x: "\<forall>it rest. k \<le> np_depth it \<longrightarrow> tokens_from BigEndian dt (np_cur it) = Some (xs @ rest) \<longrightarrow>
     (\<exists>cur. node_property_scan BigEndian dt it = node_property_scan BigEndian dt (it\<lparr>np_cur := cur\<rparr>) \<and> tokens_from BigEndian dt cur = Some rest)"
    and y: "\<forall>it rest. k \<le> np_depth it \<longrightarrow> tokens_from BigEndian dt (np_cur it) = Some (ys @ rest) \<longrightarrow>
     (\<exists>cur. node_property_scan BigEndian dt it = node_property_scan BigEndian dt (it\<lparr>np_cur := cur\<rparr>) \<and> tokens_from BigEndian dt cur = Some rest)"
    and k: "k \<le> np_depth it" and t: "tokens_from BigEndian dt (np_cur it) = Some ((xs @ ys) @ rest)"
  obtain c1 where c1: "node_property_scan BigEndian dt it = node_property_scan BigEndian dt (it\<lparr>np_cur := c1\<rparr>)" "tokens_from BigEndian dt c1 = Some (ys @ rest)"
    using x k t by (metis append.assoc)
  obtain c2 where "node_property_scan BigEndian dt (it\<lparr>np_cur := c1\<rparr>) = node_property_scan BigEndian dt (it\<lparr>np_cur := c1, np_cur := c2\<rparr>)"
    "tokens_from BigEndian dt c2 = Some rest"
    using y [rule_format, of "it\<lparr>np_cur := c1\<rparr>" rest] c1(2) k by auto
  then show "\<exists>cur. node_property_scan BigEndian dt it = node_property_scan BigEndian dt (it\<lparr>np_cur := cur\<rparr>) \<and> tokens_from BigEndian dt cur = Some rest"
    using c1(1) by auto
qed

lemma passed_concat: "\<forall>c \<in> set cs. passed dt (f c) k \<Longrightarrow> passed dt (concat (map f cs)) k"
  by (induction cs) (auto intro: passed_Nil passed_append)

lemma passed_prop: "passed dt [Property n v] 2"
  unfolding passed_def
proof (intro allI impI)
  fix it :: NodePropertyIter and rest
  assume "2 \<le> np_depth it" "tokens_from BigEndian dt (np_cur it) = Some ([Property n v] @ rest)"
  then show "\<exists>cur. node_property_scan BigEndian dt it = node_property_scan BigEndian dt (it\<lparr>np_cur := cur\<rparr>) \<and> tokens_from BigEndian dt cur = Some rest"
    by (subst node_property_scan.simps) (auto simp: tokens_Cons)
qed

lemma passed_node: "passed dt (node_tokens t) 1"
proof (induction t)
  case (Node name ps cs)
  have c: "passed dt (node_tokens c) 2" if "c \<in> set cs" for c
    using Node that unfolding passed_def by (metis one_le_numeral order_trans)
  have "passed dt (concat (map (\<lambda>p. [prop_token p]) ps)) 2" by (rule passed_concat) (simp add: passed_prop)
  moreover have "passed dt (concat (map node_tokens cs)) 2" using c by (intro passed_concat) blast
  ultimately have b: "passed dt (map prop_token ps @ concat (map node_tokens cs)) 2"
    by (simp add: concat_map_singleton passed_append)
  show ?case unfolding passed_def
  proof (intro allI impI)
    fix it :: NodePropertyIter and rest
    assume d: "1 \<le> np_depth it" and "tokens_from BigEndian dt (np_cur it) = Some (node_tokens (Node name ps cs) @ rest)"
    then obtain o1 where o1: "next_token BigEndian dt (np_cur it) = Some (Some (StartNode name), o1)"
      "tokens_from BigEndian dt o1 = Some ((map prop_token ps @ concat (map node_tokens cs)) @ EndNode # rest)"
      by (auto simp: tokens_Cons)
    let ?it = "it\<lparr>np_cur := o1, np_depth := np_depth it + 1\<rparr>"
    have s1: "node_property_scan BigEndian dt it = node_property_scan BigEndian dt ?it" using o1(1) by (subst node_property_scan.simps) simp
    obtain o2 where o2: "node_property_scan BigEndian dt ?it = node_property_scan BigEndian dt (?it\<lparr>np_cur := o2\<rparr>)" "tokens_from BigEndian dt o2 = Some (EndNode # rest)"
      using passedD [OF b, of ?it "EndNode # rest"] o1(2) d by auto
    obtain o3 where o3: "next_token BigEndian dt o2 = Some (Some EndNode, o3)" "tokens_from BigEndian dt o3 = Some rest"
      using o2(2) by (auto simp: tokens_Cons)
    have "node_property_scan BigEndian dt (?it\<lparr>np_cur := o2\<rparr>) = node_property_scan BigEndian dt (it\<lparr>np_cur := o3\<rparr>)"
      using o3(1) d by (subst node_property_scan.simps) (simp add: sub_p_def)
    then show "\<exists>cur. node_property_scan BigEndian dt it = node_property_scan BigEndian dt (it\<lparr>np_cur := cur\<rparr>) \<and> tokens_from BigEndian dt cur = Some rest"
      using s1 o2(1) o3(2) by auto
  qed
qed

definition prop_value :: "nat \<Rightarrow> nat \<Rightarrow> bytes \<times> bytes \<Rightarrow> Value" where
  "prop_value ac sc p = the (parse_value BigEndian (fst p) (snd p) ac sc)"

lemma parse_value_ok: "prop_ok p \<Longrightarrow> parse_value BigEndian (fst p) (snd p) ac sc = Some (prop_value ac sc p)"
  by (auto simp: prop_value_def parse_value_def prop_ok_def)

text \<open>The iterator yields the properties of its node and nothing of the nodes below.\<close>

lemma properties_from_body:
  assumes "tokens_from BigEndian dt (np_cur it) = Some (map prop_token ps @ concat (map node_tokens cs) @ EndNode # rest)"
    and "\<forall>p \<in> set ps. prop_ok p" and "np_depth it = 1"
  shows "properties_from BigEndian dt it =
    Some (map (\<lambda>p. (fst p, prop_value (parent_address_cells it) (parent_size_cells it) p)) ps)"
  using assms
proof (induction ps arbitrary: it)
  case Nil
  have "passed dt (concat (map node_tokens cs)) 1" by (intro passed_concat ballI passed_node)
  then obtain cur where c: "node_property_scan BigEndian dt it = node_property_scan BigEndian dt (it\<lparr>np_cur := cur\<rparr>)"
    "tokens_from BigEndian dt cur = Some (EndNode # rest)" using passedD [of dt _ 1 it "EndNode # rest"] Nil by auto
  then obtain o1 where "next_token BigEndian dt cur = Some (Some EndNode, o1)" by (auto simp: tokens_Cons)
  then have "\<exists>it'. node_property_scan BigEndian dt (it\<lparr>np_cur := cur\<rparr>) = Some (None, it')"
    using Nil(3) by (subst node_property_scan.simps) (simp add: sub_p_def)
  then show ?case using c(1) Nil(3) by (subst properties_from.simps) (auto simp: node_property_next_def)
next
  case (Cons p ps)
  obtain o1 where o1: "next_token BigEndian dt (np_cur it) = Some (Some (prop_token p), o1)"
    "tokens_from BigEndian dt o1 = Some (map prop_token ps @ concat (map node_tokens cs) @ EndNode # rest)"
    using Cons.prems(1) by (auto simp: tokens_Cons)
  let ?it = "it\<lparr>np_cur := o1\<rparr>"
  have "node_property_next BigEndian dt it = Some (Some (fst p, prop_value (parent_address_cells it) (parent_size_cells it) p), ?it)"
    using o1(1) Cons.prems parse_value_ok [of p] by (simp add: node_property_next_def) (subst node_property_scan.simps, simp)
  then show ?case using Cons.IH [of ?it] o1(2) Cons.prems by (subst properties_from.simps) simp
qed

lemma find_in_properties_list:
  "properties_from BigEndian dt it = Some ps \<Longrightarrow> find_in_properties BigEndian dt it name = Some (map_of ps name)"
proof (induction ps arbitrary: it)
  case Nil
  then show ?case by (subst (asm) properties_from.simps, subst find_in_properties.simps) (auto split: bind_splits option.splits)
next
  case (Cons p ps)
  then obtain it' where "node_property_next BigEndian dt it = Some (Some p, it')" "properties_from BigEndian dt it' = Some ps"
    by (subst (asm) properties_from.simps) (auto split: bind_splits option.splits)
  then show ?case using Cons.IH [of it'] by (subst find_in_properties.simps) (auto split: prod.splits)
qed

text \<open>The blob holds the tree \<open>root\<close>: its structure block encodes the tokens of the tree, with
  any \<^verbatim>\<open>Nop\<close> tokens, and is followed by anything.\<close>

definition holds_tree :: "DeviceTree \<Rightarrow> node \<Rightarrow> bool" where
  "holds_tree dt root \<longleftrightarrow> node_ok root \<and> (\<exists>no ts k post. dt_structure dt = enc_structure no ts k @ post \<and>
     map snd ts = node_tokens root \<and> (\<forall>(n, t) \<in> set ts. token_ok (dt_strings dt) no t))"

lemma holds_tree_tokens: "holds_tree dt root \<Longrightarrow> node_ok root \<and> tokens_from BigEndian dt 0 = Some (node_tokens root)"
  unfolding holds_tree_def using tokens_from_enc by metis

definition values_of :: "node \<times> nat option \<times> nat option \<Rightarrow> (bytes \<times> Value) list" where
  "values_of x = (case x of (n, ac, sc) \<Rightarrow>
     map (\<lambda>p. (fst p, prop_value (unwrap_or ac 2) (unwrap_or sc 1) p)) (props n))"

lemma iter_node_properties_tree:
  assumes "holds_tree dt root"
  shows "case node_at root path of
      None \<Rightarrow> iter_node_properties BigEndian dt path = Some None
    | Some x \<Rightarrow> \<exists>it. iter_node_properties BigEndian dt path = Some (Some it) \<and> properties_from BigEndian dt it = Some (values_of x)"
proof -
  have h: "node_ok root" "tokens_from BigEndian dt 0 = Some (node_tokens root)" using holds_tree_tokens [OF assms] by auto
  note f = find_path_root [OF h(2,1), of path]
  show ?thesis
  proof (cases "node_at root path")
    case None
    then show ?thesis using f by (simp add: iter_node_properties_def iter_structure_def)
  next
    case (Some x)
    obtain m ac sc where x: "x = (m, ac, sc)" by (cases x) auto
    obtain off rest where o: "node_ok m" "tokens_from BigEndian dt off = Some (body_tokens m @ rest)"
      "find_path BigEndian dt 0 (hd (split_path path)) (tl (split_path path)) (None, None) = Some (Some (off, ac, sc))"
      using f Some x by auto
    let ?it = "\<lparr> np_cur = off, np_depth = 1, parent_address_cells = unwrap_or ac 2, parent_size_cells = unwrap_or sc 1 \<rparr>"
    have "iter_node_properties BigEndian dt path = Some (Some ?it)"
      using o(3) by (simp add: iter_node_properties_def iter_structure_def)
    moreover have "properties_from BigEndian dt ?it = Some (values_of x)"
      using properties_from_body [of dt ?it "props m" "children m" rest] o(2) node_ok_props [OF o(1)] x
      by (simp add: body_tokens_def values_of_def)
    ultimately show ?thesis using Some by auto
  qed
qed

text \<open>In a blob that holds a tree, the properties found for a path are exactly the properties of
  the node that the path names, in order, with the values that the parser gives them; a path
  that names no node yields nothing.  The search never panics.\<close>

lemma iter_node_properties_correct:
  assumes "big_endian bo" and "holds_tree dt root"
  shows "do { it \<leftarrow> iter_node_properties bo dt path;
      case it of None \<Rightarrow> Some None | Some it \<Rightarrow> do { ps \<leftarrow> properties_from bo dt it; Some (Some ps) } } =
    Some (map_option values_of (node_at root path))"
  unfolding big_endian_eq [THEN iffD1, OF assms(1)]
  using iter_node_properties_tree [OF assms(2), of path] by (cases "node_at root path") auto

lemma takeWhile_rev_last:
  "c \<notin> set name \<Longrightarrow> takeWhile (\<lambda>x. x \<noteq> c) (rev (dir @ c # name)) = rev name"
  by (simp, subst takeWhile_append2) auto

lemma find_property_tree:
  assumes "holds_tree dt root" and "CHR ''/'' \<notin> set name"
  shows "find_property BigEndian dt (dir @ ''/'' @ name) =
    Some (case node_at root (dir @ ''/'') of None \<Rightarrow> None | Some x \<Rightarrow> map_of (values_of x) name)"
proof -
  have l: "length (takeWhile (\<lambda>x. x \<noteq> CHR ''/'') (rev (dir @ ''/'' @ name))) = length name"
    using takeWhile_rev_last [OF assms(2), of dir] by simp
  have "find_property BigEndian dt (dir @ ''/'' @ name) = do {
      it \<leftarrow> iter_node_properties BigEndian dt (dir @ ''/'');
      case it of None \<Rightarrow> Some None | Some it \<Rightarrow> find_in_properties BigEndian dt it name }"
    unfolding find_property_def l by simp
  then show ?thesis using iter_node_properties_tree [OF assms(1), of "dir @ ''/''"] find_in_properties_list [of dt]
    by (cases "node_at root (dir @ ''/'')") auto
qed

text \<open>C18: \<^verbatim>\<open>find_property\<close> with the path of a node, a slash and a name returns the value of the first
  property of that node with the name.\<close>

theorem find_property_correct:
  assumes "big_endian bo" and "holds_tree dt root" and "CHR ''/'' \<notin> set name"
  shows "find_property bo dt (dir @ ''/'' @ name) =
    Some (case node_at root (dir @ ''/'') of None \<Rightarrow> None | Some x \<Rightarrow> map_of (values_of x) name)"
  using find_property_tree [OF assms(2,3)] unfolding big_endian_eq [THEN iffD1, OF assms(1)] .

section \<open>Children by name\<close>

definition named :: "bytes \<Rightarrow> node \<Rightarrow> bool" where
  "named name c \<longleftrightarrow> fst (split_node_name (label c)) = name"

definition item_view :: "ByteOrder \<Rightarrow> DeviceTree \<Rightarrow> NodeItem \<Rightarrow> bytes option \<times> (bytes \<times> Value) list option" where
  "item_view bo dt i = (unit_address i, properties_from bo dt (properties i))"

definition child_view :: "nat \<Rightarrow> nat \<Rightarrow> node \<Rightarrow> bytes option \<times> (bytes \<times> Value) list option" where
  "child_view ac sc c = (snd (split_node_name (label c)), Some (values_of (c, Some ac, Some sc)))"

lemma nodes_from_children:
  assumes "tokens_from BigEndian dt (nn_cur it) = Some (concat (map node_tokens cs) @ EndNode # rest)"
    and "nn_depth it = 1" and "\<forall>c \<in> set cs. node_ok c"
  shows "\<exists>items. nodes_from BigEndian dt it = Some items \<and> map (item_view BigEndian dt) items =
    map (child_view (nn_address_cells it) (nn_size_cells it)) (filter (named (node_name it)) cs)"
  using assms
proof (induction cs arbitrary: it)
  case Nil
  then obtain o1 where "next_token BigEndian dt (nn_cur it) = Some (Some EndNode, o1)" by (auto simp: tokens_Cons)
  then have "\<exists>it'. nodes_named_next BigEndian dt it = Some (None, it')"
    using nodes_named_end_node [of BigEndian dt it o1] Nil(2) by (simp add: sub_p_def)
  then show ?case by (subst nodes_from.simps) auto
next
  case (Cons c cs)
  let ?rest = "concat (map node_tokens cs) @ EndNode # rest"
  obtain o1 where o1: "next_token BigEndian dt (nn_cur it) = Some (Some (StartNode (label c)), o1)"
    "tokens_from BigEndian dt o1 = Some (body_tokens c @ ?rest)"
    using Cons.prems by (auto simp: node_tokens_body [of c] tokens_Cons)
  obtain o2 where o2: "skip_node BigEndian dt o1 1 = Some o2" "tokens_from BigEndian dt o2 = Some ?rest" using skip_body [OF o1(2)] by blast
  obtain nm ua where s: "split_node_name (label c) = (nm, ua)" by fastforce
  let ?it = "it\<lparr>nn_cur := o2\<rparr>"
  obtain items where i: "nodes_from BigEndian dt ?it = Some items" "map (item_view BigEndian dt) items =
      map (child_view (nn_address_cells it) (nn_size_cells it)) (filter (named (node_name it)) cs)"
    using Cons.IH [of ?it] o2(2) Cons.prems by auto
  note st = nodes_named_start [OF o1(1) s]
  show ?case
  proof (cases "nm = node_name it")
    case False
    then have "nodes_named_next BigEndian dt it = nodes_named_next BigEndian dt ?it" using st o2(1) by simp
    then have "nodes_from BigEndian dt it = nodes_from BigEndian dt ?it" by (subst (1 2) nodes_from.simps) simp
    then show ?thesis using i False s by (simp add: named_def [of "node_name it" c])
  next
    case True
    let ?p = "\<lparr> np_cur = o1, np_depth = 1, parent_address_cells = nn_address_cells it, parent_size_cells = nn_size_cells it \<rparr>"
    have "nodes_named_next BigEndian dt it = Some (Some \<lparr> unit_address = ua, properties = ?p \<rparr>, ?it)" using st o2(1) True by simp
    then have n: "nodes_from BigEndian dt it = Some (\<lparr> unit_address = ua, properties = ?p \<rparr> # items)"
      using i(1) by (subst nodes_from.simps) simp
    have "properties_from BigEndian dt ?p = Some (values_of (c, Some (nn_address_cells it), Some (nn_size_cells it)))"
      using properties_from_body [of dt ?p "props c" "children c" ?rest] o1(2) node_ok_props [of c] Cons.prems(3)
      by (simp add: body_tokens_def values_of_def unwrap_or_def)
    then have "item_view BigEndian dt \<lparr> unit_address = ua, properties = ?p \<rparr> = child_view (nn_address_cells it) (nn_size_cells it) c"
      using s by (simp add: item_view_def child_view_def)
    then show ?thesis using n i(2) True s by (simp add: named_def [of "node_name it" c])
  qed
qed

lemma nodes_named_props:
  assumes "tokens_from BigEndian dt (nn_cur it) = Some (map prop_token ps @ rest)" and "\<forall>p \<in> set ps. prop_ok p"
  shows "\<exists>cur. tokens_from BigEndian dt cur = Some rest \<and> nodes_named_next BigEndian dt it = nodes_named_next BigEndian dt (it\<lparr>nn_cur := cur,
      nn_address_cells := unwrap_or (fst (fold set_cells ps (Some (nn_address_cells it), Some (nn_size_cells it)))) 2,
      nn_size_cells := unwrap_or (snd (fold set_cells ps (Some (nn_address_cells it), Some (nn_size_cells it)))) 1\<rparr>)"
  using assms
proof (induction ps arbitrary: it)
  case Nil
  then show ?case by (intro exI [of _ "nn_cur it"]) (simp add: unwrap_or_def)
next
  case (Cons p ps)
  obtain o1 where o1: "next_token BigEndian dt (nn_cur it) = Some (Some (prop_token p), o1)"
    "tokens_from BigEndian dt o1 = Some (map prop_token ps @ rest)" using Cons.prems(1) by (auto simp: tokens_Cons)
  let ?c = "set_cells p (Some (nn_address_cells it), Some (nn_size_cells it))"
  let ?it = "it\<lparr>nn_cur := o1, nn_address_cells := the (fst ?c), nn_size_cells := the (snd ?c)\<rparr>"
  have c: "(Some (nn_address_cells ?it), Some (nn_size_cells ?it)) = ?c" by (simp add: set_cells_def)
  have "nodes_named_next BigEndian dt it = nodes_named_next BigEndian dt ?it"
    using nodes_named_property [OF o1(1)] Cons.prems(2) by (simp add: set_cells_def prop_ok_def)
  then show ?case using Cons.IH [of ?it, unfolded c] o1(2) Cons.prems(2) by auto
qed

definition defaulted :: "nat \<Rightarrow> nat \<Rightarrow> nat option \<times> nat option \<Rightarrow> nat option \<times> nat option" where
  "defaulted a b cells = (Some (unwrap_or (fst cells) a), Some (unwrap_or (snd cells) b))"

lemma fold_defaulted: "fold set_cells ps (defaulted a b cells) = defaulted a b (fold set_cells ps cells)"
proof (induction ps arbitrary: cells)
  case (Cons p ps)
  have "set_cells p (defaulted a b cells) = defaulted a b (set_cells p cells)"
    by (simp add: set_cells_def defaulted_def unwrap_or_def)
  then show ?case using Cons by simp
qed simp

lemma unwrap_or_fold:
  "unwrap_or (fst (fold set_cells ps (Some (unwrap_or ac a), Some (unwrap_or sc b)))) a = unwrap_or (fst (fold set_cells ps (ac, sc))) a"
  "unwrap_or (snd (fold set_cells ps (Some (unwrap_or ac a), Some (unwrap_or sc b)))) b = unwrap_or (snd (fold set_cells ps (ac, sc))) b"
proof -
  have u: "unwrap_or (Some x) y = x" for x y :: nat by (simp add: unwrap_or_def)
  note d = fold_defaulted [of ps a b "(ac, sc)", unfolded defaulted_def fst_conv snd_conv]
  show "unwrap_or (fst (fold set_cells ps (Some (unwrap_or ac a), Some (unwrap_or sc b)))) a = unwrap_or (fst (fold set_cells ps (ac, sc))) a"
    "unwrap_or (snd (fold set_cells ps (Some (unwrap_or ac a), Some (unwrap_or sc b)))) b = unwrap_or (snd (fold set_cells ps (ac, sc))) b"
    unfolding d by (simp_all add: u)
qed

lemma iter_nodes_named_tree:
  assumes "holds_tree dt root"
  shows "case node_at root path of
      None \<Rightarrow> iter_nodes_named BigEndian dt path name = Some None
    | Some (n, cells) \<Rightarrow> \<exists>it items. iter_nodes_named BigEndian dt path name = Some (Some it) \<and>
        nodes_from BigEndian dt it = Some items \<and>
        map (item_view BigEndian dt) items =
          map (child_view (unwrap_or (fst (fold set_cells (props n) cells)) 2)
                 (unwrap_or (snd (fold set_cells (props n) cells)) 1)) (filter (named name) (children n))"
proof -
  have h: "node_ok root" "tokens_from BigEndian dt 0 = Some (node_tokens root)" using holds_tree_tokens [OF assms] by auto
  note f = find_path_root [OF h(2,1), of path]
  show ?thesis
  proof (cases "node_at root path")
    case None
    then show ?thesis using f by (simp add: iter_nodes_named_def iter_structure_def)
  next
    case (Some x)
    obtain n ac sc where x: "x = (n, ac, sc)" by (cases x) auto
    obtain off rest where o: "node_ok n" "tokens_from BigEndian dt off = Some (body_tokens n @ rest)"
      "find_path BigEndian dt 0 (hd (split_path path)) (tl (split_path path)) (None, None) = Some (Some (off, ac, sc))"
      using f Some x by auto
    let ?it = "\<lparr> nn_cur = off, nn_depth = 1, node_name = name, nn_address_cells = unwrap_or ac 2, nn_size_cells = unwrap_or sc 1 \<rparr>"
    have i: "iter_nodes_named BigEndian dt path name = Some (Some ?it)"
      using o(3) by (simp add: iter_nodes_named_def iter_structure_def)
    have "\<exists>cur. tokens_from BigEndian dt cur = Some (concat (map node_tokens (children n)) @ EndNode # rest) \<and>
        nodes_named_next BigEndian dt ?it = nodes_named_next BigEndian dt (?it\<lparr>nn_cur := cur,
          nn_address_cells := unwrap_or (fst (fold set_cells (props n) (Some (nn_address_cells ?it), Some (nn_size_cells ?it)))) 2,
          nn_size_cells := unwrap_or (snd (fold set_cells (props n) (Some (nn_address_cells ?it), Some (nn_size_cells ?it)))) 1\<rparr>)"
      using o(2) node_ok_props [OF o(1)] by (intro nodes_named_props) (auto simp: body_tokens_def)
    then obtain cur where c: "tokens_from BigEndian dt cur = Some (concat (map node_tokens (children n)) @ EndNode # rest)"
      and e: "nodes_named_next BigEndian dt ?it = nodes_named_next BigEndian dt (?it\<lparr>nn_cur := cur,
          nn_address_cells := unwrap_or (fst (fold set_cells (props n) (ac, sc))) 2,
          nn_size_cells := unwrap_or (snd (fold set_cells (props n) (ac, sc))) 1\<rparr>)"
      by (auto simp: unwrap_or_fold)
    let ?it2 = "?it\<lparr>nn_cur := cur, nn_address_cells := unwrap_or (fst (fold set_cells (props n) (ac, sc))) 2,
          nn_size_cells := unwrap_or (snd (fold set_cells (props n) (ac, sc))) 1\<rparr>"
    have "nodes_from BigEndian dt ?it = nodes_from BigEndian dt ?it2" using e by (subst (1 2) nodes_from.simps) simp
    moreover obtain items where "nodes_from BigEndian dt ?it2 = Some items" "map (item_view BigEndian dt) items =
        map (child_view (nn_address_cells ?it2) (nn_size_cells ?it2)) (filter (named (node_name ?it2)) (children n))"
      using nodes_from_children [of dt ?it2 "children n" rest] c node_ok_children [OF o(1)] by auto
    ultimately show ?thesis using i Some x by auto
  qed
qed


section \<open>Register and string lists\<close>

fun enc_cells :: "nat \<Rightarrow> nat \<Rightarrow> bytes" where
  "enc_cells 0 v = []"
| "enc_cells (Suc n) v = be32 (v div 2 ^ (32 * n)) @ enc_cells n v"

partial_function (option) registers_from :: "ByteOrder \<Rightarrow> Registers \<Rightarrow> usize \<Rightarrow> (nat \<times> nat) list panics" where
  "registers_from bo regs offset = do {
     (item, offset') \<leftarrow> registers_next bo regs offset;
     case item of None \<Rightarrow> Some [] | Some r \<Rightarrow> do { rs \<leftarrow> registers_from bo regs offset'; Some (r # rs) }
   }"

lemma length_enc_cells [simp]: "length (enc_cells n v) = 4 * n"
  by (induction n) auto

lemma read_cells_enc:
  assumes "drop off data = enc_cells n v @ r" and "n \<le> 2" and "v < 2 ^ (32 * n)" and "off \<le> length data"
  shows "read_cells BigEndian data n off 0 = Some (Inr v, off + 4 * n)"
proof -
  have w: "off + 4 \<le> length data" "be_value (take 4 (drop off data)) = x mod 2 ^ 32" "drop (off + 4) data = zs"
    if "drop off data = be32 x @ zs" for off x zs
  proof -
    have "be32 x \<noteq> []" by (simp add: be32_def)
    note a = at_offset [OF that this, unfolded length_be32]
    show "off + 4 \<le> length data" "be_value (take 4 (drop off data)) = x mod 2 ^ 32" "drop (off + 4) data = zs"
      using a be_value_be32_mod by simp_all
  qed
  consider "n = 0" | "n = Suc 0" | "n = Suc (Suc 0)" using assms(2) by linarith
  then show ?thesis
  proof cases
    case 1
    then show ?thesis using assms(3) by simp
  next
    case 2
    then show ?thesis using w [of off v r] assms by simp
  next
    case 3
    have d: "drop off data = be32 (v div 2 ^ 32) @ be32 v @ r" using assms(1) 3 by simp
    note w1 = w [OF d] and w2 = w [OF w(3) [OF d]]
    have v: "v < 2 ^ 64" using assms(3) 3 by simp
    then have h: "v div 2 ^ 32 < 2 ^ 32" by (simp add: less_mult_imp_div_less)
    have "v div 2 ^ 32 * 2 ^ 32 \<le> v" using div_mult_mod_eq [of v "2 ^ 32"] by linarith
    then have "v div 2 ^ 32 * 2 ^ 32 mod 2 ^ 64 = v div 2 ^ 32 * 2 ^ 32" using v by simp
    then have "v div 2 ^ 32 * 2 ^ 32 mod 2 ^ 64 + v mod 2 ^ 32 = v" by (simp only: div_mult_mod_eq)
    then show ?thesis using w1 w2 h 3 by simp
  qed
qed

lemma registers_next_enc:
  assumes "drop off data = enc_cells ac a @ enc_cells sc s @ r" and "ac \<le> 2" and "sc \<le> 2" and "0 < ac + sc"
    and "a < 2 ^ (32 * ac)" and "s < 2 ^ (32 * sc)" and "off \<le> length data"
  shows "registers_next BigEndian \<lparr> reg_data = data, address_cells = ac, size_cells = sc \<rparr> off =
      Some (Some (a, s), off + 4 * ac + 4 * sc)"
    and "drop (off + 4 * ac + 4 * sc) data = r" and "off + 4 * ac + 4 * sc \<le> length data"
proof -
  have "length (drop off data) = 4 * ac + (4 * sc + length r)" unfolding assms(1) by simp
  then show l: "off + 4 * ac + 4 * sc \<le> length data" using assms(7) by auto
  then have nz: "off < length data" using assms(4) by auto
  have r1: "read_cells BigEndian data ac off 0 = Some (Inr a, off + 4 * ac)"
    using read_cells_enc [OF assms(1,2,5,7)] .
  have d2: "drop (off + 4 * ac) data = enc_cells sc s @ r"
    using drop_drop [of "4 * ac" off data] unfolding assms(1) by (simp add: add.commute)
  have r2: "read_cells BigEndian data sc (off + 4 * ac) 0 = Some (Inr s, off + 4 * ac + 4 * sc)"
    using read_cells_enc [OF d2 assms(3,6)] l by auto
  show "drop (off + 4 * ac + 4 * sc) data = r"
    using drop_drop [of "4 * sc" "off + 4 * ac" data] unfolding d2 by (simp add: add.commute)
  show "registers_next BigEndian \<lparr> reg_data = data, address_cells = ac, size_cells = sc \<rparr> off =
      Some (Some (a, s), off + 4 * ac + 4 * sc)"
    using nz r1 r2 by (simp add: registers_next_def)
qed

lemma registers_from_enc:
  assumes "ac \<le> 2" and "sc \<le> 2" and "0 < ac + sc" and "\<forall>(a, s) \<in> set rs. a < 2 ^ (32 * ac) \<and> s < 2 ^ (32 * sc)"
  shows "registers_from BigEndian \<lparr> reg_data = concat (map (\<lambda>(a, s). enc_cells ac a @ enc_cells sc s) rs),
      address_cells = ac, size_cells = sc \<rparr> 0 = Some rs"
proof -
  let ?enc = "\<lambda>rs. concat (map (\<lambda>(a, s). enc_cells ac a @ enc_cells sc s) rs)"
  define data where "data = ?enc rs"
  have "registers_from BigEndian \<lparr> reg_data = data, address_cells = ac, size_cells = sc \<rparr> off = Some rs"
    if "drop off data = ?enc rs" "off \<le> length data" "\<forall>(a, s) \<in> set rs. a < 2 ^ (32 * ac) \<and> s < 2 ^ (32 * sc)" for off rs
    using that
  proof (induction rs arbitrary: off)
    case Nil
    then show ?case by (subst registers_from.simps) (simp add: registers_next_def)
  next
    case (Cons p rs)
    obtain a s where p: "p = (a, s)" by fastforce
    have d: "drop off data = enc_cells ac a @ enc_cells sc s @ ?enc rs" using Cons.prems(1) p by simp
    note n = registers_next_enc [OF d assms(1-3) _ _ Cons.prems(2)]
    have as: "a < 2 ^ (32 * ac)" "s < 2 ^ (32 * sc)" using Cons.prems(3) p by auto
    show ?case using n(1) [OF as] Cons.IH [OF n(2,3) [OF as]] Cons.prems(3) p by (subst registers_from.simps) simp
  qed
  then show ?thesis using assms(4) by (simp add: data_def)
qed

text \<open>Iterating over a \<^verbatim>\<open>reg\<close> property that encodes a list of regions, with addresses and sizes of
  at most two cells, yields exactly these regions and ends.\<close>

lemma registers_roundtrip:
  assumes "big_endian bo" and "ac \<le> 2" and "sc \<le> 2" and "0 < ac + sc" and "\<forall>(a, s) \<in> set rs. a < 2 ^ (32 * ac) \<and> s < 2 ^ (32 * sc)"
  shows "registers_from bo \<lparr> reg_data = concat (map (\<lambda>(a, s). enc_cells ac a @ enc_cells sc s) rs),
      address_cells = ac, size_cells = sc \<rparr> 0 = Some rs"
  using registers_from_enc [OF assms(2,3,4,5)] unfolding big_endian_eq [THEN iffD1, OF assms(1)] .

lemma registers_roundtrip_example:
  "registers_from BigEndian \<lparr> reg_data = be32 0 @ be32 0x9000000 @ be32 0x1000, address_cells = 2, size_cells = 1 \<rparr> 0 = Some [(0x9000000, 0x1000)]"
proof -
  have c: "enc_cells n v = be32 (v div 2 ^ 32) @ be32 v" if "n = Suc (Suc 0)" for n v using that by simp
  have e: "enc_cells 2 v = be32 (v div 2 ^ 32) @ be32 v" for v by (rule c) simp
  have e1: "enc_cells 1 v = be32 v" for v by simp
  show ?thesis using registers_roundtrip [OF BigEndian_reads, of 2 1 "[(0x9000000, 0x1000)]", unfolded e e1] by simp
qed

function strings_from :: "bytes \<Rightarrow> usize \<Rightarrow> bytes list panics" where
  "strings_from data offset = do {
     (item, offset') \<leftarrow> string_list_next data offset;
     case item of None \<Rightarrow> Some [] | Some s \<Rightarrow> do { ss \<leftarrow> strings_from data offset'; Some (s # ss) }
   }"
  by pat_completeness auto
termination
  by (relation "measure (\<lambda>(data, offset). length data - offset)")
    (auto simp: string_list_next_def split: if_splits option.splits)

declare strings_from.simps [simp del]

definition enc_strings :: "bytes list \<Rightarrow> bytes" where
  "enc_strings ss = concat (map (\<lambda>s. s @ [nul]) ss)"

text \<open>iterating over an encoded list of strings yields exactly these strings.\<close>

lemma strings_roundtrip:
  assumes "\<forall>s \<in> set ss. nul \<notin> set s"
  shows "strings_from (enc_strings ss) 0 = Some ss"
proof -
  define data where "data = enc_strings ss"
  have "strings_from data off = Some ss" if "drop off data = enc_strings ss" "\<forall>s \<in> set ss. nul \<notin> set s" for off ss
    using that
  proof (induction ss arbitrary: off)
    case Nil
    then show ?case by (subst strings_from.simps) (simp add: string_list_next_def enc_strings_def)
  next
    case (Cons s ss)
    have d: "drop off data = (s @ [nul]) @ enc_strings ss" using Cons.prems(1) by (simp add: enc_strings_def)
    note a = at_offset [OF d]
    have "from_bytes_until_nul (drop off data) = Some s"
      unfolding d from_bytes_until_nul_def using Cons.prems(2) by (simp, subst takeWhile_append2) auto
    then have "string_list_next data off = Some (Some s, off + (length s + 1))"
      using a(1) by (simp add: string_list_next_def)
    then show ?case using Cons.IH [of "off + (length s + 1)"] a(3) Cons.prems(2) by (subst strings_from.simps) simp
  qed
  then show ?thesis using assms by (simp add: data_def)
qed

lemma strings_roundtrip_witness:
  "strings_from (''arm,cortex-a15-gic'' @ [nul] @ ''arm,gic-400'' @ [nul]) 0 = Some [''arm,cortex-a15-gic'', ''arm,gic-400'']"
  using strings_roundtrip [of "[''arm,cortex-a15-gic'', ''arm,gic-400'']"] by (simp add: enc_strings_def)

text \<open>\<^verbatim>\<open>StringList::contains\<close> does not compare whole strings: it is true exactly when the bytes occur
  anywhere in the list, also in the middle of a string, and panics for the empty string.\<close>

lemma contains_any_substring:
  "string_list_contains data s = (if s = [] then None else Some (\<exists>xs ys. data = xs @ s @ ys))"
proof (cases "s = []")
  case False
  have "(\<exists>i \<in> set [0..<length data + 1 - length s]. take (length s) (drop i data) = s) \<longleftrightarrow> (\<exists>xs ys. data = xs @ s @ ys)"
  proof
    assume "\<exists>i \<in> set [0..<length data + 1 - length s]. take (length s) (drop i data) = s"
    then obtain i where "take (length s) (drop i data) = s" by blast
    then have "data = take i data @ s @ drop (length s) (drop i data)" by (metis append_take_drop_id)
    then show "\<exists>xs ys. data = xs @ s @ ys" by blast
  next
    assume "\<exists>xs ys. data = xs @ s @ ys"
    then obtain xs ys where d: "data = xs @ s @ ys" by blast
    then have "take (length s) (drop (length xs) data) = s" "length xs \<in> set [0..<length data + 1 - length s]" by auto
    then show "\<exists>i \<in> set [0..<length data + 1 - length s]. take (length s) (drop i data) = s" by blast
  qed
  then show ?thesis using False by (simp add: string_list_contains_def)
qed (simp add: string_list_contains_def)

section \<open>A concrete tree\<close>

text \<open>A device on a bus that does not say how many cells its children use.\<close>

definition bus_tree :: node where
  "bus_tree = Node [] [(''#address-cells'', be32 1)] [Node ''bus'' [] [Node ''dev@5'' [(''reg'', be32 5 @ be32 7)] []]]"

definition bus_offsets :: "bytes \<Rightarrow> nat" where
  "bus_offsets name = (if name = ''reg'' then 15 else 0)"

definition bus_blob :: DeviceTree where
  "bus_blob = \<lparr> dt_header = \<lparr> buf = [] \<rparr>, dt_address = 0, dt_strings = ''#address-cells'' @ [nul] @ ''reg'' @ [nul],
     dt_structure = enc_structure bus_offsets (map (Pair 0) (node_tokens bus_tree)) 0, mem_map = [] \<rparr>"

lemma bus_blob_tree: "holds_tree bus_blob bus_tree"
  unfolding holds_tree_def
proof (intro conjI exI [of _ bus_offsets] exI [of _ "map (Pair 0) (node_tokens bus_tree)"] exI [of _ 0] exI [of _ "[]"])
  show "node_ok bus_tree" by (simp add: bus_tree_def prop_ok_def)
  show "dt_structure bus_blob = enc_structure bus_offsets (map (Pair 0) (node_tokens bus_tree)) 0 @ []"
    by (simp add: bus_blob_def)
  show "map snd (map (Pair 0) (node_tokens bus_tree)) = node_tokens bus_tree" by (simp add: comp_def)
  show "\<forall>(n, t) \<in> set (map (Pair 0) (node_tokens bus_tree)). token_ok (dt_strings bus_blob) bus_offsets t"
    by (simp add: bus_tree_def bus_blob_def bus_offsets_def)
qed

lemma bus_node: "node_at bus_tree ''/bus/dev@5/'' = Some (Node ''dev@5'' [(''reg'', be32 5 @ be32 7)] [], Some 1, None)"
proof -
  have "be_value (be32 1) = 1" by (simp add: be_value_be32)
  then show ?thesis by (simp add: node_at_def bus_tree_def set_cells_def)
qed

lemma bus_values:
  "values_of (Node ''dev@5'' [(''reg'', be32 5 @ be32 7)] [], Some 1, None) =
   [(''reg'', Reg \<lparr> reg_data = be32 5 @ be32 7, address_cells = 1, size_cells = 1 \<rparr>)]"
  by (simp add: values_of_def prop_value_def parse_value_def unwrap_or_def)

lemma iter_node_properties_correct_example:
  "do { it \<leftarrow> iter_node_properties BigEndian bus_blob ''/bus/dev@5/'';
      case it of None \<Rightarrow> Some None | Some it \<Rightarrow> do { ps \<leftarrow> properties_from BigEndian bus_blob it; Some (Some ps) } } =
   Some (Some [(''reg'', Reg \<lparr> reg_data = be32 5 @ be32 7, address_cells = 1, size_cells = 1 \<rparr>)])"
  using iter_node_properties_correct [OF BigEndian_reads bus_blob_tree, of "''/bus/dev@5/''"] by (simp only: bus_node option.map bus_values)

theorem find_property_correct_witness:
  "find_property BigEndian bus_blob ''/bus/dev@5/reg'' =
   Some (Some (Reg \<lparr> reg_data = be32 5 @ be32 7, address_cells = 1, size_cells = 1 \<rparr>))"
  using find_property_correct [OF BigEndian_reads bus_blob_tree, of "''reg''" "''/bus/dev@5''"] bus_node bus_values by simp


end
