(* ===== verification/Interrupts.thy ===== *)
theory Interrupts
  imports Scheduler Device_Tree_Lookup
begin

text \<open>
  The interrupt interfaces and the interrupt policy of \<^verbatim>\<open>kernel_core/src/exceptions/interrupt\<close>.
  A trait is the record of its operations on a state \<open>'s\<close>; \<^verbatim>\<open>Handler\<close> is the record of the
  three objects it refers to.  The loop of \<^verbatim>\<open>process_interrupts\<close> runs as long as the controller
  reports interrupts, so it is a partial function; \<open>None\<close> is a panic or a loop that never ends.
\<close>

section \<open>Interfaces\<close>

datatype TriggerMode = Level | Edge

record Config =
  priority :: nat
  mode :: TriggerMode

definition config_default :: Config where
  "config_default = \<lparr> priority = 0, mode = Level \<rparr>"

record 's Controller =
  global_initialize :: "'s \<Rightarrow> 's panics"
  initialize_for_core :: "'s \<Rightarrow> 's panics"
  interrupt_in_device_tree :: "bytes \<Rightarrow> usize \<Rightarrow> (nat \<times> TriggerMode) option panics"
  configure :: "nat \<Rightarrow> Config \<Rightarrow> 's \<Rightarrow> 's panics"
  enable :: "nat \<Rightarrow> 's \<Rightarrow> 's panics"
  disable :: "nat \<Rightarrow> 's \<Rightarrow> 's panics"
  clear_pending :: "nat \<Rightarrow> 's \<Rightarrow> 's panics"
  ack_interrupt :: "'s \<Rightarrow> (nat option \<times> 's) panics"
  finish_interrupt :: "nat \<Rightarrow> 's \<Rightarrow> 's panics"

record 's SystemTimer =
  interrupt_id :: nat
  timer_reset :: "'s \<Rightarrow> 's panics"

record 's Handler =
  controller :: "'s Controller"
  timer :: "'s SystemTimer"
  scheduler_slice :: "'s \<Rightarrow> 's panics"

datatype HandlerError = UnknownInterrupt nat

definition handler_new :: "'s Controller \<Rightarrow> 's SystemTimer \<Rightarrow> ('s \<Rightarrow> 's panics) \<Rightarrow> 's Handler" where
  "handler_new ctrl tm sched = \<lparr> controller = ctrl, timer = tm, scheduler_slice = sched \<rparr>"

section \<open>The interrupt policy\<close>

partial_function (option) process_interrupts :: "'s Handler \<Rightarrow> 's \<Rightarrow> ((HandlerError + unit) \<times> 's) panics" where
  "process_interrupts h s = do {
     (r, s) \<leftarrow> ack_interrupt (controller h) s;
     case r of
       None \<Rightarrow> Some (Inr (), s)
     | Some int_id \<Rightarrow>
         if int_id = interrupt_id (timer h) then do {
           s \<leftarrow> scheduler_slice h s;
           s \<leftarrow> timer_reset (timer h) s;
           s \<leftarrow> finish_interrupt (controller h) int_id s;
           process_interrupts h s
         }
         else Some (Inl (UnknownInterrupt int_id), s)
   }"

declare process_interrupts.simps [simp del]

text \<open>What the policy relies on: a controller that reports the pending interrupts one after the
  other and then none, and a timer and a scheduler that return.  \<open>view\<close> is what a client observes
  of the state; \<open>taken\<close>, \<open>sliced\<close> and \<open>finished\<close> say how the operations change it.\<close>

locale interrupt_policy =
  fixes h :: "'s Handler" and inv :: "'s \<Rightarrow> bool" and pending :: "'s \<Rightarrow> nat list" and view :: "'s \<Rightarrow> 'v"
    and taken :: "nat \<Rightarrow> 'v \<Rightarrow> 'v" and sliced :: "'v \<Rightarrow> 'v" and finished :: "nat \<Rightarrow> 'v \<Rightarrow> 'v"
  assumes ack_none: "inv s \<Longrightarrow> pending s = [] \<Longrightarrow>
      \<exists>s'. ack_interrupt (controller h) s = Some (None, s') \<and> inv s' \<and> view s' = view s"
    and ack_some: "inv s \<Longrightarrow> pending s = i # is \<Longrightarrow>
      \<exists>s'. ack_interrupt (controller h) s = Some (Some i, s') \<and> inv s' \<and> pending s' = is \<and> view s' = taken i (view s)"
    and slice_step: "inv s \<Longrightarrow>
      \<exists>s'. scheduler_slice h s = Some s' \<and> inv s' \<and> pending s' = pending s \<and> view s' = sliced (view s)"
    and reset_step: "inv s \<Longrightarrow>
      \<exists>s'. timer_reset (timer h) s = Some s' \<and> inv s' \<and> pending s' = pending s \<and> view s' = view s"
    and finish_step: "inv s \<Longrightarrow>
      \<exists>s'. finish_interrupt (controller h) i s = Some s' \<and> inv s' \<and> pending s' = pending s \<and> view s' = finished i (view s)"
begin

definition tick :: "'v \<Rightarrow> 'v" where
  "tick v = finished (interrupt_id (timer h)) (sliced (taken (interrupt_id (timer h)) v))"

lemma timer_round:
  assumes "inv s" and "pending s = interrupt_id (timer h) # is"
  shows "\<exists>s'. process_interrupts h s = process_interrupts h s' \<and> inv s' \<and> pending s' = is \<and> view s' = tick (view s)"
proof -
  obtain s1 where s1: "ack_interrupt (controller h) s = Some (Some (interrupt_id (timer h)), s1)" "inv s1"
    "pending s1 = is" "view s1 = taken (interrupt_id (timer h)) (view s)"
    using ack_some [OF assms] by blast
  obtain s2 where s2: "scheduler_slice h s1 = Some s2" "inv s2" "pending s2 = is" "view s2 = sliced (view s1)"
    using slice_step [OF s1(2)] s1(3) by auto
  obtain s3 where s3: "timer_reset (timer h) s2 = Some s3" "inv s3" "pending s3 = is" "view s3 = view s2"
    using reset_step [OF s2(2)] s2(3) by auto
  obtain s4 where s4: "finish_interrupt (controller h) (interrupt_id (timer h)) s3 = Some s4" "inv s4" "pending s4 = is"
    "view s4 = finished (interrupt_id (timer h)) (view s3)"
    using finish_step [OF s3(2)] s3(3) by auto
  have "process_interrupts h s = process_interrupts h s4"
    using s1(1) s2(1) s3(1) s4(1) by (subst process_interrupts.simps) simp
  then show ?thesis using s1 s2 s3 s4 by (auto simp: tick_def)
qed

lemma timer_rounds:
  "inv s \<Longrightarrow> pending s = replicate n (interrupt_id (timer h)) @ is \<Longrightarrow>
   \<exists>s'. process_interrupts h s = process_interrupts h s' \<and> inv s' \<and> pending s' = is \<and> view s' = (tick ^^ n) (view s)"
proof (induction n arbitrary: s)
  case (Suc n)
  then obtain s1 where s1: "process_interrupts h s = process_interrupts h s1" "inv s1"
    "pending s1 = replicate n (interrupt_id (timer h)) @ is" "view s1 = tick (view s)"
    using timer_round [OF Suc.prems(1)] by fastforce
  then show ?case using Suc.IH [OF s1(2,3)] by (simp add: funpow_Suc_right del: funpow.simps)
qed auto

lemma all_handled:
  assumes "inv s" and "pending s = replicate n (interrupt_id (timer h))"
  shows "\<exists>s'. process_interrupts h s = Some (Inr (), s') \<and> inv s' \<and> view s' = (tick ^^ n) (view s)"
proof -
  obtain s1 where s1: "process_interrupts h s = process_interrupts h s1" "inv s1" "pending s1 = []" "view s1 = (tick ^^ n) (view s)"
    using timer_rounds [OF assms(1), of n "[]"] assms(2) by auto
  obtain s2 where "ack_interrupt (controller h) s1 = Some (None, s2)" "inv s2" "view s2 = view s1"
    using ack_none [OF s1(2,3)] by blast
  moreover from this(1) have "process_interrupts h s1 = Some (Inr (), s2)" by (subst process_interrupts.simps) simp
  ultimately show ?thesis using s1 by auto
qed

lemma unknown_reported:
  assumes "inv s" and "pending s = replicate n (interrupt_id (timer h)) @ i # is" and "i \<noteq> interrupt_id (timer h)"
  shows "\<exists>s'. process_interrupts h s = Some (Inl (UnknownInterrupt i), s') \<and> inv s' \<and> pending s' = is \<and>
    view s' = taken i ((tick ^^ n) (view s))"
proof -
  obtain s1 where s1: "process_interrupts h s = process_interrupts h s1" "inv s1" "pending s1 = i # is"
    "view s1 = (tick ^^ n) (view s)"
    using timer_rounds [OF assms(1,2)] by blast
  obtain s2 where "ack_interrupt (controller h) s1 = Some (Some i, s2)" "inv s2" "pending s2 = is" "view s2 = taken i (view s1)"
    using ack_some [OF s1(2,3)] by blast
  moreover from this(1) have "process_interrupts h s1 = Some (Inl (UnknownInterrupt i), s2)"
    using assms(3) by (subst process_interrupts.simps) simp
  ultimately show ?thesis using s1 by auto
qed

end

end
