(* ===== verification/Virt_Tree.thy ===== *)
theory Virt_Tree
  imports Device_Tree_Lookup
begin

text \<open>
  A concrete device tree: the nodes that the kernel reads, as the \<^verbatim>\<open>virt\<close> machine of QEMU has
  them with two cores.  The drivers are applied to it.
\<close>

definition virt_psci :: node where
  "virt_psci = Node ''psci'' [(''method'', ''hvc'' @ [nul]), (''cpu_on'', be32 0xc4000003)] []"

definition virt_timer :: node where
  "virt_timer = Node ''timer''
     [(''interrupts'', be32 1 @ be32 13 @ be32 0x104 @ be32 1 @ be32 14 @ be32 0x104),
      (''compatible'', enc_strings [''arm,armv8-timer'', ''arm,armv7-timer''])] []"

definition virt_intc :: node where
  "virt_intc = Node ''intc@8000000''
     [(''compatible'', enc_strings [''arm,cortex-a15-gic'']),
      (''#interrupt-cells'', [nul, nul, nul, CHR 0x03]),
      (''interrupt-controller'', []),
      (''reg'', be64 0x8000000 @ be64 0x10000 @ be64 0x8010000 @ be64 0x10000)] []"

definition virt_cpu :: "bytes \<Rightarrow> nat \<Rightarrow> node" where
  "virt_cpu name n = Node name [(''reg'', be32 n), (''enable-method'', ''psci'' @ [nul])] []"

definition virt_cpus :: node where
  "virt_cpus = Node ''cpus'' [(''#address-cells'', be32 1), (''#size-cells'', be32 0)]
     [virt_cpu ''cpu@0'' 0, virt_cpu ''cpu@1'' 1]"

definition virt_memory :: node where
  "virt_memory = Node ''memory@40000000'' [(''reg'', be64 0x40000000 @ be64 0x8000000)] []"

definition virt_uart :: node where
  "virt_uart = Node ''pl011@9000000'' [(''reg'', be64 0x9000000 @ be64 0x1000)] []"

definition virt_chosen :: node where
  "virt_chosen = Node ''chosen'' [(''stdout-path'', ''/pl011@9000000'' @ [nul])] []"

definition virt_tree :: node where
  "virt_tree = Node [] [(''#address-cells'', be32 2), (''#size-cells'', be32 2)]
     [virt_psci, virt_timer, virt_memory, virt_cpus, virt_intc, virt_uart, virt_chosen]"

definition virt_names :: "bytes list" where
  "virt_names = [''method'', ''cpu_on'', ''interrupts'', ''compatible'', ''#interrupt-cells'', ''interrupt-controller'',
     ''reg'', ''enable-method'', ''#address-cells'', ''#size-cells'', ''stdout-path'']"

fun name_offset :: "bytes list \<Rightarrow> bytes \<Rightarrow> nat" where
  "name_offset [] name = 0"
| "name_offset (x # xs) name = (if x = name then 0 else length x + 1 + name_offset xs name)"

text \<open>The blob, as the loader leaves it in memory: the header, the empty list of reserved memory, the structure
  and the strings.\<close>

definition virt_structure :: bytes where
  "virt_structure = enc_structure (name_offset virt_names) (map (Pair 0) (node_tokens virt_tree)) 0"

definition virt_header :: bytes where
  "virt_header = be32 0xd00dfeed @ be32 (56 + length virt_structure + length (enc_strings virt_names)) @ be32 56 @
     be32 (56 + length virt_structure) @ be32 40 @ be32 17 @ be32 16 @ be32 0 @
     be32 (length (enc_strings virt_names)) @ be32 (length virt_structure)"

definition virt_bytes :: bytes where
  "virt_bytes = virt_header @ replicate 16 nul @ virt_structure @ enc_strings virt_names"

definition virt_blob :: DeviceTree where
  "virt_blob = \<lparr> dt_header = \<lparr> buf = virt_header \<rparr>, dt_address = 0xffff000044000000, dt_strings = enc_strings virt_names,
     dt_structure = virt_structure, mem_map = replicate 16 nul \<rparr>"

lemma name_offset_at:
  assumes "name \<in> set names" and "\<forall>s \<in> set names. nul \<notin> set s"
  shows "takeWhile (\<lambda>b. b \<noteq> nul) (drop (name_offset names name) (enc_strings names)) = name"
    and "name_offset names name \<le> length (enc_strings names)"
proof -
  have "takeWhile (\<lambda>b. b \<noteq> nul) (drop (name_offset names name) (enc_strings names)) = name \<and>
      name_offset names name \<le> length (enc_strings names)"
    using assms
  proof (induction names)
    case (Cons x xs)
    have e: "enc_strings (x # xs) = x @ nul # enc_strings xs" by (simp add: enc_strings_def)
    show ?case
    proof (cases "x = name")
      case True
      then have "takeWhile (\<lambda>b. b \<noteq> nul) (name @ nul # enc_strings xs) = name"
        using Cons.prems(2) by (subst takeWhile_append2) auto
      then show ?thesis using True e by simp
    next
      case False
      then show ?thesis using Cons e by simp
    qed
  qed simp
  then show "takeWhile (\<lambda>b. b \<noteq> nul) (drop (name_offset names name) (enc_strings names)) = name"
    and "name_offset names name \<le> length (enc_strings names)" by auto
qed

lemma virt_token_ok:
  "token_ok (enc_strings virt_names) (name_offset virt_names) (Property name data) \<longleftrightarrow> length data < 2 ^ 32"
  if "name \<in> set virt_names"
proof -
  have "\<forall>s \<in> set virt_names. nul \<notin> set s" by (simp add: virt_names_def)
  note n = name_offset_at [OF that this]
  have "length (enc_strings virt_names) < 2 ^ 32" by (simp add: virt_names_def enc_strings_def)
  then show ?thesis using n by simp
qed

lemma virt_names_mem [simp]:
  "''method'' \<in> set virt_names" "''cpu_on'' \<in> set virt_names" "''interrupts'' \<in> set virt_names"
  "''compatible'' \<in> set virt_names" "''#interrupt-cells'' \<in> set virt_names" "''interrupt-controller'' \<in> set virt_names"
  "''reg'' \<in> set virt_names" "''enable-method'' \<in> set virt_names" "''#address-cells'' \<in> set virt_names"
  "''#size-cells'' \<in> set virt_names" "''stdout-path'' \<in> set virt_names"
  by (simp_all add: virt_names_def)

lemmas virt_defs = virt_tree_def virt_psci_def virt_timer_def virt_intc_def virt_cpu_def virt_cpus_def virt_memory_def
  virt_uart_def virt_chosen_def

lemma virt_blob_tree: "holds_tree virt_blob virt_tree"
  unfolding holds_tree_def
proof (intro conjI exI [of _ "name_offset virt_names"] exI [of _ "map (Pair 0) (node_tokens virt_tree)"] exI [of _ 0] exI [of _ "[]"])
  show "node_ok virt_tree" by (simp add: virt_defs prop_ok_def)
  show "dt_structure virt_blob = enc_structure (name_offset virt_names) (map (Pair 0) (node_tokens virt_tree)) 0 @ []"
    by (simp add: virt_blob_def virt_structure_def)
  show "map snd (map (Pair 0) (node_tokens virt_tree)) = node_tokens virt_tree" by (simp add: comp_def)
  show "\<forall>(n, t) \<in> set (map (Pair 0) (node_tokens virt_tree)). token_ok (dt_strings virt_blob) (name_offset virt_names) t"
    by (simp add: virt_defs virt_blob_def virt_token_ok enc_strings_def [of "[_]"] enc_strings_def [of "[_, _]"]
        del: token_ok.simps(3))
qed

lemma be32_cells [simp]: "be_value (be32 0) = 0" "be_value (be32 1) = 1" "be_value (be32 2) = 2" "be_value (be32 (Suc 0)) = 1"
  by (simp_all add: be_value_be32 [of "Suc 0"] be_value_be32)

lemma virt_node_at:
  "node_at virt_tree ''/'' = Some (virt_tree, None, None)"
  "node_at virt_tree ''/psci'' = Some (virt_psci, Some 2, Some 2)"
  "node_at virt_tree ''/timer'' = Some (virt_timer, Some 2, Some 2)"
  "node_at virt_tree ''/cpus'' = Some (virt_cpus, Some 2, Some 2)"
  "node_at virt_tree ''/chosen'' = Some (virt_chosen, Some 2, Some 2)"
  "node_at virt_tree ''/pl011@9000000'' = Some (virt_uart, Some 2, Some 2)"
  by (simp_all add: node_at_def virt_defs set_cells_def)

text \<open>The properties of a node of the tree, and of the first child with a name.\<close>

lemma virt_properties:
  assumes "node_at virt_tree path = Some x"
  obtains it where "iter_node_properties BigEndian virt_blob path = Some (Some it)"
    "properties_from BigEndian virt_blob it = Some (values_of x)"
  using iter_node_properties_tree [OF virt_blob_tree, of path] assms by auto

text \<open>The only node below the root with a name.\<close>

lemma virt_root_child:
  assumes "filter (named name) (children virt_tree) = [c]"
  obtains it n it' where "iter_nodes_named BigEndian virt_blob ''/'' name = Some (Some it)" "nodes_from BigEndian virt_blob it = Some [n]"
    "nodes_named_next BigEndian virt_blob it = Some (Some n, it')"
    "properties_from BigEndian virt_blob (properties n) = Some (values_of (c, Some 2, Some 2))"
proof -
  have "fold set_cells (props virt_tree) (None, None) = (Some 2, Some 2)" by (simp add: virt_tree_def set_cells_def)
  then obtain it items where it: "iter_nodes_named BigEndian virt_blob ''/'' name = Some (Some it)"
    "nodes_from BigEndian virt_blob it = Some items"
    "map (item_view BigEndian virt_blob) items = map (child_view 2 2) [c]"
    using iter_nodes_named_tree [OF virt_blob_tree, of "''/''" name] unfolding assms [symmetric] virt_node_at(1)
    by (auto simp: unwrap_or_def)
  then obtain n where n: "items = [n]" "properties_from BigEndian virt_blob (properties n) = Some (values_of (c, Some 2, Some 2))"
    by (auto simp: item_view_def child_view_def)
  obtain it' where "nodes_named_next BigEndian virt_blob it = Some (Some n, it')"
    using it(2) unfolding n(1) by (subst (asm) nodes_from.simps) (auto split: bind_splits option.splits)
  then show thesis using that it(1,2) n by blast
qed

lemma enc_cells_2: "enc_cells 2 v = be64 v"
proof -
  have "enc_cells n v = be32 (v div 2 ^ 32) @ be32 v" if "n = Suc (Suc 0)" for n using that by simp
  then have "enc_cells 2 v = be32 (v div 2 ^ 32) @ be32 v" by (simp only: numeral_2_eq_2)
  then show ?thesis by (simp add: be64_def)
qed

lemma registers_next_2_2:
  assumes "drop off data = be64 a @ be64 s @ r" and "a < 2 ^ 64" and "s < 2 ^ 64" and "off \<le> length data"
  shows "registers_next BigEndian \<lparr> reg_data = data, address_cells = 2, size_cells = 2 \<rparr> off = Some (Some (a, s), off + 16)"
  using registers_next_enc(1) [of off data 2 a 2 s r] assms by (simp add: enc_cells_2 algebra_simps)

text \<open>The header of the blob.\<close>

lemma virt_lengths: "length virt_structure < 2 ^ 20" "length (enc_strings virt_names) < 2 ^ 20" "length virt_header = 40"
proof -
  show "length virt_structure < 2 ^ 20"
    by (simp add: virt_structure_def virt_defs nops_def length_pad4 pad_end_4b_def enc_strings_def)
  show "length (enc_strings virt_names) < 2 ^ 20" by (simp add: enc_strings_def virt_names_def)
  show "length virt_header = 40" by (simp add: virt_header_def)
qed

lemma virt_fields:
  "magic BigEndian \<lparr> buf = virt_header \<rparr> = Some 0xd00dfeed"
  "total_size BigEndian \<lparr> buf = virt_header \<rparr> = Some (length virt_bytes)"
  "off_dt_struct BigEndian \<lparr> buf = virt_header \<rparr> = Some 56"
  "off_dt_strings BigEndian \<lparr> buf = virt_header \<rparr> = Some (56 + length virt_structure)"
  "off_mem_rsvmap BigEndian \<lparr> buf = virt_header \<rparr> = Some 40"
  "size_dt_strings BigEndian \<lparr> buf = virt_header \<rparr> = Some (length (enc_strings virt_names))"
  "size_dt_structs BigEndian \<lparr> buf = virt_header \<rparr> = Some (length virt_structure)"
  using virt_lengths
  by (simp_all add: magic_def total_size_def off_dt_struct_def off_dt_strings_def off_mem_rsvmap_def
      size_dt_strings_def size_dt_structs_def header_field_def virt_header_def virt_bytes_def be_value_be32)

lemmas value_defs = values_of_def prop_value_def parse_value_def unwrap_or_def

end
