(* ===== verification/Gic2.thy ===== *)
theory Gic2
  imports Interrupts Virt_Tree
begin

text \<open>
  The driver of the ARM Generic Interrupt Controller, version 2
  (\<^verbatim>\<open>kernel/src/exceptions/interrupt/controller/gic2.rs\<close>).  The memory-mapped registers of the
  device are a parameter: \<open>Mmio\<close> is the effect of a volatile read or write on the state of the
  device.  The distributor registers are only used under their lock, for the whole of an
  operation, so the operations on them run one at a time.
\<close>

section \<open>Registers\<close>

record 'd Mmio =
  mm_read32 :: "usize \<Rightarrow> 'd \<Rightarrow> nat \<times> 'd"
  mm_write32 :: "usize \<Rightarrow> nat \<Rightarrow> 'd \<Rightarrow> 'd"
  mm_write8 :: "usize \<Rightarrow> nat \<Rightarrow> 'd \<Rightarrow> 'd"

record GenericV2 =
  distributor_base :: usize
  cpu_base :: usize

datatype DistReg = Gicd_CTLR | Gicd_TYPER | Gicd_STATUSR | Gicd_SETSPI_NSR | Gicd_CLRSPI_NSR | Gicd_SETSPI_SR
  | Gicd_CLRSPI_SR | Gicd_IGROUPR | Gicd_ISENABLER | Gicd_ICENABLER | Gicd_ISPENDR | Gicd_ICPENDR | Gicd_ISACTIVER
  | Gicd_ICACTIVER | Gicd_IPRIORITYR | Gicd_ITARGETSR | Gicd_ICFGR | Gicd_IGRPMOD | Gicd_SGIR | Gicd_CPENDSGIR
  | Gicd_SPENDSGIR | Gicd_INMIR

text \<open>Offsets in words, as the driver counts them.\<close>

fun dist_regs :: "DistReg \<Rightarrow> usize" where
  "dist_regs Gicd_CTLR = 0x0000 div 4"
| "dist_regs Gicd_TYPER = 0x0004 div 4"
| "dist_regs Gicd_STATUSR = 0x0010 div 4"
| "dist_regs Gicd_SETSPI_NSR = 0x0040 div 4"
| "dist_regs Gicd_CLRSPI_NSR = 0x0048 div 4"
| "dist_regs Gicd_SETSPI_SR = 0x0050 div 4"
| "dist_regs Gicd_CLRSPI_SR = 0x0058 div 4"
| "dist_regs Gicd_IGROUPR = 0x0080 div 4"
| "dist_regs Gicd_ISENABLER = 0x0100 div 4"
| "dist_regs Gicd_ICENABLER = 0x0180 div 4"
| "dist_regs Gicd_ISPENDR = 0x0200 div 4"
| "dist_regs Gicd_ICPENDR = 0x0280 div 4"
| "dist_regs Gicd_ISACTIVER = 0x0300 div 4"
| "dist_regs Gicd_ICACTIVER = 0x0380 div 4"
| "dist_regs Gicd_IPRIORITYR = 0x0400 div 4"
| "dist_regs Gicd_ITARGETSR = 0x0800 div 4"
| "dist_regs Gicd_ICFGR = 0x0c00 div 4"
| "dist_regs Gicd_IGRPMOD = 0x0d00 div 4"
| "dist_regs Gicd_SGIR = 0x0f00 div 4"
| "dist_regs Gicd_CPENDSGIR = 0x0f10 div 4"
| "dist_regs Gicd_SPENDSGIR = 0x0f20 div 4"
| "dist_regs Gicd_INMIR = 0x0f80 div 4"

datatype CpuReg = Gicc_CTLR | Gicc_PMR | Gicc_BPR | Gicc_IAR | Gicc_EOIR | Gicc_RPR | Gicc_HPPIR | Gicc_ABPR | Gicc_AIAR
  | Gicc_AEOIR | Gicc_AHPPIR | Gicc_STATUSR | Gicc_APR | Gicc_NSAPR | Gicc_IIDR | Gicc_DIR

fun cpu_regs :: "CpuReg \<Rightarrow> usize" where
  "cpu_regs Gicc_CTLR = 0x0000 div 4"
| "cpu_regs Gicc_PMR = 0x0004 div 4"
| "cpu_regs Gicc_BPR = 0x0008 div 4"
| "cpu_regs Gicc_IAR = 0x000c div 4"
| "cpu_regs Gicc_EOIR = 0x0010 div 4"
| "cpu_regs Gicc_RPR = 0x0014 div 4"
| "cpu_regs Gicc_HPPIR = 0x0018 div 4"
| "cpu_regs Gicc_ABPR = 0x001c div 4"
| "cpu_regs Gicc_AIAR = 0x0020 div 4"
| "cpu_regs Gicc_AEOIR = 0x0024 div 4"
| "cpu_regs Gicc_AHPPIR = 0x0028 div 4"
| "cpu_regs Gicc_STATUSR = 0x002c div 4"
| "cpu_regs Gicc_APR = 0x00d0 div 4"
| "cpu_regs Gicc_NSAPR = 0x00e0 div 4"
| "cpu_regs Gicc_IIDR = 0x00fc div 4"
| "cpu_regs Gicc_DIR = 0x1000 div 4"

definition INTID_NONE_PENDING :: nat where
  "INTID_NONE_PENDING = 1023"

text \<open>\<^verbatim>\<open>pointer.add(n)\<close> for a pointer to 32-bit words.\<close>

definition word_ptr :: "usize \<Rightarrow> usize \<Rightarrow> usize" where
  "word_ptr p n = p + 4 * n"

section \<open>Operations\<close>

definition id_to_bit_offset :: "nat \<Rightarrow> usize \<times> nat" where
  "id_to_bit_offset int_id = (int_id div 32, int_id mod 32)"

definition write_bit_for_id :: "'d Mmio \<Rightarrow> usize \<Rightarrow> usize \<Rightarrow> nat \<Rightarrow> 'd \<Rightarrow> 'd" where
  "write_bit_for_id mm interface register int_id d =
     (let (word_offset, bit_offset) = id_to_bit_offset int_id
      in mm_write32 mm (word_ptr (word_ptr interface register) word_offset) (2 ^ bit_offset) d)"

definition write_byte_for_id :: "'d Mmio \<Rightarrow> usize \<Rightarrow> usize \<Rightarrow> nat \<Rightarrow> nat \<Rightarrow> 'd \<Rightarrow> 'd" where
  "write_byte_for_id mm interface register int_id v d = mm_write8 mm (word_ptr interface register + int_id) v d"

definition gic_global_initialize :: "'d Mmio \<Rightarrow> GenericV2 \<Rightarrow> 'd \<Rightarrow> 'd panics" where
  "gic_global_initialize mm g d = Some (mm_write32 mm (word_ptr (distributor_base g) (dist_regs Gicd_CTLR)) 3 d)"

definition gic_initialize_for_core :: "'d Mmio \<Rightarrow> GenericV2 \<Rightarrow> 'd \<Rightarrow> 'd panics" where
  "gic_initialize_for_core mm g d =
     (let d = mm_write32 mm (word_ptr (cpu_base g) (cpu_regs Gicc_CTLR)) 3 d;
          d = mm_write32 mm (word_ptr (cpu_base g) (cpu_regs Gicc_PMR)) 0xff d
      in Some d)"

definition gic_interrupt_in_device_tree :: "ByteOrder \<Rightarrow> bytes \<Rightarrow> usize \<Rightarrow> (nat \<times> TriggerMode) option panics" where
  "gic_interrupt_in_device_tree bo data index = do {
     n \<leftarrow> add_p index 1;
     stop \<leftarrow> mul_p n 12;
     if stop > length data then Some None
     else do {
       d \<leftarrow> slice data (index * 12) stop;
       w0 \<leftarrow> slice d 0 4;
       first_cell \<leftarrow> be_u32 bo w0;
       w1 \<leftarrow> slice d 4 8;
       second_cell \<leftarrow> be_u32 bo w1;
       flags \<leftarrow> nth_p d 11;
       int_id \<leftarrow> (if first_cell = 0 then do { i \<leftarrow> u32_p (32 + second_cell); Some (Some i) }
              else if first_cell = 1 then do { i \<leftarrow> u32_p (16 + second_cell); Some (Some i) }
              else Some None);
       case int_id of
         None \<Rightarrow> Some None
       | Some int_id \<Rightarrow>
           if of_char flags = (1 :: nat) \<or> of_char flags = (2 :: nat) then Some (Some (int_id, Edge))
           else if of_char flags = (4 :: nat) \<or> of_char flags = (8 :: nat) then Some (Some (int_id, Level))
           else Some None
     }
   }"

text \<open>The trigger mode of the configuration is not used.\<close>

definition gic_configure :: "'d Mmio \<Rightarrow> GenericV2 \<Rightarrow> nat \<Rightarrow> Config \<Rightarrow> 'd \<Rightarrow> 'd panics" where
  "gic_configure mm g int_id config d =
     (let d = write_byte_for_id mm (distributor_base g) (dist_regs Gicd_IPRIORITYR) int_id (priority config) d;
          d = write_byte_for_id mm (distributor_base g) (dist_regs Gicd_ITARGETSR) int_id 0xff d
      in Some d)"

definition gic_enable :: "'d Mmio \<Rightarrow> GenericV2 \<Rightarrow> nat \<Rightarrow> 'd \<Rightarrow> 'd panics" where
  "gic_enable mm g int_id d = Some (write_bit_for_id mm (distributor_base g) (dist_regs Gicd_ISENABLER) int_id d)"

definition gic_disable :: "'d Mmio \<Rightarrow> GenericV2 \<Rightarrow> nat \<Rightarrow> 'd \<Rightarrow> 'd panics" where
  "gic_disable mm g int_id d = Some (write_bit_for_id mm (distributor_base g) (dist_regs Gicd_ICENABLER) int_id d)"

definition gic_clear_pending :: "'d Mmio \<Rightarrow> GenericV2 \<Rightarrow> nat \<Rightarrow> 'd \<Rightarrow> 'd panics" where
  "gic_clear_pending mm g int_id d = Some (write_bit_for_id mm (distributor_base g) (dist_regs Gicd_ICPENDR) int_id d)"

definition gic_ack_interrupt :: "'d Mmio \<Rightarrow> GenericV2 \<Rightarrow> 'd \<Rightarrow> (nat option \<times> 'd) panics" where
  "gic_ack_interrupt mm g d =
     (let (int_id, d) = mm_read32 mm (word_ptr (cpu_base g) (cpu_regs Gicc_IAR)) d
      in Some (if int_id = INTID_NONE_PENDING then None else Some int_id, d))"

definition gic_finish_interrupt :: "'d Mmio \<Rightarrow> GenericV2 \<Rightarrow> nat \<Rightarrow> 'd \<Rightarrow> 'd panics" where
  "gic_finish_interrupt mm g int_id d = Some (mm_write32 mm (word_ptr (cpu_base g) (cpu_regs Gicc_EOIR)) int_id d)"

definition gic_controller :: "'d Mmio \<Rightarrow> ByteOrder \<Rightarrow> GenericV2 \<Rightarrow> 'd Controller" where
  "gic_controller mm bo g = \<lparr>
     global_initialize = gic_global_initialize mm g,
     initialize_for_core = gic_initialize_for_core mm g,
     interrupt_in_device_tree = gic_interrupt_in_device_tree bo,
     configure = gic_configure mm g,
     enable = gic_enable mm g,
     disable = gic_disable mm g,
     clear_pending = gic_clear_pending mm g,
     ack_interrupt = gic_ack_interrupt mm g,
     finish_interrupt = gic_finish_interrupt mm g \<rparr>"

section \<open>The device tree node\<close>

definition gic_compatible :: "bytes list" where
  "gic_compatible = [''arm,arm11mp-gic'', ''arm,cortex-a15-gic'', ''arm,cortex-a7-gic'', ''arm,cortex-a5-gic'',
     ''arm,cortex-a9-gic'', ''arm,eb11mp-gic'', ''arm,gic-400'', ''arm,pl390'', ''arm,tc11mp-gic'',
     ''qcom,msm-8660-qgic'', ''qcom,msm-qgic2'']"

text \<open>\<^verbatim>\<open>strings.iter().any(...)\<close>: some string of the list is a supported model.\<close>

definition any_supported :: "bytes list \<Rightarrow> bytes \<Rightarrow> bool panics" where
  "any_supported supported data = do { ss \<leftarrow> strings_from data 0; Some (list_ex (\<lambda>m. m \<in> set supported) ss) }"

text \<open>The body of the loop; the state is \<^verbatim>\<open>found_marker_property\<close>, \<^verbatim>\<open>dist_base\<close> and
  \<^verbatim>\<open>cpu_base\<close>.\<close>

definition gic_property :: "ByteOrder \<Rightarrow> bytes \<Rightarrow> Value \<Rightarrow> bool \<times> paddr \<times> paddr \<Rightarrow>
    (ParseError + (bool \<times> paddr \<times> paddr)) panics" where
  "gic_property bo name v st = (case st of (found_marker_property, dist_base, cpu_base_addr) \<Rightarrow>
     if name = ''compatible'' then
       (case as_strings v name of
          Inl e \<Rightarrow> Some (Inl e)
        | Inr strings \<Rightarrow> do {
            ok \<leftarrow> any_supported gic_compatible strings;
            Some (if ok then Inr st else Inl (UnexpectedValue name v ''incompatible''))
          })
     else if name = ''#interrupt-cells'' then
       (case as_bytes v name of
          Inl e \<Rightarrow> Some (Inl e)
        | Inr n \<Rightarrow> Some (if length n = 4 \<and> n ! 3 = CHR 0x03 then Inr st
            else Inl (UnexpectedValue name v ''driver supports GICv2 with #interrupt-cells=3 only'')))
     else if name = ''interrupt-controller'' then Some (Inr (True, dist_base, cpu_base_addr))
     else if name = ''reg'' then
       (case as_reg v name of
          Inl e \<Rightarrow> Some (Inl e)
        | Inr registers \<Rightarrow> do {
            (item, offset) \<leftarrow> registers_next bo registers 0;
            case item of
              None \<Rightarrow> Some (Inl (UnexpectedValue name v ''distributor register region to be present''))
            | Some (dist_base_raw, _) \<Rightarrow> do {
                dist_base \<leftarrow> phys_from_usize dist_base_raw;
                (item, _) \<leftarrow> registers_next bo registers offset;
                case item of
                  None \<Rightarrow> Some (Inl (UnexpectedValue name v ''cpu register region to be present''))
                | Some (cpu_base_raw, _) \<Rightarrow> do {
                    cpu_base_addr \<leftarrow> phys_from_usize cpu_base_raw;
                    Some (Inr (found_marker_property, dist_base, cpu_base_addr))
                  }
              }
          })
     else Some (Inr st))"

definition gic_in_device_tree :: "ByteOrder \<Rightarrow> DeviceTree \<Rightarrow> NodePropertyIter \<Rightarrow> (ParseError + GenericV2) panics" where
  "gic_in_device_tree bo dt it = do {
     r \<leftarrow> for_each_property bo dt it (gic_property bo) (False, phys_null, phys_null);
     case r of
       Inl e \<Rightarrow> Some (Inl e)
     | Inr (found_marker_property, dist_base, cpu_base_addr) \<Rightarrow>
         Some (if \<not> found_marker_property then Inl (PropertyNotFound ''interrupt-controller'')
           else if phys_is_null dist_base then Inl (PropertyNotFound ''distributor base address'')
           else if phys_is_null cpu_base_addr then Inl (PropertyNotFound ''CPU base address'')
           else Inr \<lparr> distributor_base = ptr_from_phys dist_base, cpu_base = ptr_from_phys cpu_base_addr \<rparr>)
   }"

section \<open>Properties\<close>

subsection \<open>Registers of an interrupt\<close>

text \<open>The distributor of the architecture (ARM IHI 0048B, 4.3), at the address \<open>base\<close>: what a write to one
  of its registers does, by the offset of the register in bytes.  A write to the set-enable registers
  (from 0x100), the clear-enable registers (from 0x180) and the clear-pending registers (from 0x280) acts
  on the interrupts whose bits are one and leaves the others alone; the priority registers (from 0x400) and the target
  registers (from 0x800) have a byte for every interrupt, and the target bytes of the first 32 interrupts are read-only.  The other
  registers are left out: a write to them is recorded in \<open>others\<close>.\<close>

record Distributor =
  enabled_ints :: "nat set"
  pending_ints :: "nat set"
  priorities :: "nat \<Rightarrow> nat"
  targets :: "nat \<Rightarrow> nat"
  others :: "(usize \<times> nat) list"

definition bits_from :: "nat \<Rightarrow> nat \<Rightarrow> nat set" where
  "bits_from n v = {i. n \<le> i \<and> i < n + 32 \<and> bit v (i - n)}"

definition dist_write32 :: "usize \<Rightarrow> usize \<Rightarrow> nat \<Rightarrow> Distributor \<Rightarrow> Distributor" where
  "dist_write32 base a v d =
     (if base + 0x100 \<le> a \<and> a < base + 0x180 then d\<lparr>enabled_ints := enabled_ints d \<union> bits_from (8 * (a - (base + 0x100))) v\<rparr>
      else if base + 0x180 \<le> a \<and> a < base + 0x200 then d\<lparr>enabled_ints := enabled_ints d - bits_from (8 * (a - (base + 0x180))) v\<rparr>
      else if base + 0x280 \<le> a \<and> a < base + 0x300 then d\<lparr>pending_ints := pending_ints d - bits_from (8 * (a - (base + 0x280))) v\<rparr>
      else d\<lparr>others := others d @ [(a, v)]\<rparr>)"

definition dist_write8 :: "usize \<Rightarrow> usize \<Rightarrow> nat \<Rightarrow> Distributor \<Rightarrow> Distributor" where
  "dist_write8 base a v d =
     (if base + 0x400 \<le> a \<and> a < base + 0x7fc then d\<lparr>priorities := (priorities d)(a - (base + 0x400) := v)\<rparr>
      else if base + 0x800 \<le> a \<and> a < base + 0x820 then d
      else if base + 0x820 \<le> a \<and> a < base + 0xbfc then d\<lparr>targets := (targets d)(a - (base + 0x800) := v)\<rparr>
      else d\<lparr>others := others d @ [(a, v)]\<rparr>)"

definition dist_mmio :: "usize \<Rightarrow> Distributor Mmio" where
  "dist_mmio base = \<lparr> mm_read32 = (\<lambda>a d. (0, d)), mm_write32 = dist_write32 base, mm_write8 = dist_write8 base \<rparr>"

lemma bits_from_single: "bits_from (32 * (i div 32)) (2 ^ (i mod 32)) = {i}"
proof -
  have "i = 32 * (i div 32) + i mod 32" and "i mod 32 < 32" by simp_all
  then have "32 * (i div 32) \<le> j \<and> j < 32 * (i div 32) + 32 \<and> i mod 32 = j - 32 * (i div 32) \<longleftrightarrow> j = i" for j
    by linarith
  then show ?thesis unfolding bits_from_def set_eq_iff by (simp add: bit_exp_iff eq_commute [of "i mod 32"])
qed


definition quiet_distributor :: Distributor where
  "quiet_distributor = \<lparr> enabled_ints = {30}, pending_ints = {33}, priorities = (\<lambda>_. 0), targets = (\<lambda>_. 0), others = [] \<rparr>"


text \<open>The configured trigger mode has no effect on the device.\<close>

lemma configure_ignores_mode: "gic_configure mm g i (cfg\<lparr>mode := m\<rparr>) d = gic_configure mm g i cfg d"
  by (simp add: gic_configure_def)

subsection \<open>Interrupt specifiers\<close>

text \<open>The binding of the controller: an interrupt is given by its type (0 for a shared and 1 for a
  private peripheral interrupt), its number and its flags.\<close>

definition enc_interrupts :: "(nat \<times> nat \<times> nat) list \<Rightarrow> bytes" where
  "enc_interrupts is = concat (map (\<lambda>(t, n, f). be32 t @ be32 n @ be32 f) is)"

definition gic_decode :: "nat \<times> nat \<times> nat \<Rightarrow> (nat \<times> TriggerMode) option panics" where
  "gic_decode x = (case x of (t, n, f) \<Rightarrow>
     if t > 1 then Some None
     else if (if t = 0 then 32 else 16) + n \<ge> 2 ^ 32 then None
     else Some (if f mod 256 \<in> {1, 2} then Some ((if t = 0 then 32 else 16) + n, Edge)
       else if f mod 256 \<in> {4, 8} then Some ((if t = 0 then 32 else 16) + n, Level)
       else None))"

lemma length_enc_interrupts: "length (enc_interrupts is) = 12 * length is"
  by (induction "is") (auto simp: enc_interrupts_def)

lemma drop_enc_interrupts: "drop (12 * k) (enc_interrupts is) = enc_interrupts (drop k is)"
proof (induction k arbitrary: "is")
  case (Suc k)
  show ?case
  proof (cases "is")
    case (Cons x xs)
    then have "enc_interrupts is = (be32 (fst x) @ be32 (fst (snd x)) @ be32 (snd (snd x))) @ enc_interrupts xs"
      by (simp add: enc_interrupts_def case_prod_beta)
    then have "drop 12 (enc_interrupts is) = enc_interrupts xs" by simp
    moreover have "drop (12 * Suc k) (enc_interrupts is) = drop (12 * k) (drop 12 (enc_interrupts is))"
      by (simp add: algebra_simps)
    ultimately show ?thesis using Suc.IH [of xs] Cons by simp
  qed (simp add: enc_interrupts_def)
qed simp

lemma gic_interrupt_enc:
  assumes "big_endian bo" and "\<forall>(t, n, f) \<in> set is. t < 2 ^ 32 \<and> n < 2 ^ 32" and "index < 2 ^ 60"
  shows "gic_interrupt_in_device_tree bo (enc_interrupts is) index =
    (if index < length is then gic_decode (is ! index) else Some None)"
proof -
  have bo: "bo = BigEndian" using assms(1) by (simp add: big_endian_eq)
  have ov: "index + 1 \<le> usize_max" "(index + 1) * 12 \<le> usize_max" using assms(3) by (simp_all add: usize_max_def)
  show ?thesis
  proof (cases "index < length is")
    case True
    obtain t n f where x: "is ! index = (t, n, f)" by (cases "is ! index") auto
    have b: "t < 2 ^ 32" "n < 2 ^ 32" using assms(2) nth_mem [OF True] x by auto
    have "drop index is = (t, n, f) # drop (Suc index) is" using True x by (metis Cons_nth_drop_Suc)
    then have d: "drop (12 * index) (enc_interrupts is) = be32 t @ be32 n @ be32 f @ enc_interrupts (drop (Suc index) is)"
      unfolding drop_enc_interrupts by (simp add: enc_interrupts_def)
    have sl: "slice (enc_interrupts is) (index * 12) ((index + 1) * 12) = Some (be32 t @ be32 n @ be32 f)"
      using True d by (simp add: length_enc_interrupts mult.commute)
    have fl: "of_char ((be32 t @ be32 n @ be32 f) ! 11) = f mod 256" by (simp add: nth_append be32_def)
    have s0: "slice (be32 t @ be32 n @ be32 f) 0 4 = Some (be32 t)" and s1: "slice (be32 t @ be32 n @ be32 f) 4 8 = Some (be32 n)"
      by simp_all
    have r: "read_u32 (be32 t) = Some t" "read_u32 (be32 n) = Some n" using b by (simp_all add: be_value_be32)
    have e: "gic_interrupt_in_device_tree bo (enc_interrupts is) index = do {
       i \<leftarrow> (if t = 0 then do { i \<leftarrow> u32_p (32 + n); Some (Some i) }
              else if t = 1 then do { i \<leftarrow> u32_p (16 + n); Some (Some i) }
              else Some None);
       case i of
         None \<Rightarrow> Some None
       | Some i \<Rightarrow>
           if f mod 256 = 1 \<or> f mod 256 = 2 then Some (Some (i, Edge))
           else if f mod 256 = 4 \<or> f mod 256 = 8 then Some (Some (i, Level))
           else Some None }"
      unfolding gic_interrupt_in_device_tree_def bo BigEndian_sel
      using ov True sl s0 s1 r fl
      by (simp add: length_enc_interrupts add_p_def mul_p_def nth_p_def del: slice_Some slice_in read_u32_Some read_u32_in cong: if_cong)
    show ?thesis using True x unfolding e by (auto simp: gic_decode_def u32_p_def)
  next
    case False
    then show ?thesis using ov
      by (simp add: gic_interrupt_in_device_tree_def add_p_def mul_p_def length_enc_interrupts)
  qed
qed

text \<open>C33: \<^verbatim>\<open>interrupt_in_device_tree\<close> decodes the selected interrupt of an encoded list: a shared
  peripheral interrupt has its number plus 32 as id and a private one its number plus 16, with
  the trigger mode of the flags; other types, other flags and an index past the end give none.
  It panics exactly when the sum is not a 32-bit number.\<close>

theorem gic_interrupt_decodes:
  assumes "big_endian bo" and "\<forall>(t, n, f) \<in> set is. t < 2 ^ 32 \<and> n < 2 ^ 32" and "index < 2 ^ 60"
  shows "gic_interrupt_in_device_tree bo (enc_interrupts is) index =
    (if index < length is then gic_decode (is ! index) else Some None)"
  using assms by (rule gic_interrupt_enc)

theorem gic_interrupt_decodes_witness:
  "gic_interrupt_in_device_tree BigEndian (enc_interrupts [(1, 13, 0x104), (1, 14, 0x104)]) 1 = Some (Some (30, Level))"
  using gic_interrupt_decodes [OF BigEndian_reads, of "[(1, 13, 0x104), (1, 14, 0x104)]" 1] by (simp add: gic_decode_def)

subsection \<open>Finding the controller\<close>

definition supported_strings :: "bytes list \<Rightarrow> Value \<Rightarrow> bool" where
  "supported_strings supported v \<longleftrightarrow>
     (\<exists>data ss m. v = StringList data \<and> strings_from data 0 = Some ss \<and> m \<in> set ss \<and> m \<in> set supported)"

text \<open>The two register regions of the \<^verbatim>\<open>reg\<close> property, when it has them and they are physical
  addresses.\<close>

definition gic_regions :: "ByteOrder \<Rightarrow> Value \<Rightarrow> (paddr \<times> paddr) option" where
  "gic_regions bo v = (case v of
     Reg r \<Rightarrow> do {
       (x, offset) \<leftarrow> registers_next bo r 0;
       (dist, _) \<leftarrow> x;
       (y, _) \<leftarrow> registers_next bo r offset;
       (cpu, _) \<leftarrow> y;
       if dist < 0xffff000000000000 \<and> cpu < 0xffff000000000000 then Some (dist, cpu) else None
     }
   | _ \<Rightarrow> None)"

definition gic_accepts :: "ByteOrder \<Rightarrow> bytes \<times> Value \<Rightarrow> bool" where
  "gic_accepts bo p \<longleftrightarrow> (case p of (name, v) \<Rightarrow>
     (name = ''compatible'' \<longrightarrow> supported_strings gic_compatible v) \<and>
     (name = ''#interrupt-cells'' \<longrightarrow> (\<exists>a b c. v = Bytes [a, b, c, CHR 0x03])) \<and>
     (name = ''reg'' \<longrightarrow> gic_regions bo v \<noteq> None))"

lemma as_strings_Inr [simp]: "as_strings v name = Inr x \<longleftrightarrow> v = StringList x"
  by (cases v) (simp_all add: as_strings_def)

lemma as_bytes_Inr [simp]: "as_bytes v name = Inr x \<longleftrightarrow> v = Bytes x"
  by (cases v) (simp_all add: as_bytes_def)

lemma as_reg_Inr [simp]: "as_reg v name = Inr x \<longleftrightarrow> v = Reg x"
  by (cases v) (simp_all add: as_reg_def)

lemma any_supported_True: "any_supported supported data = Some True \<longleftrightarrow> supported_strings supported (StringList data)"
  by (auto simp: any_supported_def supported_strings_def list_ex_iff bind_eq_Some_conv)

lemma length_4: "length n = 4 \<and> n ! 3 = x \<longleftrightarrow> (\<exists>a b c. n = [a, b, c, x])"
proof
  assume a: "length n = 4 \<and> n ! 3 = x"
  then obtain a b c d where "n = [a, b, c, d]" by (auto simp: length_Suc_conv numeral_eq_Suc)
  then show "\<exists>a b c. n = [a, b, c, x]" using a by simp
qed auto

lemma gic_property_Inr:
  "gic_property bo name v (m, d, c) = Some (Inr st') \<longleftrightarrow> gic_accepts bo (name, v) \<and>
   st' = (m \<or> name = ''interrupt-controller'',
     if name = ''reg'' then the (gic_regions bo v) else (d, c))"
proof (cases "name = ''compatible'' \<or> name = ''#interrupt-cells'' \<or> name = ''interrupt-controller'' \<or> name = ''reg''")
  case True
  then consider "name = ''compatible''" | "name = ''#interrupt-cells''" | "name = ''interrupt-controller''" | "name = ''reg''"
    by blast
  then show ?thesis
  proof cases
    case 1
    then show ?thesis
      by (cases v) (auto simp: gic_property_def gic_accepts_def as_strings_def any_supported_True [symmetric] supported_strings_def
          any_supported_def list_ex_iff split: bind_splits if_splits)
  next
    case 2
    then show ?thesis
      by (cases v) (auto simp: gic_property_def gic_accepts_def as_bytes_def length_4 split: if_splits)
  next
    case 3
    then show ?thesis by (auto simp: gic_property_def gic_accepts_def)
  next
    case 4
    then show ?thesis
      by (cases v) (auto simp: gic_property_def gic_accepts_def as_reg_def gic_regions_def phys_from_usize_def
          split: bind_splits option.splits)
  qed
qed (auto simp: gic_property_def gic_accepts_def)

lemma for_each_gic:
  "for_each (gic_property bo) ps (m, d, c) = Some (Inr st') \<longleftrightarrow> (\<forall>p \<in> set ps. gic_accepts bo p) \<and>
   st' = (m \<or> ''interrupt-controller'' \<in> fst ` set ps,
     case map_of (rev ps) ''reg'' of None \<Rightarrow> (d, c) | Some v \<Rightarrow> the (gic_regions bo v))"
proof -
  let ?u = "\<lambda>p (m, dc). ((\<lambda>(name, v) x. x \<or> name = ''interrupt-controller'') p m,
    (\<lambda>(name, v) x. if name = ''reg'' then the (gic_regions bo v) else x) p dc)"
  have "for_each (gic_property bo) ps s = Some (Inr s') \<longleftrightarrow> (\<forall>p \<in> set ps. gic_accepts bo p) \<and> s' = fold ?u ps s" for s s'
    by (rule for_each_exact) (use gic_property_Inr in \<open>auto split: prod.splits\<close>)
  then show ?thesis by (simp add: fold_pair fold_last fold_found)
qed

lemma gic_in_device_tree_iff:
  assumes "properties_from bo dt it = Some ps"
  shows "gic_in_device_tree bo dt it = Some (Inr g) \<longleftrightarrow>
    (\<forall>p \<in> set ps. gic_accepts bo p) \<and> ''interrupt-controller'' \<in> fst ` set ps \<and>
    (\<exists>v dist cpu. map_of (rev ps) ''reg'' = Some v \<and> gic_regions bo v = Some (dist, cpu) \<and> dist \<noteq> 0 \<and> cpu \<noteq> 0 \<and>
       g = \<lparr> distributor_base = ptr_from_phys dist, cpu_base = ptr_from_phys cpu \<rparr>)"
proof -
  have "gic_in_device_tree bo dt it = Some (Inr g) \<longleftrightarrow>
      (\<exists>dist cpu. for_each (gic_property bo) ps (False, 0, 0) = Some (Inr (True, dist, cpu)) \<and> dist \<noteq> 0 \<and> cpu \<noteq> 0 \<and>
         g = \<lparr> distributor_base = ptr_from_phys dist, cpu_base = ptr_from_phys cpu \<rparr>)"
    unfolding gic_in_device_tree_def for_each_property_list [OF assms] phys_null_def phys_is_null_def
    by (auto split: bind_splits sum.splits prod.splits if_splits)
  also have "\<dots> \<longleftrightarrow> (\<forall>p \<in> set ps. gic_accepts bo p) \<and> ''interrupt-controller'' \<in> fst ` set ps \<and>
      (\<exists>v dist cpu. map_of (rev ps) ''reg'' = Some v \<and> gic_regions bo v = Some (dist, cpu) \<and> dist \<noteq> 0 \<and> cpu \<noteq> 0 \<and>
       g = \<lparr> distributor_base = ptr_from_phys dist, cpu_base = ptr_from_phys cpu \<rparr>)"
  proof -
    have "gic_regions bo v \<noteq> None" if "\<forall>p \<in> set ps. gic_accepts bo p" "map_of (rev ps) ''reg'' = Some v" for v
      using map_of_SomeD [OF that(2)] that(1) by (fastforce simp: gic_accepts_def)
    then show ?thesis unfolding for_each_gic by (auto split: option.splits)
  qed
  finally show ?thesis .
qed

text \<open>The driver accepts a node exactly when it has the marker property, every \<^verbatim>\<open>compatible\<close> list
  names a supported model, \<^verbatim>\<open>#interrupt-cells\<close> is 3 where it is given, and the last \<^verbatim>\<open>reg\<close>
  property has two regions at addresses that are not null; these become the two bases of the
  driver, as kernel addresses.\<close>

lemma gic_in_device_tree_exact:
  assumes "properties_from bo dt it = Some ps"
  shows "gic_in_device_tree bo dt it = Some (Inr g) \<longleftrightarrow>
    (\<forall>p \<in> set ps. gic_accepts bo p) \<and> ''interrupt-controller'' \<in> fst ` set ps \<and>
    (\<exists>v dist cpu. map_of (rev ps) ''reg'' = Some v \<and> gic_regions bo v = Some (dist, cpu) \<and> dist \<noteq> 0 \<and> cpu \<noteq> 0 \<and>
       g = \<lparr> distributor_base = ptr_from_phys dist, cpu_base = ptr_from_phys cpu \<rparr>)"
  using assms by (rule gic_in_device_tree_iff)

lemma virt_intc_accepted:
  fixes v r
  defines "r \<equiv> be64 0x8000000 @ be64 0x10000 @ be64 0x8010000 @ be64 0x10000"
  shows "values_of (virt_intc, Some 2, Some 2) = [(''compatible'', StringList (enc_strings [''arm,cortex-a15-gic''])),
      (''#interrupt-cells'', Bytes [nul, nul, nul, CHR 0x03]), (''interrupt-controller'', Bytes []),
      (''reg'', Reg \<lparr> reg_data = r, address_cells = 2, size_cells = 2 \<rparr>)]"
    and "gic_regions BigEndian (Reg \<lparr> reg_data = r, address_cells = 2, size_cells = 2 \<rparr>) = Some (0x8000000, 0x8010000)"
    and "supported_strings gic_compatible (StringList (enc_strings [''arm,cortex-a15-gic'']))"
proof -
  show "values_of (virt_intc, Some 2, Some 2) = [(''compatible'', StringList (enc_strings [''arm,cortex-a15-gic''])),
      (''#interrupt-cells'', Bytes [nul, nul, nul, CHR 0x03]), (''interrupt-controller'', Bytes []),
      (''reg'', Reg \<lparr> reg_data = r, address_cells = 2, size_cells = 2 \<rparr>)]"
    by (simp add: virt_intc_def value_defs r_def)
  have "registers_next BigEndian \<lparr> reg_data = r, address_cells = 2, size_cells = 2 \<rparr> 0 = Some (Some (0x8000000, 0x10000), 0 + 16)"
    by (rule registers_next_2_2) (simp_all add: r_def)
  moreover have "registers_next BigEndian \<lparr> reg_data = r, address_cells = 2, size_cells = 2 \<rparr> 16 = Some (Some (0x8010000, 0x10000), 16 + 16)"
    by (rule registers_next_2_2) (simp_all add: r_def)
  ultimately show "gic_regions BigEndian (Reg \<lparr> reg_data = r, address_cells = 2, size_cells = 2 \<rparr>) = Some (0x8000000, 0x8010000)"
    by (simp add: gic_regions_def)
  show "supported_strings gic_compatible (StringList (enc_strings [''arm,cortex-a15-gic'']))"
    using strings_roundtrip [of "[''arm,cortex-a15-gic'']"] by (simp add: supported_strings_def gic_compatible_def)
qed

lemma virt_intc_found:
  assumes "properties_from BigEndian virt_blob it = Some (values_of (virt_intc, Some 2, Some 2))"
  shows "gic_in_device_tree BigEndian virt_blob it =
    Some (Inr \<lparr> distributor_base = ptr_from_phys 0x8000000, cpu_base = ptr_from_phys 0x8010000 \<rparr>)"
  using gic_in_device_tree_iff [OF assms] virt_intc_accepted(2,3) by (simp add: virt_intc_accepted(1) gic_accepts_def)

lemma gic_in_device_tree_exact_example:
  "\<exists>it. iter_node_properties BigEndian virt_blob ''/intc@8000000'' = Some (Some it) \<and>
     gic_in_device_tree BigEndian virt_blob it =
       Some (Inr \<lparr> distributor_base = ptr_from_phys 0x8000000, cpu_base = ptr_from_phys 0x8010000 \<rparr>)"
proof -
  have "node_at virt_tree ''/intc@8000000'' = Some (virt_intc, Some 2, Some 2)"
    by (simp add: node_at_def virt_defs set_cells_def)
  then obtain it where it: "iter_node_properties BigEndian virt_blob ''/intc@8000000'' = Some (Some it)"
    "properties_from BigEndian virt_blob it = Some (values_of (virt_intc, Some 2, Some 2))"
    by (rule virt_properties)
  then show ?thesis using gic_in_device_tree_exact [OF it(2)] virt_intc_accepted(2,3)
    by (simp add: virt_intc_accepted(1) gic_accepts_def)
qed

end
