(* ===== verification/Exceptions.thy ===== *)
theory Exceptions
  imports Threads
begin

text \<open>
  Exceptions: the syndrome register and its description
  (\<^verbatim>\<open>kernel_core/src/exceptions/mod.rs\<close>) and the exception mask of a core
  (\<^verbatim>\<open>kernel/src/exceptions/mod.rs\<close>).  The formatting machinery is the standard library's; the
  texts it is given are modelled.
\<close>

section \<open>System registers\<close>

text \<open>The system registers of a core that the kernel reads or writes.\<close>

record SysRegs =
  SPSR_EL1 :: u64
  ELR_EL1 :: usize
  SP_EL0 :: usize
  SP_EL1 :: usize
  SP_EL2 :: usize
  CNTP_CTL_EL0 :: u64
  CNTP_TVAL_EL0 :: nat
  CNTFRQ_EL0 :: nat
  DAIF :: u64

section \<open>The exception syndrome register\<close>

definition esr_iss2 :: field where "esr_iss2 = (36, 32)"
definition esr_ec :: field where "esr_ec = (31, 26)"
definition esr_il :: field where "esr_il = (25, 25)"
definition esr_iss :: field where "esr_iss = (24, 0)"

text \<open>The class is converted from a \<^verbatim>\<open>u8\<close>.\<close>

definition ExceptionClass :: "u64 \<Rightarrow> nat" where
  "ExceptionClass esr = unat (field_get esr_ec esr) mod 2 ^ 8"

definition is_system_call :: "nat \<Rightarrow> bool" where
  "is_system_call ec \<longleftrightarrow> ec = 0b010101"

definition is_user_space_data_page_fault :: "nat \<Rightarrow> bool" where
  "is_user_space_data_page_fault ec \<longleftrightarrow> ec = 0b100100"

definition is_kernel_data_page_fault :: "nat \<Rightarrow> bool" where
  "is_kernel_data_page_fault ec \<longleftrightarrow> ec = 0b100101"

definition is_data_abort :: "nat \<Rightarrow> bool" where
  "is_data_abort ec \<longleftrightarrow> is_user_space_data_page_fault ec \<or> is_kernel_data_page_fault ec"

definition is_user_space_code_page_fault :: "nat \<Rightarrow> bool" where
  "is_user_space_code_page_fault ec \<longleftrightarrow> ec = 0b100000"

definition exception_class_text :: "nat \<Rightarrow> string" where
  "exception_class_text ec =
     (if ec = 0x0 then ''[Misc]''
     else if ec = 0x1 then ''[Trapped WF* instruction]''
     else if ec = 0x7 then ''[Access to SME, SVE, Advanced SIMD or floating-point functionality trapped by CPACR_EL1.FPEN, CPTR_EL2.FPEN, CPTR_EL2.TFP, or CPTR_EL3.TFP control]''
     else if ec = 0xa then ''[Trapped execution of an LD64B or ST64B* instruction.]''
     else if ec = 0xd then ''[Branch Target Exception]''
     else if ec = 0xe then ''[Illegal Execution state]''
     else if ec = 0x15 then ''[SVC instruction]''
     else if ec = 0x18 then ''[Trapped MSR, MRS or System instruction execution in AArch64 state, that is not reported using EC 0b00_0000, 0b00_0001, or 0b00_0111]''
     else if ec = 0x20 then ''[Instruction Abort from a lower Exception level]''
     else if ec = 0x21 then ''[Instruction Abort taken without a change in Exception level]''
     else if ec = 0x22 then ''[PC alignment fault exception]''
     else if ec = 0x24 then ''[Data Abort exception from a lower Exception level]''
     else if ec = 0x25 then ''[Data Abort exception taken without a change in Exception level]''
     else if ec = 0x26 then ''[SP alignment fault exception]''
     else ''[Unknown]'')"

definition data_abort_dfsc_description :: "nat \<Rightarrow> string" where
  "data_abort_dfsc_description code =
     (if code = 0x0 then ''Address size fault, level 0 of translation or translation table base register''
     else if code = 0x1 then ''Address size fault, level 1''
     else if code = 0x2 then ''Address size fault, level 2''
     else if code = 0x3 then ''Address size fault, level 3''
     else if code = 0x4 then ''Translation fault, level 0''
     else if code = 0x5 then ''Translation fault, level 1''
     else if code = 0x6 then ''Translation fault, level 2''
     else if code = 0x7 then ''Translation fault, level 3''
     else if code = 0x8 then ''Access flag fault, level 0''
     else if code = 0x9 then ''Access flag fault, level 1''
     else if code = 0xa then ''Access flag fault, level 2''
     else if code = 0xb then ''Access flag fault, level 3''
     else if code = 0xc then ''Permission fault, level 0''
     else if code = 0xd then ''Permission fault, level 1''
     else if code = 0xe then ''Permission fault, level 2''
     else if code = 0xf then ''Permission fault, level 3''
     else if code = 0x10 then ''Synchronous External abort, not on translation table walk or hardware update of translation table''
     else if code = 0x11 then ''Synchronous Tag Check Fault''
     else if code = 0x13 then ''Synchronous External abort on translation table walk or hardware update of translation table, level -1''
     else if code = 0x14 then ''Synchronous External abort on translation table walk or hardware update of translation table, level 0''
     else if code = 0x15 then ''Synchronous External abort on translation table walk or hardware update of translation table, level 1''
     else if code = 0x16 then ''Synchronous External abort on translation table walk or hardware update of translation table, level 2''
     else if code = 0x17 then ''Synchronous External abort on translation table walk or hardware update of translation table, level 3''
     else if code = 0x18 then ''Synchronous parity or ECC error on memory access, not on translation table walk''
     else if code = 0x1b then ''Synchronous parity or ECC error on memory access on translation table walk or hardware update of translation table, level -1''
     else if code = 0x1c then ''Synchronous parity or ECC error on memory access on translation table walk or hardware update of translation table, level 0''
     else if code = 0x1d then ''Synchronous parity or ECC error on memory access on translation table walk or hardware update of translation table, level 1''
     else if code = 0x1e then ''Synchronous parity or ECC error on memory access on translation table walk or hardware update of translation table, level 2''
     else if code = 0x1f then ''Synchronous parity or ECC error on memory access on translation table walk or hardware update of translation table, level 3''
     else if code = 0x21 then ''Alignment fault''
     else if code = 0x23 then ''Granule Protection Fault on translation table walk or hardware update of translation table, level -1''
     else if code = 0x24 then ''Granule Protection Fault on translation table walk or hardware update of translation table, level 0''
     else if code = 0x25 then ''Granule Protection Fault on translation table walk or hardware update of translation table, level 1''
     else if code = 0x26 then ''Granule Protection Fault on translation table walk or hardware update of translation table, level 2''
     else if code = 0x27 then ''Granule Protection Fault on translation table walk or hardware update of translation table, level 3''
     else if code = 0x28 then ''Granule Protection Fault, not on translation table walk or hardware update of translation table''
     else if code = 0x29 then ''Address size fault, level -1''
     else if code = 0x2b then ''Translation fault, level -1''
     else if code = 0x30 then ''TLB conflict abort''
     else if code = 0x31 then ''Unsupported atomic hardware update fault''
     else if code = 0x34 then ''IMPLEMENTATION DEFINED fault (Lockdown)''
     else if code = 0x35 then ''IMPLEMENTATION DEFINED fault (Unsupported Exclusive or Atomic access)''
     else ''?'')"

text \<open>The text in the \<^verbatim>\<open>ISS\<close> field of the displayed register.\<close>

definition iss_text :: "u64 \<Rightarrow> string" where
  "iss_text esr =
     (if is_data_abort (ExceptionClass esr)
      then data_abort_dfsc_description (unat (field_get esr_iss esr AND 0b111111) mod 2 ^ 8)
      else [])"

section \<open>The exception mask\<close>

definition mask_debug :: field where "mask_debug = (9, 9)"
definition mask_sys_error :: field where "mask_sys_error = (8, 8)"
definition mask_irq :: field where "mask_irq = (7, 7)"
definition mask_frq :: field where "mask_frq = (6, 6)"

definition all_enabled :: u64 where
  "all_enabled = 0"

definition all_disabled :: u64 where
  "all_disabled =
     (let s = 0; s = field_set mask_debug 1 s; s = field_set mask_frq 1 s; s = field_set mask_irq 1 s;
          s = field_set mask_sys_error 1 s in s)"

definition mask_read :: "SysRegs \<Rightarrow> u64" where
  "mask_read r = DAIF r"

definition mask_write :: "u64 \<Rightarrow> SysRegs \<Rightarrow> SysRegs" where
  "mask_write m r = r\<lparr>DAIF := m\<rparr>"

section \<open>Properties\<close>

text \<open>The disabled mask has exactly the bits of the four exception kinds.\<close>

lemma all_disabled_exact: "bit all_disabled i \<longleftrightarrow> i \<in> {6, 7, 8, 9}"
proof -
  have ok: "field_ok mask_debug" "field_ok mask_sys_error" "field_ok mask_irq" "field_ok mask_frq"
    by (simp_all add: field_ok_def mask_debug_def mask_sys_error_def mask_irq_def mask_frq_def)
  show ?thesis unfolding all_disabled_def Let_def
    by (simp add: bit_field_set ok) (auto simp: mask_debug_def mask_sys_error_def mask_irq_def mask_frq_def)
qed

text \<open>The classifications agree with the texts that are displayed for the class.\<close>

lemma data_abort_text: "is_data_abort ec \<longleftrightarrow> take 11 (exception_class_text ec) = ''[Data Abort''"
  by (simp add: is_data_abort_def is_user_space_data_page_fault_def is_kernel_data_page_fault_def exception_class_text_def)

lemma system_call_text: "is_system_call ec \<longleftrightarrow> exception_class_text ec = ''[SVC instruction]''"
  by (simp add: is_system_call_def exception_class_text_def)

definition fault_kind :: "nat \<Rightarrow> string" where
  "fault_kind k = [''Address size fault'', ''Translation fault'', ''Access flag fault'', ''Permission fault''] ! k"

definition level_digit :: "nat \<Rightarrow> string" where
  "level_digit l = ['' level 0'', '' level 1'', '' level 2'', '' level 3''] ! l"

text \<open>For the faults of the translation itself, the upper bits of the status code give the kind of
  fault and the lower two the level of the table.\<close>

lemma dfsc_kind_and_level:
  assumes "k < 4" and "l < 4"
  shows "take (length (fault_kind k) + 9) (data_abort_dfsc_description (4 * k + l)) = fault_kind k @ '','' @ level_digit l"
proof -
  have k: "k = 0 \<or> k = 1 \<or> k = 2 \<or> k = 3" and l: "l = 0 \<or> l = 1 \<or> l = 2 \<or> l = 3" using assms by linarith+
  show ?thesis using k l
    by (elim disjE) (simp_all add: fault_kind_def level_digit_def data_abort_dfsc_description_def)
qed

end
