(* ===== verification/Timer.thy ===== *)
theory Timer
  imports Gic2 Exceptions
begin

text \<open>
  The system timer (\<^verbatim>\<open>kernel/src/timer.rs\<close>).  Its registers belong to the executing core.  The
  interrupt controller is any implementation of its interface, with its own state.
\<close>

section \<open>Model\<close>

definition write_timer_value :: "nat \<Rightarrow> SysRegs \<Rightarrow> SysRegs" where
  "write_timer_value v r = r\<lparr>CNTP_TVAL_EL0 := v\<rparr>"

definition frequency :: "SysRegs \<Rightarrow> nat" where
  "frequency r = CNTFRQ_EL0 r"

definition ctl_istatus :: field where "ctl_istatus = (2, 2)"
definition ctl_imask :: field where "ctl_imask = (1, 1)"
definition ctl_enable :: field where "ctl_enable = (0, 0)"

definition ctl_read :: "SysRegs \<Rightarrow> u64" where
  "ctl_read r = CNTP_CTL_EL0 r"

definition ctl_write :: "u64 \<Rightarrow> SysRegs \<Rightarrow> SysRegs" where
  "ctl_write c r = r\<lparr>CNTP_CTL_EL0 := c\<rparr>"

definition timer_compatible :: "bytes list" where
  "timer_compatible = [''arm,armv7-timer'', ''arm,armv8-timer'']"

record Timer =
  int_id :: nat
  int_config :: Config
  reset_value :: nat

text \<open>The body of the loop over the properties; the state is the variable \<^verbatim>\<open>int\<close>.\<close>

definition timer_property :: "'s Controller \<Rightarrow> bytes \<Rightarrow> Value \<Rightarrow> (nat \<times> TriggerMode) option \<Rightarrow>
    (ParseError + (nat \<times> TriggerMode) option) panics" where
  "timer_property intc name v intr =
     (if name = ''compatible'' then
        (case as_strings v name of
           Inl e \<Rightarrow> Some (Inl e)
         | Inr strings \<Rightarrow> do {
             ok \<leftarrow> any_supported timer_compatible strings;
             Some (if ok then Inr intr else Inl (UnexpectedValue name v ''incompatible''))
           })
      else if name = ''interrupts'' then
        (case as_bytes v name of
           Inl e \<Rightarrow> Some (Inl e)
         | Inr interrupts_blob \<Rightarrow> do {
             i \<leftarrow> interrupt_in_device_tree intc interrupts_blob 1;
             case i of
               None \<Rightarrow> Some (Inl (UnexpectedValue name v ''expected interrupt #1 to exist''))
             | Some i \<Rightarrow> Some (Inr (Some i))
           })
      else Some (Inr intr))"

definition timer_in_device_tree :: "ByteOrder \<Rightarrow> DeviceTree \<Rightarrow> NodePropertyIter \<Rightarrow> 's Controller \<Rightarrow> nat \<Rightarrow>
    SysRegs \<Rightarrow> 's \<Rightarrow> ((ParseError + Timer) \<times> 's) panics" where
  "timer_in_device_tree bo dt it intc interval r s = do {
     intr \<leftarrow> for_each_property bo dt it (timer_property intc) None;
     case intr of
       Inl e \<Rightarrow> Some (Inl e, s)
     | Inr None \<Rightarrow> Some (Inl (PropertyNotFound ''interrupts''), s)
     | Inr (Some (i, trigger_mode)) \<Rightarrow> do {
         assert_p (interval \<noteq> 0);
         let t = \<lparr> int_id = i, int_config = \<lparr> priority = 0, mode = trigger_mode \<rparr>, reset_value = frequency r div interval \<rparr>;
         s' \<leftarrow> configure intc i (int_config t) s;
         Some (Inr t, s')
       }
   }"

definition timer_start_for_core :: "Timer \<Rightarrow> 's Controller \<Rightarrow> SysRegs \<Rightarrow> 's \<Rightarrow> (SysRegs \<times> 's) panics" where
  "timer_start_for_core t intc r s = do {
     let ctl = ctl_read r;
     let ctl = field_set ctl_enable 1 ctl;
     let ctl = field_set ctl_imask 0 ctl;
     let r = ctl_write ctl r;
     let r = write_timer_value 0 r;
     s' \<leftarrow> enable intc (int_id t) s;
     Some (r, s')
   }"

definition timer_interrupt_id :: "Timer \<Rightarrow> nat" where
  "timer_interrupt_id t = int_id t"

definition timer_reset_regs :: "Timer \<Rightarrow> SysRegs \<Rightarrow> SysRegs" where
  "timer_reset_regs t r = write_timer_value (reset_value t) r"

section \<open>Properties\<close>

definition timer_interrupt :: "'s Controller \<Rightarrow> Value \<Rightarrow> (nat \<times> TriggerMode) option" where
  "timer_interrupt intc v = (case v of
     Bytes b \<Rightarrow> (case interrupt_in_device_tree intc b 1 of Some (Some i) \<Rightarrow> Some i | _ \<Rightarrow> None)
   | _ \<Rightarrow> None)"

definition timer_accepts :: "'s Controller \<Rightarrow> bytes \<times> Value \<Rightarrow> bool" where
  "timer_accepts intc p \<longleftrightarrow> (case p of (name, v) \<Rightarrow>
     (name = ''compatible'' \<longrightarrow> supported_strings timer_compatible v) \<and>
     (name = ''interrupts'' \<longrightarrow> timer_interrupt intc v \<noteq> None))"

lemma timer_property_Inr:
  "timer_property intc name v intr = Some (Inr intr') \<longleftrightarrow> timer_accepts intc (name, v) \<and>
   intr' = (if name = ''interrupts'' then timer_interrupt intc v else intr)"
proof -
  consider "name = ''compatible''" | "name = ''interrupts''" | "name \<noteq> ''compatible''" "name \<noteq> ''interrupts''" by blast
  then show ?thesis
  proof cases
    case 1
    then show ?thesis
      by (cases v) (auto simp: timer_property_def timer_accepts_def as_strings_def supported_strings_def any_supported_def
          list_ex_iff split: bind_splits if_splits)
  next
    case 2
    then show ?thesis
      by (cases v) (auto simp: timer_property_def timer_accepts_def as_bytes_def timer_interrupt_def
          split: bind_splits option.splits)
  qed (auto simp: timer_property_def timer_accepts_def)
qed

lemma for_each_timer:
  "for_each (timer_property intc) ps intr = Some (Inr intr') \<longleftrightarrow> (\<forall>p \<in> set ps. timer_accepts intc p) \<and>
   intr' = (case map_of (rev ps) ''interrupts'' of None \<Rightarrow> intr | Some v \<Rightarrow> timer_interrupt intc v)"
proof -
  let ?u = "\<lambda>(name, v) x. if name = ''interrupts'' then timer_interrupt intc v else x"
  have "for_each (timer_property intc) ps intr = Some (Inr intr') \<longleftrightarrow> (\<forall>p \<in> set ps. timer_accepts intc p) \<and> intr' = fold ?u ps intr"
    by (rule for_each_exact) (simp add: timer_property_Inr)
  then show ?thesis by (simp add: fold_last)
qed

text \<open>The timer driver accepts a node exactly when every \<^verbatim>\<open>compatible\<close> list names a supported model
  and the second interrupt (the non-secure physical timer) of its last \<^verbatim>\<open>interrupts\<close> property can be
  decoded.  The timer then has that interrupt, with the highest priority, and expires
  \<^verbatim>\<open>interval\<close> times a second; the controller is configured for it and nothing else.\<close>

lemma timer_in_device_tree_exact:
  assumes "properties_from bo dt it = Some ps" and "0 < interval"
  shows "timer_in_device_tree bo dt it (gic_controller mm bo g) interval r d = Some (Inr t, d') \<longleftrightarrow>
    (\<forall>p \<in> set ps. timer_accepts (gic_controller mm bo g) p) \<and>
    (\<exists>b i m. map_of (rev ps) ''interrupts'' = Some (Bytes b) \<and> gic_interrupt_in_device_tree bo b 1 = Some (Some (i, m)) \<and>
       t = \<lparr> int_id = i, int_config = \<lparr> priority = 0, mode = m \<rparr>, reset_value = CNTFRQ_EL0 r div interval \<rparr> \<and>
       gic_configure mm g i \<lparr> priority = 0, mode = m \<rparr> d = Some d')"
proof -
  let ?ic = "gic_controller mm bo g"
  have "timer_in_device_tree bo dt it ?ic interval r d = Some (Inr t, d') \<longleftrightarrow>
      (\<exists>i m. for_each (timer_property ?ic) ps None = Some (Inr (Some (i, m))) \<and>
         t = \<lparr> int_id = i, int_config = \<lparr> priority = 0, mode = m \<rparr>, reset_value = CNTFRQ_EL0 r div interval \<rparr> \<and>
         gic_configure mm g i \<lparr> priority = 0, mode = m \<rparr> d = Some d')"
    unfolding timer_in_device_tree_def for_each_property_list [OF assms(1)] using assms(2)
    by (auto simp: frequency_def gic_controller_def Let_def split: bind_splits sum.splits option.splits prod.splits)
  also have "\<dots> \<longleftrightarrow> (\<forall>p \<in> set ps. timer_accepts ?ic p) \<and>
      (\<exists>v i m. map_of (rev ps) ''interrupts'' = Some v \<and> timer_interrupt ?ic v = Some (i, m) \<and>
       t = \<lparr> int_id = i, int_config = \<lparr> priority = 0, mode = m \<rparr>, reset_value = CNTFRQ_EL0 r div interval \<rparr> \<and>
       gic_configure mm g i \<lparr> priority = 0, mode = m \<rparr> d = Some d')"
    unfolding for_each_timer by (auto split: option.splits)
  also have "\<dots> \<longleftrightarrow> (\<forall>p \<in> set ps. timer_accepts ?ic p) \<and>
    (\<exists>b i m. map_of (rev ps) ''interrupts'' = Some (Bytes b) \<and> gic_interrupt_in_device_tree bo b 1 = Some (Some (i, m)) \<and>
       t = \<lparr> int_id = i, int_config = \<lparr> priority = 0, mode = m \<rparr>, reset_value = CNTFRQ_EL0 r div interval \<rparr> \<and>
       gic_configure mm g i \<lparr> priority = 0, mode = m \<rparr> d = Some d')"
  proof -
    have "timer_interrupt ?ic v = Some (i, m) \<longleftrightarrow> (\<exists>b. v = Bytes b \<and> gic_interrupt_in_device_tree bo b 1 = Some (Some (i, m)))" for v i m
      by (cases v) (auto simp: timer_interrupt_def gic_controller_def split: option.splits)
    then show ?thesis by auto
  qed
  finally show ?thesis .
qed

lemma virt_timer_accepted:
  "values_of (virt_timer, Some 2, Some 2) = [(''interrupts'', Bytes (enc_interrupts [(1, 13, 0x104), (1, 14, 0x104)])),
     (''compatible'', StringList (enc_strings [''arm,armv8-timer'', ''arm,armv7-timer'']))]"
  "gic_interrupt_in_device_tree BigEndian (enc_interrupts [(1, 13, 0x104), (1, 14, 0x104)]) 1 = Some (Some (30, Level))"
  "supported_strings timer_compatible (StringList (enc_strings [''arm,armv8-timer'', ''arm,armv7-timer'']))"
proof -
  show "values_of (virt_timer, Some 2, Some 2) = [(''interrupts'', Bytes (enc_interrupts [(1, 13, 0x104), (1, 14, 0x104)])),
     (''compatible'', StringList (enc_strings [''arm,armv8-timer'', ''arm,armv7-timer'']))]"
    by (simp add: virt_timer_def value_defs enc_interrupts_def)
  show "gic_interrupt_in_device_tree BigEndian (enc_interrupts [(1, 13, 0x104), (1, 14, 0x104)]) 1 = Some (Some (30, Level))"
    using gic_interrupt_enc [OF BigEndian_reads, of "[(1, 13, 0x104), (1, 14, 0x104)]" 1] by (simp add: gic_decode_def)
  show "supported_strings timer_compatible (StringList (enc_strings [''arm,armv8-timer'', ''arm,armv7-timer'']))"
    using strings_roundtrip [of "[''arm,armv8-timer'', ''arm,armv7-timer'']"]
    by (auto simp: supported_strings_def timer_compatible_def)
qed

lemma virt_timer_found:
  obtains it where "iter_node_properties BigEndian virt_blob ''/timer'' = Some (Some it)"
    "\<And>mm g r d. \<exists>d'. timer_in_device_tree BigEndian virt_blob it (gic_controller mm BigEndian g) 10 r d =
       Some (Inr \<lparr> int_id = 30, int_config = \<lparr> priority = 0, mode = Level \<rparr>, reset_value = CNTFRQ_EL0 r div 10 \<rparr>, d')"
proof -
  obtain it where it: "iter_node_properties BigEndian virt_blob ''/timer'' = Some (Some it)"
    "properties_from BigEndian virt_blob it = Some (values_of (virt_timer, Some 2, Some 2))"
    using virt_node_at(3) by (rule virt_properties)
  have i: "0 < (10 :: nat)" by simp
  show thesis
  proof (rule that [OF it(1)])
    fix mm :: "'d Mmio" and g r d
    show "\<exists>d'. timer_in_device_tree BigEndian virt_blob it (gic_controller mm BigEndian g) 10 r d =
       Some (Inr \<lparr> int_id = 30, int_config = \<lparr> priority = 0, mode = Level \<rparr>, reset_value = CNTFRQ_EL0 r div 10 \<rparr>, d')"
    proof (intro exI, rule timer_in_device_tree_exact [OF it(2) i, THEN iffD2], intro conjI exI)
      show "\<forall>p \<in> set (values_of (virt_timer, Some 2, Some 2)). timer_accepts (gic_controller mm BigEndian g) p"
        using virt_timer_accepted(2,3) by (simp add: virt_timer_accepted(1) timer_accepts_def timer_interrupt_def gic_controller_def)
    qed (use virt_timer_accepted(2) in \<open>simp_all add: virt_timer_accepted(1) gic_configure_def\<close>)
  qed
qed

text \<open>Starting the timer on a core enables it, unmasks its interrupt in the timer and in the
  controller, and lets it expire at once; no other register changes.\<close>

lemma timer_start_for_core_spec:
  "\<exists>r'. timer_start_for_core t (gic_controller mm bo g) r d = Some (r', the (gic_enable mm g (int_id t) d)) \<and>
     r' = r\<lparr>CNTP_CTL_EL0 := CNTP_CTL_EL0 r', CNTP_TVAL_EL0 := 0\<rparr> \<and>
     field_get ctl_enable (CNTP_CTL_EL0 r') = 1 \<and> field_get ctl_imask (CNTP_CTL_EL0 r') = 0 \<and>
     field_get ctl_istatus (CNTP_CTL_EL0 r') = field_get ctl_istatus (CNTP_CTL_EL0 r)"
proof -
  have ok: "field_ok ctl_enable" "field_ok ctl_imask" "field_ok ctl_istatus"
    and dj: "field_disjoint ctl_imask ctl_enable" "field_disjoint ctl_imask ctl_istatus" "field_disjoint ctl_enable ctl_istatus"
    by (simp_all add: field_ok_def field_disjoint_def ctl_enable_def ctl_imask_def ctl_istatus_def)
  have w: "snd ctl_enable < Suc (fst ctl_enable)" by (simp add: ctl_enable_def)
  show ?thesis
    by (simp add: timer_start_for_core_def gic_controller_def gic_enable_def ctl_read_def ctl_write_def write_timer_value_def Let_def
        field_get_set field_get_other ok dj w)
qed

end
