(* ===== verification/Context_Switch.thy ===== *)
theory Context_Switch
  imports Timer
begin

text \<open>
  The interrupt path of the kernel: thread switching (\<^verbatim>\<open>kernel/src/thread.rs\<close>) and the interrupt
  handler (\<^verbatim>\<open>kernel/src/exceptions/handlers.rs\<close>).  The state is that of the kernel as one core sees
  it: the statics, each \<open>None\<close> until its \<^verbatim>\<open>Once\<close> is set, the thread objects and their reference
  counts, the interrupt controller device and the system registers of the core.  The device and
  the scheduler queues are parameters.
\<close>

section \<open>State\<close>

record ('d, 'q) Kernel =
  device :: 'd
  regs :: SysRegs
  thread_objs :: threads
  counts :: arcs
  THREADS :: "HandleMap option"
  SCHEDULER :: "'q RoundRobinScheduler option"
  CONTROLLER :: "GenericV2 option"
  TIMER :: "Timer option"
  HANDLER_POLICY :: "(GenericV2 \<times> Timer) option"

section \<open>System registers\<close>

definition read_saved_program_status :: "SysRegs \<Rightarrow> u64" where
  "read_saved_program_status r = SPSR_EL1 r"

definition write_saved_program_status :: "u64 \<Rightarrow> SysRegs \<Rightarrow> SysRegs" where
  "write_saved_program_status v r = r\<lparr>SPSR_EL1 := v\<rparr>"

definition read_exception_link_reg :: "SysRegs \<Rightarrow> vaddr" where
  "read_exception_link_reg r = ELR_EL1 r"

definition write_exception_link_reg :: "vaddr \<Rightarrow> SysRegs \<Rightarrow> SysRegs" where
  "write_exception_link_reg a r = r\<lparr>ELR_EL1 := a\<rparr>"

definition read_stack_pointer :: "nat \<Rightarrow> SysRegs \<Rightarrow> vaddr panics" where
  "read_stack_pointer el r =
     (if el = 0 then Some (SP_EL0 r) else if el = 1 then Some (SP_EL1 r) else if el = 2 then Some (SP_EL2 r) else panic)"

definition write_stack_pointer :: "nat \<Rightarrow> vaddr \<Rightarrow> SysRegs \<Rightarrow> SysRegs panics" where
  "write_stack_pointer el sp r =
     (if el = 0 then Some (r\<lparr>SP_EL0 := sp\<rparr>) else if el = 1 then Some (r\<lparr>SP_EL1 := sp\<rparr>)
      else if el = 2 then Some (r\<lparr>SP_EL2 := sp\<rparr>) else panic)"

section \<open>Saving and restoring threads\<close>

text \<open>\<^verbatim>\<open>try_lock().expect(..)\<close> panics when the state is locked; the guard and the reference to the
  thread are dropped at the end.\<close>

definition save_current_thread_state :: "cpu \<Rightarrow> xregs \<Rightarrow> ('d, 'q) Kernel \<Rightarrow> ('d, 'q) Kernel panics" where
  "save_current_thread_state cpu_id registers k = do {
     sched \<leftarrow> SCHEDULER k;
     (t, c) \<leftarrow> current_thread cpu_id sched (counts k);
     assert_p (\<not> state_locked (thread_objs k t));
     sp \<leftarrow> read_stack_pointer 0 (regs k);
     let s = (processor_state (thread_objs k t))\<lparr>spsr := read_saved_program_status (regs k),
       program_counter := read_exception_link_reg (regs k), stack_pointer := sp, ps_registers := registers\<rparr>;
     c \<leftarrow> arc_drop t c;
     Some (k\<lparr>thread_objs := (thread_objs k)(t := (thread_objs k t)\<lparr>processor_state := s\<rparr>), counts := c\<rparr>)
   }"

definition restore_current_thread_state :: "cpu \<Rightarrow> ('d, 'q) Kernel \<Rightarrow> (xregs \<times> ('d, 'q) Kernel) panics" where
  "restore_current_thread_state cpu_id k = do {
     sched \<leftarrow> SCHEDULER k;
     (t, c) \<leftarrow> current_thread cpu_id sched (counts k);
     assert_p (\<not> state_locked (thread_objs k t));
     let s = processor_state (thread_objs k t);
     r \<leftarrow> write_stack_pointer 0 (stack_pointer s) (regs k);
     let r = write_exception_link_reg (program_counter s) r;
     let r = write_saved_program_status (spsr s) r;
     c \<leftarrow> arc_drop t c;
     Some (ps_registers s, k\<lparr>regs := r, counts := c\<rparr>)
   }"

section \<open>The interrupt handler\<close>

text \<open>The three objects that the handler policy refers to, acting on the whole state.\<close>

definition on_device :: "('d \<Rightarrow> 'd panics) \<Rightarrow> ('d, 'q) Kernel \<Rightarrow> ('d, 'q) Kernel panics" where
  "on_device f k = do { d \<leftarrow> f (device k); Some (k\<lparr>device := d\<rparr>) }"

definition kernel_controller :: "'d Mmio \<Rightarrow> ByteOrder \<Rightarrow> GenericV2 \<Rightarrow> ('d, 'q) Kernel Controller" where
  "kernel_controller mm bo g = (let c = gic_controller mm bo g in \<lparr>
     global_initialize = on_device (global_initialize c),
     initialize_for_core = on_device (initialize_for_core c),
     interrupt_in_device_tree = interrupt_in_device_tree c,
     configure = (\<lambda>i cfg. on_device (configure c i cfg)),
     enable = (\<lambda>i. on_device (enable c i)),
     disable = (\<lambda>i. on_device (disable c i)),
     clear_pending = (\<lambda>i. on_device (clear_pending c i)),
     ack_interrupt = (\<lambda>k. do { (i, d) \<leftarrow> ack_interrupt c (device k); Some (i, k\<lparr>device := d\<rparr>) }),
     finish_interrupt = (\<lambda>i. on_device (finish_interrupt c i)) \<rparr>)"

definition kernel_timer :: "Timer \<Rightarrow> ('d, 'q) Kernel SystemTimer" where
  "kernel_timer t = \<lparr> interrupt_id = timer_interrupt_id t, timer_reset = (\<lambda>k. Some (k\<lparr>regs := timer_reset_regs t (regs k)\<rparr>)) \<rparr>"

definition kernel_time_slice :: "'q SegQueue \<Rightarrow> cpu \<Rightarrow> ('d, 'q) Kernel \<Rightarrow> ('d, 'q) Kernel panics" where
  "kernel_time_slice sq cpu_id k = do {
     sched \<leftarrow> SCHEDULER k;
     sched \<leftarrow> next_time_slice sq (\<lambda>t. thread_state (thread_objs k t)) cpu_id sched;
     Some (k\<lparr>SCHEDULER := Some sched\<rparr>)
   }"

definition kernel_handler :: "'d Mmio \<Rightarrow> ByteOrder \<Rightarrow> 'q SegQueue \<Rightarrow> cpu \<Rightarrow> GenericV2 \<times> Timer \<Rightarrow> ('d, 'q) Kernel Handler" where
  "kernel_handler mm bo sq cpu_id p =
     handler_new (kernel_controller mm bo (fst p)) (kernel_timer (snd p)) (kernel_time_slice sq cpu_id)"

definition handle_interrupt :: "'d Mmio \<Rightarrow> ByteOrder \<Rightarrow> 'q SegQueue \<Rightarrow> cpu \<Rightarrow> xregs \<Rightarrow> ('d, 'q) Kernel \<Rightarrow>
    (xregs \<times> ('d, 'q) Kernel) panics" where
  "handle_interrupt mm bo sq cpu_id registers k = do {
     k \<leftarrow> save_current_thread_state cpu_id registers k;
     policy \<leftarrow> HANDLER_POLICY k;
     (r, k) \<leftarrow> process_interrupts (kernel_handler mm bo sq cpu_id policy) k;
     case r of
       Inl e \<Rightarrow> panic
     | Inr _ \<Rightarrow> restore_current_thread_state cpu_id k
   }"

section \<open>The policy on the kernel\<close>

text \<open>What the architecture says of the controller: \<open>pend d\<close> are the interrupts that the next reads of
  the acknowledge register report, in order, and \<open>act d\<close> those that are active, that is,
  acknowledged and not finished.  Priorities are left out: a controller that follows them reports no pending
  interrupt as long as one of the same or a higher priority is active.  The kernel finishes each interrupt before it acknowledges the next,
  so that in its loops no interrupt is active when the register is read.\<close>

definition gic_device :: "'d Mmio \<Rightarrow> GenericV2 \<Rightarrow> ('d \<Rightarrow> nat list) \<Rightarrow> ('d \<Rightarrow> nat list) \<Rightarrow> bool" where
  "gic_device mm g pend act \<longleftrightarrow>
     (\<forall>d. pend d = [] \<longrightarrow> (\<exists>d'. mm_read32 mm (word_ptr (cpu_base g) (cpu_regs Gicc_IAR)) d = (1023, d') \<and> pend d' = [] \<and> act d' = act d)) \<and>
     (\<forall>d i is. pend d = i # is \<longrightarrow> i \<noteq> 1023 \<and>
        (\<exists>d'. mm_read32 mm (word_ptr (cpu_base g) (cpu_regs Gicc_IAR)) d = (i, d') \<and> pend d' = is \<and> act d' = i # act d)) \<and>
     (\<forall>d i. pend (mm_write32 mm (word_ptr (cpu_base g) (cpu_regs Gicc_EOIR)) i d) = pend d \<and>
        act (mm_write32 mm (word_ptr (cpu_base g) (cpu_regs Gicc_EOIR)) i d) = remove1 i (act d))"

definition runnable :: "threads \<Rightarrow> arc \<Rightarrow> bool" where
  "runnable objs t \<longleftrightarrow> thread_state (objs t) = Some Running"

definition kernel_inv :: "'d Mmio \<Rightarrow> 'q SegQueue \<Rightarrow> ('q \<Rightarrow> arc list) \<Rightarrow> ('d \<Rightarrow> nat list) \<Rightarrow> ('d \<Rightarrow> nat list) \<Rightarrow> cpu \<Rightarrow>
    GenericV2 \<Rightarrow> ('d, 'q) Kernel \<Rightarrow> bool" where
  "kernel_inv mm sq ql pend act cpu_id g k \<longleftrightarrow> fifo sq ql \<and> gic_device mm g pend act \<and>
     (\<exists>s cs. SCHEDULER k = Some s \<and> core_state ql s cpu_id = Some cs \<and>
        (\<forall>t \<in> insert (fst cs) (set (snd cs)). thread_state (thread_objs k t) \<noteq> None))"

type_synonym 'r view = "(arc \<times> arc list) \<times> nat list \<times> threads \<times> arcs \<times> 'r"

definition kernel_view :: "('q \<Rightarrow> arc list) \<Rightarrow> ('d \<Rightarrow> nat list) \<Rightarrow> cpu \<Rightarrow> ('d, 'q) Kernel \<Rightarrow> (u64 \<times> usize \<times> usize) view" where
  "kernel_view ql act cpu_id k = (the (core_state ql (the (SCHEDULER k)) cpu_id), act (device k), thread_objs k, counts k,
     SPSR_EL1 (regs k), ELR_EL1 (regs k), SP_EL0 (regs k))"

definition view_taken :: "nat \<Rightarrow> 'r view \<Rightarrow> 'r view" where
  "view_taken i v = (case v of (cs, a, rest) \<Rightarrow> (cs, i # a, rest))"

definition view_sliced :: "'r view \<Rightarrow> 'r view" where
  "view_sliced v = (case v of (cs, a, objs, rest) \<Rightarrow> (slice_spec (runnable objs) cs, a, objs, rest))"

definition view_finished :: "nat \<Rightarrow> 'r view \<Rightarrow> 'r view" where
  "view_finished i v = (case v of (cs, a, rest) \<Rightarrow> (cs, remove1 i a, rest))"

lemma slice_spec_threads:
  "insert (fst (slice_spec r cs)) (set (snd (slice_spec r cs))) = insert (fst cs) (set (snd cs))"
  using slice_spec_mset [of r cs] by (metis set_mset_add_mset_insert set_mset_mset)

lemma sliced_threads: "insert (fst ((slice_spec r ^^ n) x)) (set (snd ((slice_spec r ^^ n) x))) = insert (fst x) (set (snd x))"
  by (induction n) (simp_all add: slice_spec_threads)

lemma kernel_time_slice_spec:
  assumes "kernel_inv mm sq ql pend act cpu_id g k"
  shows "\<exists>k'. kernel_time_slice sq cpu_id k = Some k' \<and> kernel_inv mm sq ql pend act cpu_id g k' \<and>
    device k' = device k \<and> kernel_view ql act cpu_id k' = view_sliced (kernel_view ql act cpu_id k)"
proof -
  obtain s cur ts where s: "fifo sq ql" "SCHEDULER k = Some s" "core_state ql s cpu_id = Some (cur, ts)"
    "\<forall>t \<in> insert cur (set ts). thread_state (thread_objs k t) \<noteq> None"
    using assms by (auto simp: kernel_inv_def)
  let ?r = "runnable (thread_objs k)"
  have st: "\<forall>t \<in> set ts. thread_state (thread_objs k t) = Some (if ?r t then Running else Blocked)"
  proof
    fix t assume "t \<in> set ts"
    then obtain x where "thread_state (thread_objs k t) = Some x" using s(4) by blast
    then show "thread_state (thread_objs k t) = Some (if ?r t then Running else Blocked)"
      by (cases x) (simp_all add: runnable_def)
  qed
  obtain s' where s': "next_time_slice sq (\<lambda>t. thread_state (thread_objs k t)) cpu_id s = Some s'"
    "core_state ql s' cpu_id = Some (slice_spec ?r (cur, ts))"
    using next_time_slice_spec [OF s(1,3) st] by blast
  have "kernel_time_slice sq cpu_id k = Some (k\<lparr>SCHEDULER := Some s'\<rparr>)" using s(2) s'(1) by (simp add: kernel_time_slice_def)
  moreover have "kernel_inv mm sq ql pend act cpu_id g (k\<lparr>SCHEDULER := Some s'\<rparr>)"
    unfolding kernel_inv_def
  proof (intro conjI exI)
    show "\<forall>t \<in> insert (fst (slice_spec ?r (cur, ts))) (set (snd (slice_spec ?r (cur, ts)))).
        thread_state (thread_objs (k\<lparr>SCHEDULER := Some s'\<rparr>) t) \<noteq> None"
      using s(4) unfolding slice_spec_threads by simp
  qed (use assms s'(2) in \<open>simp_all add: kernel_inv_def\<close>)
  ultimately show ?thesis using s s'(2) by (simp add: kernel_view_def view_sliced_def)
qed

interpretation gic_policy: interrupt_policy "kernel_handler mm bo sq cpu_id (g, t)" "kernel_inv mm sq ql pend act cpu_id g"
  "\<lambda>k. pend (device k)" "kernel_view ql act cpu_id" view_taken view_sliced view_finished
  for mm :: "'d Mmio" and bo and sq :: "'q SegQueue" and cpu_id g t ql pend act
proof
  fix k :: "('d, 'q) Kernel" and i "is"
  assume inv: "kernel_inv mm sq ql pend act cpu_id g k"
  note defs = kernel_handler_def handler_new_def kernel_controller_def gic_controller_def kernel_timer_def on_device_def Let_def
    kernel_inv_def kernel_view_def
  have g: "gic_device mm g pend act" using inv by (simp add: kernel_inv_def)
  show "\<exists>k'. ack_interrupt (controller (kernel_handler mm bo sq cpu_id (g, t))) k = Some (None, k') \<and>
      kernel_inv mm sq ql pend act cpu_id g k' \<and> kernel_view ql act cpu_id k' = kernel_view ql act cpu_id k"
    if p: "pend (device k) = []"
  proof -
    obtain d' where "mm_read32 mm (word_ptr (cpu_base g) (cpu_regs Gicc_IAR)) (device k) = (1023, d')" "act d' = act (device k)"
      using g p unfolding gic_device_def by blast
    then show ?thesis using inv by (simp add: defs gic_ack_interrupt_def INTID_NONE_PENDING_def del: cpu_regs.simps)
  qed
  show "\<exists>k'. ack_interrupt (controller (kernel_handler mm bo sq cpu_id (g, t))) k = Some (Some i, k') \<and>
      kernel_inv mm sq ql pend act cpu_id g k' \<and> pend (device k') = is \<and>
      kernel_view ql act cpu_id k' = view_taken i (kernel_view ql act cpu_id k)"
    if p: "pend (device k) = i # is"
  proof -
    obtain d' where "mm_read32 mm (word_ptr (cpu_base g) (cpu_regs Gicc_IAR)) (device k) = (i, d')" "i \<noteq> 1023" "pend d' = is"
      "act d' = i # act (device k)"
      using g p unfolding gic_device_def by blast
    then show ?thesis using inv
      by (simp add: defs gic_ack_interrupt_def INTID_NONE_PENDING_def view_taken_def del: cpu_regs.simps)
  qed
  show "\<exists>k'. scheduler_slice (kernel_handler mm bo sq cpu_id (g, t)) k = Some k' \<and> kernel_inv mm sq ql pend act cpu_id g k' \<and>
      pend (device k') = pend (device k) \<and> kernel_view ql act cpu_id k' = view_sliced (kernel_view ql act cpu_id k)"
    using kernel_time_slice_spec [OF inv] by (auto simp: kernel_handler_def handler_new_def)
  show "\<exists>k'. timer_reset (timer (kernel_handler mm bo sq cpu_id (g, t))) k = Some k' \<and> kernel_inv mm sq ql pend act cpu_id g k' \<and>
      pend (device k') = pend (device k) \<and> kernel_view ql act cpu_id k' = kernel_view ql act cpu_id k"
    using inv by (simp add: defs timer_reset_regs_def write_timer_value_def)
  show "\<exists>k'. finish_interrupt (controller (kernel_handler mm bo sq cpu_id (g, t))) i k = Some k' \<and>
      kernel_inv mm sq ql pend act cpu_id g k' \<and> pend (device k') = pend (device k) \<and>
      kernel_view ql act cpu_id k' = view_finished i (kernel_view ql act cpu_id k)"
    using inv g by (simp add: defs gic_finish_interrupt_def gic_device_def view_finished_def)
qed

lemma ticks:
  fixes rest :: "arcs \<times> u64 \<times> usize \<times> usize"
  shows "(interrupt_policy.tick (kernel_handler mm bo sq cpu_id (g, t)) view_taken view_sliced view_finished ^^ n) (cs, a, objs, rest) =
   ((slice_spec (runnable objs) ^^ n) cs, a, objs, rest)"
proof (induction n)
  case (Suc n)
  then show ?case
    by (simp only: funpow.simps comp_apply gic_policy.tick_def) (simp add: view_taken_def view_sliced_def view_finished_def)
qed simp

lemma current_thread_core:
  assumes "core_state ql s cpu_id = Some (cur, ts)" and "c cur \<noteq> 0"
  shows "current_thread cpu_id s c = Some (cur, c(cur := c cur + 1))"
  using assms by (auto simp: core_state_Some current_thread_def arc_swap_load_def increment_strong_count_def Let_def)

section \<open>Switching threads\<close>

text \<open>The state of the processor as it is saved for a thread.\<close>

definition processor_at :: "SysRegs \<Rightarrow> xregs \<Rightarrow> ProcessorState" where
  "processor_at r registers = \<lparr> spsr = SPSR_EL1 r, program_counter = ELR_EL1 r, stack_pointer = SP_EL0 r, ps_registers = registers \<rparr>"

lemma save_spec:
  assumes "SCHEDULER k = Some s" and "core_state ql s cpu_id = Some (cur, ts)" and "\<not> state_locked (thread_objs k cur)"
    and "counts k cur \<noteq> 0"
  shows "save_current_thread_state cpu_id registers k =
    Some (k\<lparr>thread_objs := (thread_objs k)(cur := (thread_objs k cur)\<lparr>processor_state := processor_at (regs k) registers\<rparr>)\<rparr>)"
proof -
  have upd: "(processor_state x)\<lparr>spsr := a, program_counter := b, stack_pointer := c, ps_registers := d\<rparr> =
      \<lparr> spsr = a, program_counter = b, stack_pointer = c, ps_registers = d \<rparr>" for x :: Thread and a b c d
    by (cases "processor_state x") simp
  show ?thesis using assms(1,3) current_thread_core [where c = "counts k", OF assms(2,4)]
    by (simp add: save_current_thread_state_def processor_at_def read_stack_pointer_def read_saved_program_status_def
        read_exception_link_reg_def arc_drop_def Let_def upd)
qed

lemma restore_spec:
  assumes "SCHEDULER k = Some s" and "core_state ql s cpu_id = Some (cur, ts)" and "\<not> state_locked (thread_objs k cur)"
    and "counts k cur \<noteq> 0"
  shows "\<exists>registers k'. restore_current_thread_state cpu_id k = Some (registers, k') \<and>
    processor_at (regs k') registers = processor_state (thread_objs k cur) \<and> k' = k\<lparr>regs := regs k'\<rparr>"
proof -
  note current_thread_core [where c = "counts k", OF assms(2,4)]
  then show ?thesis using assms(1,3)
    by (simp add: restore_current_thread_state_def processor_at_def write_stack_pointer_def write_saved_program_status_def
        write_exception_link_reg_def arc_drop_def Let_def)
qed

text \<open>What the interrupt path needs of the kernel when an interrupt arrives.\<close>

definition switch_ready :: "'d Mmio \<Rightarrow> 'q SegQueue \<Rightarrow> ('q \<Rightarrow> arc list) \<Rightarrow> ('d \<Rightarrow> nat list) \<Rightarrow> ('d \<Rightarrow> nat list) \<Rightarrow> cpu \<Rightarrow>
    GenericV2 \<Rightarrow> Timer \<Rightarrow> arc \<Rightarrow> arc list \<Rightarrow> ('d, 'q) Kernel \<Rightarrow> bool" where
  "switch_ready mm sq ql pend act cpu_id g t cur ts k \<longleftrightarrow> fifo sq ql \<and> gic_device mm g pend act \<and>
     HANDLER_POLICY k = Some (g, t) \<and>
     (\<exists>s. SCHEDULER k = Some s \<and> core_state ql s cpu_id = Some (cur, ts)) \<and>
     (\<forall>th \<in> insert cur (set ts). thread_state (thread_objs k th) \<noteq> None \<and> \<not> state_locked (thread_objs k th) \<and> 0 < counts k th)"

lemma switch_saved:
  assumes "switch_ready mm sq ql pend act cpu_id g t cur ts k"
  obtains k1 where "save_current_thread_state cpu_id registers k = Some k1"
    "kernel_inv mm sq ql pend act cpu_id g k1" "HANDLER_POLICY k1 = Some (g, t)" "device k1 = device k"
    "processor_state (thread_objs k1 cur) = processor_at (regs k) registers" "\<forall>th. th \<noteq> cur \<longrightarrow> thread_objs k1 th = thread_objs k th"
    "kernel_view ql act cpu_id k1 = ((cur, ts), act (device k), thread_objs k1, counts k, SPSR_EL1 (regs k), ELR_EL1 (regs k), SP_EL0 (regs k))"
    "runnable (thread_objs k1) = runnable (thread_objs k)"
    "\<forall>th \<in> insert cur (set ts). \<not> state_locked (thread_objs k1 th)"
proof -
  obtain s where s: "SCHEDULER k = Some s" "core_state ql s cpu_id = Some (cur, ts)" "\<not> state_locked (thread_objs k cur)"
    "counts k cur \<noteq> 0"
    using assms by (auto simp: switch_ready_def)
  let ?k = "k\<lparr>thread_objs := (thread_objs k)(cur := (thread_objs k cur)\<lparr>processor_state := processor_at (regs k) registers\<rparr>)\<rparr>"
  have ts: "thread_state (thread_objs ?k th) = thread_state (thread_objs k th)" for th by (simp add: thread_state_def)
  have inv: "kernel_inv mm sq ql pend act cpu_id g ?k"
    unfolding kernel_inv_def ts using assms s by (simp add: switch_ready_def)
  have run: "runnable (thread_objs ?k) = runnable (thread_objs k)" unfolding runnable_def ts ..
  show thesis
    by (rule that [OF save_spec [OF s] inv])
      (use s run assms in \<open>simp_all add: kernel_view_def switch_ready_def\<close>)
qed

section \<open>An example\<close>

text \<open>A controller that holds its pending and active interrupts as two lists, and a kernel on it with
  the threads 8 (running), 16 (blocked), 32 and 48.\<close>

definition list_gic :: "GenericV2 \<Rightarrow> (nat list \<times> nat list) Mmio" where
  "list_gic g = \<lparr>
     mm_read32 = (\<lambda>a (p, q). if a = word_ptr (cpu_base g) (cpu_regs Gicc_IAR)
       then (case p of [] \<Rightarrow> (1023, p, q) | i # is \<Rightarrow> if i = 1023 then (1023, [], q) else (i, is, i # q)) else (0, p, q)),
     mm_write32 = (\<lambda>a v (p, q). if a = word_ptr (cpu_base g) (cpu_regs Gicc_EOIR) then (p, remove1 v q) else (p, q)),
     mm_write8 = (\<lambda>a v d. d) \<rparr>"

lemma list_gic_device: "gic_device (list_gic g) g (\<lambda>(p, q). takeWhile (\<lambda>i. i \<noteq> 1023) p) snd"
  by (auto simp: gic_device_def list_gic_def word_ptr_def split: list.splits if_splits)

definition virt_gic :: GenericV2 where
  "virt_gic = \<lparr> distributor_base = 0x8000000, cpu_base = 0x8010000 \<rparr>"

definition timer30 :: Timer where
  "timer30 = \<lparr> int_id = 30, int_config = \<lparr> priority = 0, mode = Level \<rparr>, reset_value = 6250000 \<rparr>"

definition thread_example :: "nat \<Rightarrow> Thread" where
  "thread_example n = \<lparr> thread_id = n, thread_properties = (if n = 16 then 1 else 0),
     processor_state = \<lparr> spsr = 0, program_counter = 1000 + n, stack_pointer = 2000 + n, ps_registers = replicate 31 (of_nat n) \<rparr>,
     state_locked = False \<rparr>"

definition kernel_example :: "nat list \<Rightarrow> (nat list \<times> nat list, arc list) Kernel" where
  "kernel_example p = \<lparr> device = (p, []),
     regs = \<lparr> SPSR_EL1 = 5, ELR_EL1 = 77, SP_EL0 = 88, SP_EL1 = 0, SP_EL2 = 0, CNTP_CTL_EL0 = 1, CNTP_TVAL_EL0 = 0,
       CNTFRQ_EL0 = 62500000, DAIF = 0 \<rparr>,
     thread_objs = thread_example, counts = (\<lambda>a. 1), THREADS = None, SCHEDULER = Some sched3,
     CONTROLLER = Some virt_gic, TIMER = Some timer30, HANDLER_POLICY = Some (virt_gic, timer30) \<rparr>"

lemma thread_example_state: "thread_state (thread_example n) = Some (if n = 16 then Blocked else Running)"
  by (simp add: thread_state_def thread_example_def field_get_def state_from_u8_def ThreadProperties_state_def)

lemma kernel_example_ready:
  "switch_ready (list_gic virt_gic) list_queue id (\<lambda>(p, q). takeWhile (\<lambda>i. i \<noteq> 1023) p) snd 0 virt_gic timer30 8 [16, 32, 48]
     (kernel_example p)"
  using list_gic_device [of virt_gic] list_queue_fifo sched3_state
  by (simp add: switch_ready_def kernel_example_def thread_example_state) (simp add: thread_example_def)

section \<open>Interrupts\<close>

text \<open>A timer interrupt switches threads without losing anything.  When \<open>n\<close> timer interrupts are
  pending, the handler saves the complete state of the processor in the thread that was running,
  takes \<open>n\<close> time slices and resumes with the complete saved state of the thread that is current
  then; no other thread object changes, every interrupt taken is finished, and the reference
  counts are as before.\<close>

lemma handle_timer_interrupts:
  assumes "switch_ready mm sq ql pend act cpu_id g t cur ts k" and "pend (device k) = replicate n (int_id t)"
  shows "\<exists>registers' k' cur' ts'. handle_interrupt mm bo sq cpu_id registers k = Some (registers', k') \<and>
    (cur', ts') = (slice_spec (runnable (thread_objs k)) ^^ n) (cur, ts) \<and>
    core_state ql (the (SCHEDULER k')) cpu_id = Some (cur', ts') \<and>
    processor_state (thread_objs k' cur) = processor_at (regs k) registers \<and>
    (\<forall>th. th \<noteq> cur \<longrightarrow> thread_objs k' th = thread_objs k th) \<and>
    processor_at (regs k') registers' = processor_state (thread_objs k' cur') \<and>
    act (device k') = act (device k) \<and> counts k' = counts k"
proof -
  obtain k1 where k1: "save_current_thread_state cpu_id registers k = Some k1"
    "kernel_inv mm sq ql pend act cpu_id g k1" "HANDLER_POLICY k1 = Some (g, t)" "device k1 = device k"
    "processor_state (thread_objs k1 cur) = processor_at (regs k) registers" "\<forall>th. th \<noteq> cur \<longrightarrow> thread_objs k1 th = thread_objs k th"
    "kernel_view ql act cpu_id k1 = ((cur, ts), act (device k), thread_objs k1, counts k, SPSR_EL1 (regs k), ELR_EL1 (regs k), SP_EL0 (regs k))"
    "runnable (thread_objs k1) = runnable (thread_objs k)"
    "\<forall>th \<in> insert cur (set ts). \<not> state_locked (thread_objs k1 th)"
    using assms(1) by (rule switch_saved)
  let ?h = "kernel_handler mm bo sq cpu_id (g, t)"
  have i: "interrupt_id (timer ?h) = int_id t" by (simp add: kernel_handler_def handler_new_def kernel_timer_def timer_interrupt_id_def)
  have p: "pend (device k1) = replicate n (interrupt_id (timer ?h))" unfolding i k1(4) by (rule assms(2))
  obtain cur' ts' where cs: "(slice_spec (runnable (thread_objs k)) ^^ n) (cur, ts) = (cur', ts')" by fastforce
  obtain k2 where k2: "process_interrupts ?h k1 = Some (Inr (), k2)" "kernel_inv mm sq ql pend act cpu_id g k2"
    "kernel_view ql act cpu_id k2 = ((cur', ts'), act (device k), thread_objs k1, counts k, SPSR_EL1 (regs k), ELR_EL1 (regs k), SP_EL0 (regs k))"
    using gic_policy.all_handled [OF k1(2) p] unfolding k1(7) ticks k1(8) cs by blast
  obtain s where s: "SCHEDULER k2 = Some s" "core_state ql s cpu_id = Some (cur', ts')"
    using k2(2,3) by (auto simp: kernel_inv_def kernel_view_def)
  have th: "thread_objs k2 = thread_objs k1" "counts k2 = counts k" "act (device k2) = act (device k)"
    using k2(3) by (simp_all add: kernel_view_def)
  from sliced_threads [of n "runnable (thread_objs k)" "(cur, ts)"] have "cur' \<in> insert cur (set ts)" unfolding cs by auto
  then have "\<not> state_locked (thread_objs k2 cur')" "counts k2 cur' \<noteq> 0"
    using k1(9) assms(1) unfolding th by (auto simp: switch_ready_def)
  from restore_spec [OF s this] obtain registers' k' where k': "restore_current_thread_state cpu_id k2 = Some (registers', k')"
    "processor_at (regs k') registers' = processor_state (thread_objs k2 cur')" "k' = k2\<lparr>regs := regs k'\<rparr>" by blast
  have "handle_interrupt mm bo sq cpu_id registers k = Some (registers', k')"
    using k1(1,3) k2(1) k'(1) by (simp add: handle_interrupt_def)
  moreover have "thread_objs k' = thread_objs k1" "counts k' = counts k" "device k' = device k2" "SCHEDULER k' = Some s"
    using arg_cong [OF k'(3), of thread_objs] arg_cong [OF k'(3), of counts] arg_cong [OF k'(3), of device]
      arg_cong [OF k'(3), of SCHEDULER] th s(1) by simp_all
  ultimately show ?thesis using cs s(2) k1(5,6) k'(2) th by auto
qed

lemma handle_timer_interrupts_example:
  "\<exists>registers' k'. handle_interrupt (list_gic virt_gic) BigEndian list_queue 0 (replicate 31 7) (kernel_example [30]) = Some (registers', k') \<and>
     core_state id (the (SCHEDULER k')) 0 = Some (32, [48, 16, 8]) \<and> processor_at (regs k') registers' = processor_state (thread_example 32) \<and>
     snd (device k') = []"
  using handle_timer_interrupts [OF kernel_example_ready [of "[30]"], of 1 BigEndian "replicate 31 7"]
  by (auto simp: kernel_example_def timer30_def slice_spec_def runnable_def thread_example_state)

text \<open>C36: an interrupt that is not the timer's makes the kernel panic; the policy has reported it
  without finishing it, so the controller still has it as active.\<close>

theorem unknown_interrupt_panics:
  assumes "switch_ready mm sq ql pend act cpu_id g t cur ts k" and "pend (device k) = replicate n (int_id t) @ i # is"
    and "i \<noteq> int_id t"
  shows "handle_interrupt mm bo sq cpu_id registers k = None \<and>
    (\<exists>k1 k2. save_current_thread_state cpu_id registers k = Some k1 \<and>
      process_interrupts (kernel_handler mm bo sq cpu_id (g, t)) k1 = Some (Inl (UnknownInterrupt i), k2) \<and>
      act (device k2) = i # act (device k))"
proof -
  obtain k1 where k1: "save_current_thread_state cpu_id registers k = Some k1"
    "kernel_inv mm sq ql pend act cpu_id g k1" "HANDLER_POLICY k1 = Some (g, t)" "device k1 = device k"
    "kernel_view ql act cpu_id k1 = ((cur, ts), act (device k), thread_objs k1, counts k, SPSR_EL1 (regs k), ELR_EL1 (regs k), SP_EL0 (regs k))"
    using assms(1) by (rule switch_saved)
  let ?h = "kernel_handler mm bo sq cpu_id (g, t)"
  have i: "interrupt_id (timer ?h) = int_id t" by (simp add: kernel_handler_def handler_new_def kernel_timer_def timer_interrupt_id_def)
  have p: "pend (device k1) = replicate n (interrupt_id (timer ?h)) @ i # is" unfolding i k1(4) by (rule assms(2))
  have ne: "i \<noteq> interrupt_id (timer ?h)" unfolding i by (rule assms(3))
  obtain k2 where k2: "process_interrupts ?h k1 = Some (Inl (UnknownInterrupt i), k2)" "act (device k2) = i # act (device k)"
    using gic_policy.unknown_reported [OF k1(2) p ne] unfolding k1(5) ticks by (auto simp: view_taken_def kernel_view_def)
  then show ?thesis using k1(1,3) by (auto simp: handle_interrupt_def)
qed

theorem unknown_interrupt_panics_witness:
  "handle_interrupt (list_gic virt_gic) BigEndian list_queue 0 (replicate 31 7) (kernel_example [30, 33]) = None"
  using unknown_interrupt_panics [OF kernel_example_ready [of "[30, 33]"], of 1 33 "[]" BigEndian "replicate 31 7"]
  by (simp add: kernel_example_def timer30_def)

end
