(* ===== verification/Page_Alloc.thy ===== *)
theory Page_Alloc
  imports Addresses
begin

text \<open>
  The trait \<^verbatim>\<open>PageAllocator\<close> of \<^verbatim>\<open>kernel_core/src/memory/mod.rs\<close>: its provided
  method \<^verbatim>\<open>allocate_zeroed\<close>, over any implementation of \<^verbatim>\<open>allocate\<close>, and the contract
  \<open>page_source\<close> under which the clients of a page allocator (the page tables and the
  kernel heap) are verified.  The buddy allocator is shown to satisfy it in theory
  \<^verbatim>\<open>Buddy\<close>.
\<close>

type_synonym ('s, 'r) alloc_result = "((MemoryError + 'r) \<times> 's \<times> mem) panics"

text \<open>\<^verbatim>\<open>core::ptr::write_bytes(p, 0, len)\<close>.\<close>

definition write_zeroes :: "mem \<Rightarrow> ptr \<Rightarrow> usize \<Rightarrow> mem" where
  "write_zeroes m p len = (\<lambda>x. if p \<le> x \<and> x < p + len then 0 else m x)"

definition allocate_zeroed ::
  "('s \<Rightarrow> mem \<Rightarrow> usize \<Rightarrow> ('s, paddr) alloc_result) \<Rightarrow> PageSize \<Rightarrow> 's \<Rightarrow> mem \<Rightarrow> usize \<Rightarrow>
     ('s, paddr) alloc_result" where
  "allocate_zeroed allocate ps s m num_pages = do {
     (r, s', m') \<leftarrow> allocate s m num_pages;
     case r of
       Inl e \<Rightarrow> Some (Inl e, s', m')
     | Inr pages \<Rightarrow> do {
         len \<leftarrow> page_size_mul ps num_pages;
         Some (Inr pages, s', write_zeroes m' (ptr_from_phys pages) len)
       }
   }"

text \<open>The bytes of \<open>n\<close> pages at a physical address, as the kernel sees them.\<close>

definition page_span :: "PageSize \<Rightarrow> paddr \<Rightarrow> usize \<Rightarrow> usize set" where
  "page_span ps p n = {ptr_from_phys p ..< ptr_from_phys p + n * page_bytes ps}"

text \<open>The contract: \<open>pool s m P\<close> says that the allocator state \<open>s\<close> is well-formed
  in memory \<open>m\<close> and that \<open>P\<close> are the bytes it may still hand out.\<close>

locale page_source =
  fixes alloc :: "'s \<Rightarrow> mem \<Rightarrow> usize \<Rightarrow> ('s, paddr) alloc_result"
    and psize :: "'s \<Rightarrow> PageSize"
    and pool :: "'s \<Rightarrow> mem \<Rightarrow> usize set \<Rightarrow> bool"
  assumes alloc_returns: "pool s m P \<Longrightarrow> \<exists>r s' m'. alloc s m n = Some (r, s', m')"
    and alloc_fails: "pool s m P \<Longrightarrow> alloc s m n = Some (Inl e, s', m') \<Longrightarrow> s' = s \<and> m' = m"
    and alloc_page: "pool s m P \<Longrightarrow> alloc s m n = Some (Inr p, s', m') \<Longrightarrow>
          p mod page_bytes (psize s) = 0 \<and> p + n * page_bytes (psize s) \<le> 2 ^ 48 \<and> psize s' = psize s"
    and alloc_takes: "pool s m P \<Longrightarrow> alloc s m n = Some (Inr p, s', m') \<Longrightarrow>
          \<exists>Q \<subseteq> P. page_span (psize s) p n \<subseteq> Q \<and> pool s' m' (P - Q)"
    and alloc_exhausted: "pool s m P \<Longrightarrow> alloc s m 1 = Some (Inl e, s', m') \<Longrightarrow> P = {} \<and> e = OutOfMemory"
    and alloc_frame: "pool s m P \<Longrightarrow> alloc s m n = Some (r, s', m') \<Longrightarrow> x \<notin> P \<Longrightarrow> m' x = m x"
    and pool_local: "pool s m P \<Longrightarrow> (\<And>x. x \<in> P \<Longrightarrow> m' x = m x) \<Longrightarrow> pool s m' P"
begin

lemma zeroed_fails:
  assumes "pool s m P" and "allocate_zeroed alloc (psize s) s m n = Some (Inl e, s', m')"
  shows "s' = s \<and> m' = m"
proof -
  obtain r s1 m1 where r: "alloc s m n = Some (r, s1, m1)" using alloc_returns [OF assms(1)] by blast
  with assms(2) have "r = Inl e \<and> s1 = s' \<and> m1 = m'"
    by (cases r) (auto simp: allocate_zeroed_def bind_eq_Some_conv)
  with r alloc_fails [OF assms(1)] show ?thesis by blast
qed

lemma zeroed_exhausted:
  assumes "pool s m P" and "allocate_zeroed alloc (psize s) s m 1 = Some (Inl e, s', m')"
  shows "P = {} \<and> e = OutOfMemory"
proof -
  obtain r s1 m1 where r: "alloc s m 1 = Some (r, s1, m1)" using alloc_returns [OF assms(1)] by blast
  with assms(2) have "r = Inl e" by (cases r) (auto simp: allocate_zeroed_def bind_eq_Some_conv)
  with r alloc_exhausted [OF assms(1)] show ?thesis by blast
qed

lemma zeroed_returns:
  assumes "pool s m P"
  shows "\<exists>r s' m'. allocate_zeroed alloc (psize s) s m n = Some (r, s', m')"
proof -
  obtain r s' m' where r: "alloc s m n = Some (r, s', m')" using alloc_returns [OF assms] by blast
  show ?thesis
  proof (cases r)
    case (Inl e)
    with r show ?thesis by (simp add: allocate_zeroed_def)
  next
    case (Inr p)
    have "n * page_bytes (psize s) \<le> usize_max"
      using alloc_page [OF assms r [unfolded Inr]] by (simp add: usize_max_def)
    then show ?thesis
      using r Inr by (simp add: allocate_zeroed_def page_size_mul_def mul_p_def mult.commute)
  qed
qed

lemma zeroed_succeeds:
  assumes pl: "pool s m P" and z: "allocate_zeroed alloc (psize s) s m n = Some (Inr p, s', m')"
  shows "p mod page_bytes (psize s) = 0" and "p + n * page_bytes (psize s) \<le> 2 ^ 48"
    and "psize s' = psize s"
    and "\<exists>Q \<subseteq> P. page_span (psize s) p n \<subseteq> Q \<and> pool s' m' (P - Q)"
    and "\<forall>x \<in> page_span (psize s) p n. m' x = 0" and "\<And>x. x \<notin> P \<Longrightarrow> m' x = m x"
proof -
  obtain r s1 m1 where r: "alloc s m n = Some (r, s1, m1)" using alloc_returns [OF pl] by blast
  with z have "r = Inr p \<and> s1 = s' \<and> m' = write_zeroes m1 (ptr_from_phys p) (n * page_bytes (psize s))"
    by (cases r) (auto simp: allocate_zeroed_def page_size_mul_def mul_p_def mult.commute split: if_splits)
  with r have a: "alloc s m n = Some (Inr p, s', m1)"
    and m': "m' = write_zeroes m1 (ptr_from_phys p) (n * page_bytes (psize s))" by auto
  note page = alloc_page [OF pl a]
  then show "p mod page_bytes (psize s) = 0" "p + n * page_bytes (psize s) \<le> 2 ^ 48" "psize s' = psize s"
    by auto
  obtain Q where Q: "Q \<subseteq> P" "page_span (psize s) p n \<subseteq> Q" "pool s' m1 (P - Q)"
    using alloc_takes [OF pl a] by blast
  have out: "m' x = m1 x" if "x \<notin> page_span (psize s) p n" for x
    using that by (auto simp: m' write_zeroes_def page_span_def)
  then have "pool s' m' (P - Q)" using Q by (intro pool_local [OF Q(3)]) auto
  with Q show "\<exists>Q \<subseteq> P. page_span (psize s) p n \<subseteq> Q \<and> pool s' m' (P - Q)" by blast
  show "\<forall>x \<in> page_span (psize s) p n. m' x = 0" by (simp add: m' write_zeroes_def page_span_def)
  show "m' x = m x" if "x \<notin> P" for x
  proof -
    have "x \<notin> page_span (psize s) p n" using that Q by blast
    then show ?thesis using out alloc_frame [OF pl a that] by simp
  qed
qed

end

end
