(* ===== verification/Buddy.thy ===== *)
theory Buddy
  imports Page_Alloc
begin

text \<open>
  The buddy page allocator of \<^verbatim>\<open>kernel_core/src/memory/buddy.rs\<close>.  The free blocks of
  order \<open>k\<close> (that is, of \<open>2 ^ k\<close> pages) form a linked list whose head is
  \<open>free_blocks ! k\<close> and whose links (\<^verbatim>\<open>FreeHeader.next_block\<close>) are the first
  cells of the blocks themselves, in machine memory; the null pointer is 0.

  The operations are those of one core running alone: each compare-exchange loop succeeds in
  its first round.  A walk along a list is a \<^theory_text>\<open>partial_function\<close>, since on a cyclic
  list the code does not return.
\<close>

section \<open>Model\<close>

record BuddyPageAllocator =
  base_addr :: ptr
  end_addr :: ptr
  page_size :: PageSize
  free_blocks :: "ptr list"

definition buddy_new :: "usize \<Rightarrow> PageSize \<Rightarrow> ptr \<Rightarrow> usize \<Rightarrow> BuddyPageAllocator panics" where
  "buddy_new max_order ps memory_start memory_length = do {
     aligned \<leftarrow> is_aligned_to memory_start (page_bytes ps);
     assert_p aligned;
     assert_p (memory_length mod page_bytes ps = 0);
     e \<leftarrow> add_p memory_start memory_length;
     Some \<lparr> base_addr = memory_start, end_addr = e, page_size = ps,
            free_blocks = replicate max_order 0 \<rparr>
   }"

definition next_block :: "mem \<Rightarrow> ptr \<Rightarrow> ptr" where
  "next_block m b = unat (m b)"

definition pop_free ::
  "BuddyPageAllocator \<Rightarrow> mem \<Rightarrow> usize \<Rightarrow> (ptr option \<times> BuddyPageAllocator) panics" where
  "pop_free a m order = do {
     head \<leftarrow> nth_p (free_blocks a) order;
     if head = 0 then Some (None, a)
     else Some (Some head, a\<lparr>free_blocks := (free_blocks a)[order := next_block m head]\<rparr>)
   }"

definition push_free ::
  "BuddyPageAllocator \<Rightarrow> mem \<Rightarrow> usize \<Rightarrow> ptr \<Rightarrow> (BuddyPageAllocator \<times> mem) panics" where
  "push_free a m order block = do {
     aligned \<leftarrow> is_aligned_to block (page_bytes (page_size a));
     assert_p aligned;
     head \<leftarrow> nth_p (free_blocks a) order;
     Some (a\<lparr>free_blocks := (free_blocks a)[order := block]\<rparr>, m(block := word_of_nat head))
   }"

text \<open>The inner loop of \<^verbatim>\<open>try_remove_buddy\<close>: the predecessor (if any) and the successor of
  the buddy, when it is in the list.\<close>

partial_function (option) find_in_list ::
  "mem \<Rightarrow> ptr \<Rightarrow> ptr option \<Rightarrow> ptr \<Rightarrow> (ptr option \<times> ptr) option option" where
  "find_in_list m buddy prev current =
     (if current = 0 then Some None
      else if current = buddy then Some (Some (prev, next_block m current))
      else find_in_list m buddy (Some current) (next_block m current))"

definition try_remove_buddy ::
  "BuddyPageAllocator \<Rightarrow> mem \<Rightarrow> usize \<Rightarrow> ptr \<Rightarrow> (bool \<times> BuddyPageAllocator \<times> mem) panics" where
  "try_remove_buddy a m order buddy = do {
     head \<leftarrow> nth_p (free_blocks a) order;
     found \<leftarrow> find_in_list m buddy None head;
     Some (case found of
             None \<Rightarrow> (False, a, m)
           | Some (Some prev, nxt) \<Rightarrow> (True, a, m(prev := word_of_nat nxt))
           | Some (None, nxt) \<Rightarrow> (True, a\<lparr>free_blocks := (free_blocks a)[order := nxt]\<rparr>, m))
   }"

partial_function (option) list_contains :: "mem \<Rightarrow> ptr \<Rightarrow> ptr \<Rightarrow> bool option" where
  "list_contains m block cur =
     (if cur = 0 then Some False
      else if cur = block then Some True
      else list_contains m block (next_block m cur))"

definition block_in_free_list :: "BuddyPageAllocator \<Rightarrow> mem \<Rightarrow> usize \<Rightarrow> ptr \<Rightarrow> bool panics" where
  "block_in_free_list a m order block = do {
     head \<leftarrow> nth_p (free_blocks a) order;
     list_contains m block head
   }"

function split_block_to_size ::
  "BuddyPageAllocator \<Rightarrow> mem \<Rightarrow> ptr \<Rightarrow> usize \<Rightarrow> usize \<Rightarrow> (BuddyPageAllocator \<times> mem) panics" where
  "split_block_to_size a m block current_order desired_order =
     (if current_order > desired_order then do {
        new_size \<leftarrow> one_shl (current_order - 1);
        bytes \<leftarrow> mul_p new_size (page_bytes (page_size a));
        new_block \<leftarrow> add_p block bytes;
        (a', m') \<leftarrow> push_free a m (current_order - 1) new_block;
        split_block_to_size a' m' block (current_order - 1) desired_order
      } else Some (a, m))"
  by pat_completeness auto
termination
  by (relation "measure (\<lambda>(a, m, block, current_order, desired_order). current_order)") auto

declare split_block_to_size.simps [simp del]

definition buddy_of :: "BuddyPageAllocator \<Rightarrow> ptr \<Rightarrow> usize \<Rightarrow> ptr panics" where
  "buddy_of a block order = do {
     offset \<leftarrow> sub_p block (base_addr a);
     n \<leftarrow> one_shl order;
     size \<leftarrow> page_size_mul (page_size a) n;
     p \<leftarrow> add_p (base_addr a) (offset XOR size);
     assert_p (p \<noteq> 0);
     Some p
   }"

text \<open>The search of \<^verbatim>\<open>allocate\<close> for a block of at least the wanted order.\<close>

function find_free ::
  "BuddyPageAllocator \<Rightarrow> mem \<Rightarrow> usize \<Rightarrow> (MemoryError + ptr \<times> usize \<times> BuddyPageAllocator) panics" where
  "find_free a m actual_order =
     (if actual_order < length (free_blocks a) then do {
        (free, a') \<leftarrow> pop_free a m actual_order;
        case free of
          Some b \<Rightarrow> Some (Inr (b, actual_order, a'))
        | None \<Rightarrow> find_free a m (actual_order + 1)
      } else Some (Inl OutOfMemory))"
  by pat_completeness auto
termination
  by (relation "measure (\<lambda>(a, m, k). length (free_blocks a) - k)") auto

declare find_free.simps [simp del]

type_synonym 'r buddy_result = "((MemoryError + 'r) \<times> BuddyPageAllocator \<times> mem) panics"

definition buddy_allocate :: "BuddyPageAllocator \<Rightarrow> mem \<Rightarrow> usize \<Rightarrow> paddr buddy_result" where
  "buddy_allocate a m num_pages =
     (if num_pages = 0 then Some (Inl InvalidSize, a, m)
      else case checked_next_power_of_two num_pages of
        None \<Rightarrow> Some (Inl OutOfMemory, a, m)
      | Some block_size \<Rightarrow> do {
          let order = ilog2 block_size;
          found \<leftarrow> find_free a m order;
          case found of
            Inl e \<Rightarrow> Some (Inl e, a, m)
          | Inr (block, actual_order, a') \<Rightarrow> do {
              (a'', m') \<leftarrow> split_block_to_size a' m block actual_order order;
              Some (Inr (phys_from_ptr block), a'', m')
            }
        })"

definition buddy_free :: "BuddyPageAllocator \<Rightarrow> mem \<Rightarrow> paddr \<Rightarrow> usize \<Rightarrow> unit buddy_result" where
  "buddy_free a m pages num_pages =
     (let block = ptr_from_phys pages in
      if block = 0 then Some (Inl UnknownPtr, a, m)
      else if num_pages = 0 then Some (Inl InvalidSize, a, m)
      else if \<not> (block \<ge> base_addr a \<and> block < end_addr a) then Some (Inl UnknownPtr, a, m)
      else case checked_next_power_of_two num_pages of
        None \<Rightarrow> Some (Inl InvalidSize, a, m)
      | Some block_size \<Rightarrow>
          (let order = ilog2 block_size in
           if \<not> order < length (free_blocks a) then Some (Inl InvalidSize, a, m)
           else do {
             buddy \<leftarrow> buddy_of a block order;
             (removed, a1, m1) \<leftarrow> try_remove_buddy a m order buddy;
             if removed then do {
               (a2, m2) \<leftarrow> push_free a1 m1 (order + 1) block;
               Some (Inr (), a2, m2)
             } else do {
               b1 \<leftarrow> block_in_free_list a m order block;
               if b1 then Some (Inl UnknownPtr, a, m) else do {
               b2 \<leftarrow> block_in_free_list a m (order + 1) block;
               if b2 then Some (Inl UnknownPtr, a, m) else do {
               b3 \<leftarrow> block_in_free_list a m (order + 1) buddy;
               if b3 then Some (Inl UnknownPtr, a, m) else do {
               (a2, m2) \<leftarrow> push_free a m order block;
               Some (Inr (), a2, m2)
             }}}}
           }))"

text \<open>The carving loop of \<^verbatim>\<open>add_memory_region\<close>.\<close>

function add_blocks ::
  "BuddyPageAllocator \<Rightarrow> mem \<Rightarrow> ptr \<Rightarrow> usize \<Rightarrow> usize \<Rightarrow> (BuddyPageAllocator \<times> mem) panics" where
  "add_blocks a m block_start remaining_bytes order =
     (if remaining_bytes > 0 then do {
        n \<leftarrow> one_shl order;
        block_len \<leftarrow> mul_p n (page_bytes (page_size a));
        if remaining_bytes \<ge> block_len then do {
          (a', m') \<leftarrow> push_free a (m(block_start := 0)) order block_start;
          block_start' \<leftarrow> add_p block_start block_len;
          add_blocks a' m' block_start' (remaining_bytes - block_len) order
        }
        else if order = 0 then Some (a, m)
        else add_blocks a m block_start remaining_bytes (order - 1)
      } else Some (a, m))"
  by pat_completeness auto
termination
  by (relation "measures [\<lambda>(a, m, b, r, k). r, \<lambda>(a, m, b, r, k). k]") auto

declare add_blocks.simps [simp del]

definition add_memory_region ::
  "BuddyPageAllocator \<Rightarrow> mem \<Rightarrow> ptr \<Rightarrow> usize \<Rightarrow> (bool \<times> BuddyPageAllocator \<times> mem) panics" where
  "add_memory_region a m region_start region_length = do {
     assert_p (region_length > 0);
     assert_p (region_start \<noteq> 0);
     assert_p (region_start \<ge> base_addr a \<and> region_start < end_addr a);
     region_end \<leftarrow> add_p region_start region_length;
     assert_p (region_end \<le> end_addr a);
     let page_len = page_bytes (page_size a);
     let padding = align_offset region_start page_len;
     if region_length < page_len then Some (False, a, m) else do {
       usable \<leftarrow> sub_p region_length padding;
       if usable < page_len then Some (False, a, m) else do {
         block_start \<leftarrow> add_p region_start padding;
         assert_p (block_start \<noteq> 0);
         order \<leftarrow> sub_p (length (free_blocks a)) 1;
         (a', m') \<leftarrow> add_blocks a m block_start region_length order;
         Some (True, a', m')
       }
     }
   }"

section \<open>Linked lists in memory\<close>

fun flist :: "mem \<Rightarrow> ptr \<Rightarrow> ptr list \<Rightarrow> bool" where
  "flist m p [] \<longleftrightarrow> p = 0"
| "flist m p (x # xs) \<longleftrightarrow> p = x \<and> x \<noteq> 0 \<and> flist m (next_block m x) xs"

lemma flist_cong: "(\<And>x. x \<in> set xs \<Longrightarrow> m' x = m x) \<Longrightarrow> flist m' p xs = flist m p xs"
  by (induction xs arbitrary: p) (auto simp: next_block_def)

lemma flist_upd_notin [simp]: "b \<notin> set xs \<Longrightarrow> flist (m(b := v)) p xs = flist m p xs"
  by (rule flist_cong) auto

lemma flist_unique: "flist m p xs \<Longrightarrow> flist m p ys \<Longrightarrow> xs = ys"
proof (induction xs arbitrary: p ys)
  case Nil
  then show ?case by (cases ys) auto
next
  case (Cons x xs)
  then show ?case by (cases ys) auto
qed

lemma flist_no_null: "flist m p xs \<Longrightarrow> 0 \<notin> set xs"
  by (induction xs arbitrary: p) auto

lemma list_contains_spec: "flist m p xs \<Longrightarrow> list_contains m b p = Some (b \<in> set xs)"
proof (induction xs arbitrary: p)
  case Nil
  then show ?case by (simp add: list_contains.simps [of m b 0])
next
  case (Cons x xs)
  then show ?case by (auto simp: list_contains.simps [of m b x])
qed

lemma find_in_list_absent:
  "flist m p xs \<Longrightarrow> b \<notin> set xs \<Longrightarrow> find_in_list m b prev p = Some None"
proof (induction xs arbitrary: p prev)
  case Nil
  then show ?case by (simp add: find_in_list.simps [of m b prev 0])
next
  case (Cons x xs)
  then show ?case by (auto simp: find_in_list.simps [of m b prev x])
qed

lemma find_in_list_present:
  "flist m p (xs @ b # ys) \<Longrightarrow> b \<notin> set xs \<Longrightarrow>
     find_in_list m b prev p = Some (Some (if xs = [] then prev else Some (last xs), next_block m b))"
proof (induction xs arbitrary: p prev)
  case Nil
  then show ?case by (auto simp: find_in_list.simps [of m b prev b])
next
  case (Cons x xs)
  then show ?case by (auto simp: find_in_list.simps [of m b prev x])
qed

text \<open>Unlinking a block: the predecessor, or the head, now points to the successor.\<close>

lemma flist_unlink:
  assumes "flist m p (xs @ b # ys)" and "distinct (xs @ b # ys)"
  shows "xs = [] \<Longrightarrow> flist m (next_block m b) ys"
    and "xs \<noteq> [] \<Longrightarrow> flist (m(last xs := word_of_nat (next_block m b))) p (xs @ ys)"
proof -
  show "xs = [] \<Longrightarrow> flist m (next_block m b) ys" using assms by simp
  have "flist (m(last xs := word_of_nat (next_block m b))) p (xs @ ys)"
    if "xs \<noteq> []" "flist m p (xs @ b # ys)" "distinct (xs @ b # ys)" for p
    using that
  proof (induction xs arbitrary: p)
    case Nil
    then show ?case by simp
  next
    case (Cons x xs)
    show ?case
    proof (cases "xs = []")
      case True
      let ?m = "m(x := word_of_nat (next_block m b))"
      from True Cons.prems have "flist ?m (next_block m b) ys" by (subst flist_upd_notin) auto
      moreover have "next_block ?m x = next_block m b" by (simp add: next_block_def)
      ultimately show ?thesis using True Cons.prems by (simp del: fun_upd_apply)
    next
      case False
      with Cons.prems have "x \<noteq> last xs" by auto
      with False Cons show ?thesis by (auto simp: next_block_def)
    qed
  qed
  then show "xs \<noteq> [] \<Longrightarrow> flist (m(last xs := word_of_nat (next_block m b))) p (xs @ ys)"
    using assms by simp
qed

section \<open>Invariant\<close>

text \<open>The free lists seen as a set of blocks \<open>(order, address)\<close>.\<close>

definition span :: "PageSize \<Rightarrow> usize \<Rightarrow> ptr \<Rightarrow> usize set" where
  "span ps k b = {b ..< b + 2 ^ k * page_bytes ps}"

definition blocks :: "ptr list list \<Rightarrow> (usize \<times> ptr) set" where
  "blocks ls = {(k, b). k < length ls \<and> b \<in> set (ls ! k)}"

definition free_bytes :: "PageSize \<Rightarrow> ptr list list \<Rightarrow> usize set" where
  "free_bytes ps ls = (\<Union>(k, b) \<in> blocks ls. span ps k b)"

definition block_ok :: "BuddyPageAllocator \<Rightarrow> usize \<Rightarrow> ptr \<Rightarrow> bool" where
  "block_ok a k b \<longleftrightarrow>
     k < length (free_blocks a) \<and> b mod page_bytes (page_size a) = 0 \<and>
     base_addr a \<le> b \<and> b + 2 ^ k * page_bytes (page_size a) \<le> end_addr a"

text \<open>The arena: page aligned, in kernel space, and with orders small enough for the size of
  the largest block to be a \<^verbatim>\<open>usize\<close> (the kernel uses \<^verbatim>\<open>MAX_ORDER = 16\<close>).\<close>

definition arena_ok :: "BuddyPageAllocator \<Rightarrow> bool" where
  "arena_ok a \<longleftrightarrow>
     base_addr a mod page_bytes (page_size a) = 0 \<and> 0xffff000000000000 \<le> base_addr a \<and>
     end_addr a \<le> usize_max \<and> length (free_blocks a) \<le> 50"

definition blocks_ok :: "BuddyPageAllocator \<Rightarrow> (usize \<times> ptr) set \<Rightarrow> bool" where
  "blocks_ok a B \<longleftrightarrow>
     (\<forall>(k, b) \<in> B. block_ok a k b) \<and>
     (\<forall>(k, b) \<in> B. \<forall>(k', b') \<in> B.
        (k, b) \<noteq> (k', b') \<longrightarrow> span (page_size a) k b \<inter> span (page_size a) k' b' = {})"

definition lists_ok :: "BuddyPageAllocator \<Rightarrow> mem \<Rightarrow> ptr list list \<Rightarrow> bool" where
  "lists_ok a m ls \<longleftrightarrow>
     length ls = length (free_blocks a) \<and>
     (\<forall>k < length ls. flist m (free_blocks a ! k) (ls ! k) \<and> distinct (ls ! k))"

definition buddy_inv :: "BuddyPageAllocator \<Rightarrow> mem \<Rightarrow> ptr list list \<Rightarrow> bool" where
  "buddy_inv a m ls \<longleftrightarrow> arena_ok a \<and> lists_ok a m ls \<and> blocks_ok a (blocks ls)"

definition same_arena :: "BuddyPageAllocator \<Rightarrow> BuddyPageAllocator \<Rightarrow> bool" where
  "same_arena a a' \<longleftrightarrow>
     base_addr a' = base_addr a \<and> end_addr a' = end_addr a \<and> page_size a' = page_size a \<and>
     length (free_blocks a') = length (free_blocks a)"

lemma same_arena_refl [simp]: "same_arena a a"
  by (simp add: same_arena_def)

lemma same_arena_trans: "same_arena a b \<Longrightarrow> same_arena b c \<Longrightarrow> same_arena a c"
  by (simp add: same_arena_def)

lemma same_arena_heads [simp]: "same_arena a (a\<lparr>free_blocks := (free_blocks a)[k := b]\<rparr>)"
  by (simp add: same_arena_def)

lemma same_arena_block_ok: "same_arena a a' \<Longrightarrow> block_ok a' k b = block_ok a k b"
  by (simp add: same_arena_def block_ok_def)

lemma same_arena_ok: "same_arena a a' \<Longrightarrow> arena_ok a' = arena_ok a"
  by (simp add: same_arena_def arena_ok_def)

lemma same_arena_blocks_ok: "same_arena a a' \<Longrightarrow> blocks_ok a' B = blocks_ok a B"
  by (simp add: blocks_ok_def same_arena_block_ok [of a a']) (simp add: same_arena_def)

lemma span_nonempty: "b \<in> span ps k b"
  by (simp add: span_def)

lemma span_double:
  "span ps (Suc k) b = span ps k b \<union> span ps k (b + 2 ^ k * page_bytes ps)"
  by (auto simp: span_def)

lemma blocks_cons:
  "k < length ls \<Longrightarrow> blocks (ls[k := b # ls ! k]) = insert (k, b) (blocks ls)"
  by (auto simp: blocks_def nth_list_update split: if_splits)

lemma blocks_remove:
  "k < length ls \<Longrightarrow> distinct (ls ! k) \<Longrightarrow> blocks (ls[k := remove1 b (ls ! k)]) = blocks ls - {(k, b)}"
  by (auto simp: blocks_def nth_list_update split: if_splits)

lemma free_bytes_insert:
  "blocks ls' = insert (k, b) (blocks ls) \<Longrightarrow> free_bytes ps ls' = span ps k b \<union> free_bytes ps ls"
  by (auto simp: free_bytes_def)

lemma blocks_ok_insert:
  assumes "blocks_ok a (blocks ls)" and "block_ok a k b"
    and "span (page_size a) k b \<inter> free_bytes (page_size a) ls = {}"
  shows "blocks_ok a (insert (k, b) (blocks ls))"
  using assms by (fastforce simp: blocks_ok_def free_bytes_def)

lemma blocks_ok_mono: "blocks_ok a B \<Longrightarrow> B' \<subseteq> B \<Longrightarrow> blocks_ok a B'"
  unfolding blocks_ok_def by blast

lemma free_bytes_remove:
  assumes "blocks_ok a (blocks ls)" and "(k, b) \<in> blocks ls"
    and "blocks ls' = blocks ls - {(k, b)}" and "ps = page_size a"
  shows "free_bytes ps ls' = free_bytes ps ls - span ps k b"
  using assms by (fastforce simp: blocks_ok_def free_bytes_def)

text \<open>How many blocks of order \<open>k\<close> the free blocks of this order and above are worth.\<close>

definition units :: "usize \<Rightarrow> ptr list list \<Rightarrow> nat" where
  "units k ls = (\<Sum>j \<in> {k..<length ls}. 2 ^ (j - k) * length (ls ! j))"

lemma units_cons:
  assumes "j < length ls"
  shows "units k (ls[j := b # ls ! j]) = units k ls + (if k \<le> j then 2 ^ (j - k) else 0)"
proof -
  have other: "(\<Sum>i \<in> A. 2 ^ (i - k) * length (ls[j := b # ls ! j] ! i)) = (\<Sum>i \<in> A. 2 ^ (i - k) * length (ls ! i))"
    if "j \<notin> A" for A using that by (intro sum.cong refl) (metis nth_list_update_neq)
  show ?thesis
  proof (cases "k \<le> j")
    case True
    then have "j \<in> {k..<length ls}" using assms by simp
    then show ?thesis using True assms other [of "{k..<length ls} - {j}"]
      by (simp add: units_def sum.remove [of _ j])
  qed (use other [of "{k..<length ls}"] in \<open>simp add: units_def\<close>)
qed

lemma units_tail:
  assumes "j < length ls" and "ls ! j = b # bs"
  shows "units k ls = units k (ls[j := bs]) + (if k \<le> j then 2 ^ (j - k) else 0)"
proof -
  have "ls[j := bs, j := b # ls[j := bs] ! j] = ls" using assms by (simp add: list_update_same_conv)
  then show ?thesis using units_cons [of j "ls[j := bs]" k b] assms(1) by simp
qed

lemma units_pos: "0 < units k ls \<Longrightarrow> \<exists>j. k \<le> j \<and> j < length ls \<and> ls ! j \<noteq> []"
  unfolding units_def by (rule ccontr) auto

section \<open>Effect of the list operations\<close>

lemma pop_free_spec:
  assumes inv: "buddy_inv a m ls" and k: "k < length ls"
  shows "ls ! k = [] \<Longrightarrow> pop_free a m k = Some (None, a)"
    and "ls ! k = b # bs \<Longrightarrow> \<exists>a'. pop_free a m k = Some (Some b, a') \<and> same_arena a a' \<and>
           buddy_inv a' m (ls[k := bs]) \<and> blocks (ls[k := bs]) = blocks ls - {(k, b)}"
proof -
  have l: "flist m (free_blocks a ! k) (ls ! k)" "distinct (ls ! k)" "length ls = length (free_blocks a)"
    using inv k by (auto simp: buddy_inv_def lists_ok_def)
  show "ls ! k = [] \<Longrightarrow> pop_free a m k = Some (None, a)"
    using l k by (simp add: pop_free_def nth_p_def)
  assume b: "ls ! k = b # bs"
  let ?a = "a\<lparr>free_blocks := (free_blocks a)[k := next_block m b]\<rparr>"
  have bl: "blocks (ls[k := bs]) = blocks ls - {(k, b)}"
    using blocks_remove [OF k l(2), of b] b by simp
  have "lists_ok ?a m (ls[k := bs])"
    using inv l b k by (simp add: buddy_inv_def lists_ok_def nth_list_update)
  moreover have "blocks_ok a (blocks (ls[k := bs]))"
    using inv bl blocks_ok_mono [of a "blocks ls"] by (simp add: buddy_inv_def)
  then have "blocks_ok ?a (blocks (ls[k := bs]))" by (simp add: same_arena_blocks_ok [of a ?a])
  ultimately have "buddy_inv ?a m (ls[k := bs])"
    using inv same_arena_ok [of a ?a] by (simp add: buddy_inv_def)
  then show "\<exists>a'. pop_free a m k = Some (Some b, a') \<and> same_arena a a' \<and>
           buddy_inv a' m (ls[k := bs]) \<and> blocks (ls[k := bs]) = blocks ls - {(k, b)}"
    using l b k bl by (simp add: pop_free_def nth_p_def)
qed

lemma block_not_in_lists:
  assumes "blocks_ok a (blocks ls)" and "span (page_size a) k b \<inter> free_bytes (page_size a) ls = {}"
    and "j < length ls"
  shows "b \<notin> set (ls ! j)"
proof
  assume "b \<in> set (ls ! j)"
  with assms(3) have "b \<in> free_bytes (page_size a) ls"
    unfolding free_bytes_def blocks_def using span_nonempty by blast
  with assms(2) span_nonempty show False by blast
qed

lemma push_free_spec:
  assumes inv: "buddy_inv a m ls" and ok: "block_ok a k b"
    and dj: "span (page_size a) k b \<inter> free_bytes (page_size a) ls = {}"
  shows "\<exists>a'. push_free a m k b = Some (a', m(b := word_of_nat (free_blocks a ! k))) \<and>
           same_arena a a' \<and>
           buddy_inv a' (m(b := word_of_nat (free_blocks a ! k))) (ls[k := b # ls ! k]) \<and>
           blocks (ls[k := b # ls ! k]) = insert (k, b) (blocks ls)"
proof -
  let ?a = "a\<lparr>free_blocks := (free_blocks a)[k := b]\<rparr>"
  let ?m = "m(b := word_of_nat (free_blocks a ! k))"
  let ?ls = "ls[k := b # ls ! k]"
  have k: "k < length ls" "k < length (free_blocks a)" and len: "length ls = length (free_blocks a)"
    using inv ok by (auto simp: buddy_inv_def lists_ok_def block_ok_def)
  have bo: "blocks_ok a (blocks ls)" and ar: "arena_ok a" using inv by (auto simp: buddy_inv_def)
  have nin: "b \<notin> set (ls ! j)" if "j < length ls" for j
    using block_not_in_lists [OF bo dj that] .
  have bl: "blocks ?ls = insert (k, b) (blocks ls)" using k(1) by (rule blocks_cons)
  have head: "free_blocks a ! k \<le> usize_max"
  proof (cases "ls ! k")
    case Nil
    with inv k show ?thesis by (auto simp: buddy_inv_def lists_ok_def)
  next
    case (Cons x xs)
    with inv k have h: "free_blocks a ! k = x" by (auto simp: buddy_inv_def lists_ok_def)
    have "block_ok a k x" using bo Cons k by (auto simp: blocks_ok_def blocks_def)
    with ar h show ?thesis by (simp add: block_ok_def arena_ok_def)
  qed
  have b0: "b \<noteq> 0" using ok ar by (auto simp: block_ok_def arena_ok_def)
  have "lists_ok ?a ?m ?ls"
    unfolding lists_ok_def
  proof (intro conjI allI impI)
    show "length ?ls = length (free_blocks ?a)" using len by simp
    fix j assume j: "j < length ?ls"
    have old: "flist m (free_blocks a ! j) (ls ! j)" "distinct (ls ! j)"
      using inv j by (auto simp: buddy_inv_def lists_ok_def)
    show "distinct (?ls ! j)" using old nin [of j] j by (cases "j = k") simp_all
    show "flist ?m (free_blocks ?a ! j) (?ls ! j)"
    proof (cases "j = k")
      case True
      have "next_block ?m b = free_blocks a ! k" using head by (simp add: next_block_def)
      with True old k nin [OF k(1)] b0 show ?thesis by (simp del: fun_upd_apply)
    next
      case False
      with old nin j show ?thesis by (simp del: fun_upd_apply)
    qed
  qed
  moreover have "blocks_ok ?a (blocks ?ls)"
    using bl blocks_ok_insert [OF bo ok dj] by (simp add: same_arena_blocks_ok [of a ?a])
  ultimately have "buddy_inv ?a ?m ?ls" using ar same_arena_ok [of a ?a] by (simp add: buddy_inv_def)
  moreover have "push_free a m k b = Some (?a, ?m)"
    using ok by (simp add: push_free_def is_aligned_to_def nth_p_def block_ok_def)
  ultimately show ?thesis using bl by auto
qed

section \<open>Allocation\<close>

lemma block_size_fits:
  assumes "arena_ok a" and "block_ok a k b"
  shows "one_shl k = Some (2 ^ k)"
    and "mul_p (2 ^ k) (page_bytes (page_size a)) = Some (2 ^ k * page_bytes (page_size a))"
    and "k < 50" and "b + 2 ^ k * page_bytes (page_size a) \<le> usize_max" and "b \<noteq> 0"
    and "0xffff000000000000 \<le> b"
  using assms by (auto simp: arena_ok_def block_ok_def one_shl_def mul_p_def)

lemma block_halves:
  assumes "block_ok a (Suc k) b"
  shows "block_ok a k b" and "block_ok a k (b + 2 ^ k * page_bytes (page_size a))"
  using assms by (auto simp: block_ok_def)

lemma split_block_to_size_spec:
  assumes "buddy_inv a m ls" and "block_ok a cur b" and "ps = page_size a" and "desired \<le> cur"
    and "span ps cur b \<inter> free_bytes ps ls = {}"
  shows "\<exists>a' m' ls'. split_block_to_size a m b cur desired = Some (a', m') \<and> same_arena a a' \<and>
           buddy_inv a' m' ls' \<and>
           free_bytes ps ls' = free_bytes ps ls \<union> (span ps cur b - span ps desired b) \<and>
           (\<forall>x. x \<notin> span ps cur b \<longrightarrow> m' x = m x) \<and>
           units desired ls' + 1 = units desired ls + 2 ^ (cur - desired)"
  using assms
proof (induction cur arbitrary: a m ls)
  case 0
  then show ?case by (auto simp: split_block_to_size.simps [of a m b 0])
next
  case (Suc cur)
  show ?case
  proof (cases "desired = Suc cur")
    case True
    with Suc.prems show ?thesis by (auto simp: split_block_to_size.simps [of a m b "Suc cur"])
  next
    case False
    let ?nb = "b + 2 ^ cur * page_bytes ps"
    let ?m = "m(?nb := word_of_nat (free_blocks a ! cur))"
    let ?ls = "ls[cur := ?nb # ls ! cur]"
    have ar: "arena_ok a" using Suc.prems by (simp add: buddy_inv_def)
    note halves = block_halves [OF Suc.prems(2)]
    have up: "block_ok a cur ?nb" using halves Suc.prems by simp
    note dbl = span_double [of ps cur b]
    have sep: "span ps cur b \<inter> span ps cur ?nb = {}" by (auto simp: span_def)
    have "span (page_size a) cur ?nb \<inter> free_bytes (page_size a) ls = {}"
      using Suc.prems(3,5) dbl by blast
    from push_free_spec [OF Suc.prems(1) up this]
    obtain a1 where a1: "push_free a m cur ?nb = Some (a1, ?m)" "same_arena a a1"
      "buddy_inv a1 ?m ?ls" "blocks ?ls = insert (cur, ?nb) (blocks ls)" by auto
    have fb: "free_bytes ps ?ls = span ps cur ?nb \<union> free_bytes ps ls"
      using a1(4) by (rule free_bytes_insert)
    have "block_ok a1 cur b" using halves(1) a1(2) by (simp add: same_arena_block_ok [of a a1])
    moreover have "span ps cur b \<inter> free_bytes ps ?ls = {}" using Suc.prems(5) dbl sep fb by blast
    moreover have "ps = page_size a1" using a1(2) Suc.prems(3) by (simp add: same_arena_def)
    ultimately obtain a' m' ls' where r: "split_block_to_size a1 ?m b cur desired = Some (a', m')"
      "same_arena a1 a'" "buddy_inv a' m' ls'"
      "free_bytes ps ls' = free_bytes ps ?ls \<union> (span ps cur b - span ps desired b)"
      "\<forall>x. x \<notin> span ps cur b \<longrightarrow> m' x = ?m x" "units desired ls' + 1 = units desired ?ls + 2 ^ (cur - desired)"
      using Suc.IH [OF a1(3)] False Suc.prems(4) by fastforce
    have le: "desired \<le> cur" "cur < length ls" using False Suc.prems(1,2,4) by (auto simp: buddy_inv_def lists_ok_def block_ok_def)
    then have un: "units desired ls' + 1 = units desired ls + 2 ^ (Suc cur - desired)"
      using r(6) units_cons [OF le(2), of desired ?nb] by (simp add: Suc_diff_le)
    have "add_p b (2 ^ cur * page_bytes ps) = Some ?nb"
      using block_size_fits(4) [OF ar up] Suc.prems(3) by (simp add: add_p_def)
    note sizes = block_size_fits(1,2) [OF ar up] this
    have "split_block_to_size a m b (Suc cur) desired = Some (a', m')"
      using a1(1) r(1) False Suc.prems(4)
      by (simp add: split_block_to_size.simps [of a m b "Suc cur"] sizes [folded Suc.prems(3)]
            Suc.prems(3) [symmetric])
    moreover have "span ps desired b \<inter> span ps cur ?nb = {}"
    proof -
      have "(2::nat) ^ desired \<le> 2 ^ cur" using False Suc.prems(4) by simp
      then show ?thesis by (auto simp: span_def)
    qed
    then have "free_bytes ps ls' = free_bytes ps ls \<union> (span ps (Suc cur) b - span ps desired b)"
      using r(4) fb dbl by blast
    moreover have "\<forall>x. x \<notin> span ps (Suc cur) b \<longrightarrow> m' x = m x"
      using r(5) dbl span_nonempty [of ?nb ps cur] by auto
    ultimately show ?thesis using r(3) un same_arena_trans [OF a1(2) r(2)] by blast
  qed
qed

lemma find_free_none:
  assumes "buddy_inv a m ls" and "\<forall>j. k \<le> j \<longrightarrow> j < length ls \<longrightarrow> ls ! j = []"
  shows "find_free a m k = Some (Inl OutOfMemory)"
  using assms(2)
proof (induction "length ls - k" arbitrary: k)
  case 0
  then show ?case using assms(1)
    by (simp add: find_free.simps [of a m k] buddy_inv_def lists_ok_def)
next
  case (Suc n)
  then have "find_free a m (k + 1) = Some (Inl OutOfMemory)" by simp
  then show ?case using Suc pop_free_spec(1) [OF assms(1), of k]
    by (simp add: find_free.simps [of a m k])
qed

lemma find_free_some:
  assumes "buddy_inv a m ls" and "k \<le> j" and "j < length ls" and "ls ! j \<noteq> []"
    and "\<forall>i. k \<le> i \<longrightarrow> i < j \<longrightarrow> ls ! i = []" and "pop_free a m j = Some (Some b, a')"
  shows "find_free a m k = Some (Inr (b, j, a'))"
  using assms(2,5)
proof (induction "j - k" arbitrary: k)
  case 0
  then have "k = j" by simp
  then show ?case using assms by (simp add: find_free.simps [of a m j] buddy_inv_def lists_ok_def)
next
  case (Suc n)
  then have "find_free a m (k + 1) = Some (Inr (b, j, a'))" by simp
  then show ?case using Suc assms(1,3) pop_free_spec(1) [OF assms(1), of k]
    by (simp add: find_free.simps [of a m k] buddy_inv_def lists_ok_def)
qed

lemma buddy_allocate_ok:
  assumes inv: "buddy_inv a m ls" and n: "0 < n" and p: "checked_next_power_of_two n = Some p"
    and k: "k = ilog2 p" and ex: "\<exists>j. k \<le> j \<and> j < length ls \<and> ls ! j \<noteq> []" and ps: "ps = page_size a"
  shows "\<exists>b a' m' ls'. buddy_allocate a m n = Some (Inr (phys_from_ptr b), a', m') \<and>
           same_arena a a' \<and> buddy_inv a' m' ls' \<and> block_ok a k b \<and>
           span ps k b \<subseteq> free_bytes ps ls \<and> free_bytes ps ls' = free_bytes ps ls - span ps k b \<and>
           (\<forall>x. x \<notin> free_bytes ps ls \<longrightarrow> m' x = m x) \<and> units k ls = units k ls' + 1"
proof -
  define j where "j = (LEAST j. k \<le> j \<and> j < length ls \<and> ls ! j \<noteq> [])"
  have j: "k \<le> j" "j < length ls" "ls ! j \<noteq> []"
    using LeastI_ex [OF ex] by (auto simp: j_def)
  have before: "\<forall>i. k \<le> i \<longrightarrow> i < j \<longrightarrow> ls ! i = []"
  proof (intro allI impI)
    fix i assume i: "k \<le> i" "i < j"
    then show "ls ! i = []"
      using not_less_Least [of i "\<lambda>j. k \<le> j \<and> j < length ls \<and> ls ! j \<noteq> []"] j(2)
      by (auto simp: j_def [symmetric])
  qed
  obtain b bs where bs: "ls ! j = b # bs" using j(3) by (cases "ls ! j") auto
  obtain a1 where a1: "pop_free a m j = Some (Some b, a1)" "same_arena a a1"
    "buddy_inv a1 m (ls[j := bs])" "blocks (ls[j := bs]) = blocks ls - {(j, b)}"
    using pop_free_spec(2) [OF inv j(2) bs] by auto
  have bo: "blocks_ok a (blocks ls)" using inv by (simp add: buddy_inv_def)
  have mem: "(j, b) \<in> blocks ls" using j bs by (simp add: blocks_def)
  have ok: "block_ok a j b" using bo mem by (auto simp: blocks_ok_def)
  have fb: "free_bytes ps (ls[j := bs]) = free_bytes ps ls - span ps j b"
    using free_bytes_remove [OF bo mem a1(4) ps] .
  have sub: "span ps j b \<subseteq> free_bytes ps ls" using mem by (auto simp: free_bytes_def)
  have "block_ok a1 j b" using ok a1(2) by (simp add: same_arena_block_ok [of a a1])
  moreover have "ps = page_size a1" using a1(2) ps by (simp add: same_arena_def)
  ultimately obtain a' m' ls' where r: "split_block_to_size a1 m b j k = Some (a', m')"
    "same_arena a1 a'" "buddy_inv a' m' ls'"
    "free_bytes ps ls' = free_bytes ps (ls[j := bs]) \<union> (span ps j b - span ps k b)"
    "\<forall>x. x \<notin> span ps j b \<longrightarrow> m' x = m x" "units k ls' + 1 = units k (ls[j := bs]) + 2 ^ (j - k)"
    using split_block_to_size_spec [OF a1(3) _ _ j(1), of b ps] fb by blast
  have un: "units k ls = units k ls' + 1" using units_tail [OF j(2) bs, of k] j(1) r(6) by simp
  have pow: "(2::nat) ^ k \<le> 2 ^ j" using j(1) by simp
  then have le: "2 ^ k * page_bytes ps \<le> 2 ^ j * page_bytes ps" by simp
  then have sk: "span ps k b \<subseteq> span ps j b" by (auto simp: span_def)
  have "block_ok a k b"
    using ok j(1) order_trans [OF add_left_mono [OF le]] ps by (simp add: block_ok_def)
  moreover have "buddy_allocate a m n = Some (Inr (phys_from_ptr b), a', m')"
    using n p k find_free_some [OF inv j(1,2,3) before a1(1)] r(1) by (simp add: buddy_allocate_def)
  ultimately show ?thesis using r fb sub sk un same_arena_trans [OF a1(2) r(2)] by blast
qed

text \<open>C6: \<^verbatim>\<open>allocate\<close> on a well-formed allocator never panics.  It rejects a request for
  zero pages, and reports \<^verbatim>\<open>OutOfMemory\<close> only when no free list holds a block large enough; in
  both cases nothing changes.  Otherwise it returns the physical address of a page-aligned block
  of the arena, of the least power of two of pages that is enough, all of which was free; exactly
  those bytes stop being free, the allocator stays well-formed, and no byte outside the free
  memory is written.\<close>

theorem buddy_allocate_correct:
  assumes "buddy_inv a m ls" and "ps = page_size a"
  shows "case buddy_allocate a m n of
           None \<Rightarrow> False
         | Some (Inl e, a', m') \<Rightarrow> a' = a \<and> m' = m \<and>
             (if n = 0 then e = InvalidSize
              else e = OutOfMemory \<and> (\<forall>k < length ls. n \<le> 2 ^ k \<longrightarrow> ls ! k = []))
         | Some (Inr p, a', m') \<Rightarrow> (\<exists>k b ls'.
             p = phys_from_ptr b \<and> ptr_from_phys p = b \<and> block_ok a k b \<and>
             n \<le> 2 ^ k \<and> 2 ^ k < 2 * n \<and> span ps k b \<subseteq> free_bytes ps ls \<and>
             buddy_inv a' m' ls' \<and> free_bytes ps ls' = free_bytes ps ls - span ps k b \<and>
             (\<forall>x. x \<notin> free_bytes ps ls \<longrightarrow> m' x = m x))"
proof (cases "n = 0")
  case True
  then show ?thesis by (simp add: buddy_allocate_def)
next
  case False
  have len: "length ls \<le> 50" using assms(1) by (simp add: buddy_inv_def arena_ok_def lists_ok_def)
  show ?thesis
  proof (cases "checked_next_power_of_two n")
    case None
    have "n \<le> 2 ^ k \<Longrightarrow> k < length ls \<Longrightarrow> False" for k
    proof -
      assume "n \<le> 2 ^ k" "k < length ls"
      moreover from this len have "(2::nat) ^ k \<le> 2 ^ 50" by (intro power_increasing) auto
      ultimately show False using checked_next_power_of_two_None [OF None] by simp
    qed
    with None False show ?thesis by (auto simp: buddy_allocate_def)
  next
    case (Some p)
    let ?k = "ilog2 p"
    have p: "p = 2 ^ ?k" "n \<le> p" "p < 2 * n"
      using checked_next_power_of_two_Some [OF Some] False by auto
    show ?thesis
    proof (cases "\<exists>j. ?k \<le> j \<and> j < length ls \<and> ls ! j \<noteq> []")
      case True
      obtain b a' m' ls' where r: "buddy_allocate a m n = Some (Inr (phys_from_ptr b), a', m')"
        "buddy_inv a' m' ls'" "block_ok a ?k b" "span ps ?k b \<subseteq> free_bytes ps ls"
        "free_bytes ps ls' = free_bytes ps ls - span ps ?k b"
        "\<forall>x. x \<notin> free_bytes ps ls \<longrightarrow> m' x = m x"
        using buddy_allocate_ok [OF assms(1) _ Some refl True assms(2)] False by auto
      have "ptr_from_phys (phys_from_ptr b) = b"
        using block_size_fits(4,6) [OF _ r(3)] assms(1) ptr_phys_roundtrip [of b]
        by (simp add: buddy_inv_def)
      moreover have "n \<le> 2 ^ ?k" "2 ^ ?k < 2 * n" using p by simp_all
      ultimately show ?thesis using r by auto
    next
      case none: False
      have "ls ! j = []" if "j < length ls" "n \<le> 2 ^ j" for j
      proof -
        have "(2::nat) ^ ?k < 2 ^ Suc j" using p that by simp
        then have "?k \<le> j" by (simp del: power_Suc)
        with none that show ?thesis by auto
      qed
      moreover have "find_free a m ?k = Some (Inl OutOfMemory)"
        using none by (intro find_free_none [OF assms(1)]) auto
      ultimately show ?thesis using Some False by (simp add: buddy_allocate_def)
    qed
  qed
qed

lemma buddy_inv_write:
  assumes "buddy_inv a m ls" and "\<And>x. x \<in> free_bytes (page_size a) ls \<Longrightarrow> m' x = m x"
  shows "buddy_inv a m' ls"
proof -
  have "m' x = m x" if "k < length ls" "x \<in> set (ls ! k)" for k x
    using that assms(2) span_nonempty unfolding free_bytes_def blocks_def by blast
  then have "flist m' (free_blocks a ! k) (ls ! k) = flist m (free_blocks a ! k) (ls ! k)"
    if "k < length ls" for k
    using that by (intro flist_cong) auto
  with assms(1) show ?thesis by (simp add: buddy_inv_def lists_ok_def)
qed

text \<open>The allocator satisfies the contract of \<^verbatim>\<open>PageAllocator\<close>.\<close>

definition buddy_pool :: "BuddyPageAllocator \<Rightarrow> mem \<Rightarrow> usize set \<Rightarrow> bool" where
  "buddy_pool a m P \<longleftrightarrow> (\<exists>ls. buddy_inv a m ls \<and> P = free_bytes (page_size a) ls)"

text \<open>A pool with enough large blocks for \<open>u\<close> requests of \<open>2 ^ k\<close> pages: such a request takes one of them.\<close>

definition buddy_stock :: "usize \<Rightarrow> nat \<Rightarrow> BuddyPageAllocator \<Rightarrow> mem \<Rightarrow> usize set \<Rightarrow> bool" where
  "buddy_stock k u a m P \<longleftrightarrow> (\<exists>ls. buddy_inv a m ls \<and> P = free_bytes (page_size a) ls \<and> u \<le> units k ls)"

lemma buddy_stock_pool: "buddy_stock k u a m P \<Longrightarrow> buddy_pool a m P"
  by (auto simp: buddy_stock_def buddy_pool_def)

lemma buddy_stock_0: "buddy_pool a m P \<Longrightarrow> buddy_stock k 0 a m P"
  by (auto simp: buddy_stock_def buddy_pool_def)

lemma buddy_stock_local:
  assumes "buddy_stock k u a m P" and "\<And>x. x \<in> P \<Longrightarrow> m' x = m x"
  shows "buddy_stock k u a m' P"
proof -
  obtain ls where ls: "buddy_inv a m ls" "P = free_bytes (page_size a) ls" "u \<le> units k ls"
    using assms(1) by (auto simp: buddy_stock_def)
  then have "buddy_inv a m' ls" using assms(2) by (intro buddy_inv_write [OF ls(1)]) auto
  then show ?thesis using ls(2,3) unfolding buddy_stock_def by blast
qed

lemma buddy_stock_allocate:
  assumes "buddy_stock k (Suc u) a m P" and "k < 50"
  obtains p a' m' Q where "buddy_allocate a m (2 ^ k) = Some (Inr p, a', m')" "buddy_stock k u a' m' (P - Q)" "same_arena a a'"
proof -
  obtain ls where ls: "buddy_inv a m ls" "P = free_bytes (page_size a) ls" "Suc u \<le> units k ls"
    using assms(1) by (auto simp: buddy_stock_def)
  have k: "checked_next_power_of_two (2 ^ k) = Some (2 ^ k)" "k = ilog2 (2 ^ k)" "0 < (2 :: nat) ^ k"
    using assms(2) checked_next_power_of_two_power [of k] ilog2_power [of k] by simp_all
  obtain b a' m' ls' where r: "buddy_allocate a m (2 ^ k) = Some (Inr (phys_from_ptr b), a', m')" "same_arena a a'" "buddy_inv a' m' ls'"
    "free_bytes (page_size a) ls' = free_bytes (page_size a) ls - span (page_size a) k b" "units k ls = units k ls' + 1"
    using buddy_allocate_ok [OF ls(1) k(3,1,2) units_pos refl] ls(3) by auto
  have "buddy_stock k u a' m' (P - span (page_size a) k b)"
    unfolding buddy_stock_def using r(2-5) ls(2,3) by (intro exI [of _ ls']) (simp add: same_arena_def)
  then show thesis using that r(1,2) by blast
qed

lemma buddy_allocate_cases:
  assumes inv: "buddy_inv a m ls" and ps: "ps = page_size a"
  obtains (error) e where "buddy_allocate a m n = Some (Inl e, a, m)"
    | (ok) k b a' m' ls' where "buddy_allocate a m n = Some (Inr (phys_from_ptr b), a', m')"
      "n \<le> 2 ^ k" "same_arena a a'" "buddy_inv a' m' ls'" "block_ok a k b"
      "span ps k b \<subseteq> free_bytes ps ls" "free_bytes ps ls' = free_bytes ps ls - span ps k b"
      "\<forall>x. x \<notin> free_bytes ps ls \<longrightarrow> m' x = m x"
proof (cases "n = 0 \<or> checked_next_power_of_two n = None")
  case True
  then show ?thesis using error by (cases "n = 0") (auto simp: buddy_allocate_def)
next
  case False
  then obtain p where p: "0 < n" "checked_next_power_of_two n = Some p" by auto
  have np: "n \<le> 2 ^ ilog2 p" using checked_next_power_of_two_Some [OF p(2,1)] by simp
  show ?thesis
  proof (cases "\<exists>j. ilog2 p \<le> j \<and> j < length ls \<and> ls ! j \<noteq> []")
    case True
    show ?thesis using buddy_allocate_ok [OF inv p refl True ps] ok np by blast
  next
    case False
    then have "find_free a m (ilog2 p) = Some (Inl OutOfMemory)"
      by (intro find_free_none [OF inv]) auto
    then show ?thesis using error p by (simp add: buddy_allocate_def)
  qed
qed

lemma buddy_allocate_page_fails:
  assumes inv: "buddy_inv a m ls" and r: "buddy_allocate a m 1 = Some (Inl e, a', m')"
  shows "free_bytes (page_size a) ls = {}" and "e = OutOfMemory"
proof -
  have p: "checked_next_power_of_two 1 = Some 1" "ilog2 1 = 0"
    using checked_next_power_of_two_power [of 0] ilog2_power [of 0] by simp_all
  have none: "ls ! j = []" if "j < length ls" for j
  proof (rule ccontr)
    assume "ls ! j \<noteq> []"
    then have "\<exists>j. 0 \<le> j \<and> j < length ls \<and> ls ! j \<noteq> []" using that by blast
    then obtain b a1 m1 where "buddy_allocate a m 1 = Some (Inr (phys_from_ptr b), a1, m1)"
      using buddy_allocate_ok [OF inv zero_less_one p(1) p(2) [symmetric] _ refl] by blast
    then show False using r by simp
  qed
  then show "free_bytes (page_size a) ls = {}" by (auto simp: free_bytes_def blocks_def)
  have "find_free a m 0 = Some (Inl OutOfMemory)" using none by (intro find_free_none [OF inv]) simp
  then show "e = OutOfMemory" using r p by (simp add: buddy_allocate_def)
qed

lemma block_page:
  assumes "arena_ok a" and "block_ok a k b" and "n \<le> 2 ^ k" and "ps = page_size a"
  shows "phys_from_ptr b mod page_bytes ps = 0" and "phys_from_ptr b + n * page_bytes ps \<le> 2 ^ 48"
    and "page_span ps (phys_from_ptr b) n \<subseteq> span ps k b"
proof -
  note fits = block_size_fits [OF assms(1,2)]
  have le: "n * page_bytes ps \<le> 2 ^ k * page_bytes ps" using assms(3) by simp
  have p: "phys_from_ptr b = b - 0xffff000000000000" using fits(4,6) by (intro phys_from_ptr_sub) auto
  have "page_bytes ps dvd 0xffff000000000000" by (cases ps) simp_all
  then show "phys_from_ptr b mod page_bytes ps = 0"
    using assms(2,4) unfolding p by (simp add: block_ok_def mod_eq_0_iff_dvd)
  show "phys_from_ptr b + n * page_bytes ps \<le> 2 ^ 48"
  proof -
    have "b + n * page_bytes ps \<le> usize_max" using fits(4) [folded assms(4)] le by linarith
    then show ?thesis using fits(6) unfolding p by (simp add: usize_max_def)
  qed
  have "ptr_from_phys (phys_from_ptr b) = b" using fits(4,6) by (intro ptr_phys_roundtrip) auto
  then show "page_span ps (phys_from_ptr b) n \<subseteq> span ps k b"
    using add_left_mono [OF le, of b] by (auto simp: page_span_def span_def)
qed

interpretation buddy: page_source buddy_allocate page_size buddy_pool
proof
  fix s :: BuddyPageAllocator and m m' m'' :: mem and P n e r p s' x
  assume "buddy_pool s m P"
  then obtain ls where inv: "buddy_inv s m ls" and P: "P = free_bytes (page_size s) ls"
    by (auto simp: buddy_pool_def)
  have ar: "arena_ok s" using inv by (simp add: buddy_inv_def)
  note cases = buddy_allocate_cases [OF inv refl, of n]
  show "\<exists>r s' m'. buddy_allocate s m n = Some (r, s', m')" by (rule cases) auto
  show "s' = s \<and> m' = m" if "buddy_allocate s m n = Some (Inl e, s', m')"
    by (rule cases) (use that in auto)
  show "P = {} \<and> e = OutOfMemory" if "buddy_allocate s m 1 = Some (Inl e, s', m')"
    using buddy_allocate_page_fails [OF inv that] P by simp
  show "m' x = m x" if "buddy_allocate s m n = Some (r, s', m')" "x \<notin> P"
    by (rule cases) (use that P in auto)
  show "buddy_pool s m' P" if "\<And>x. x \<in> P \<Longrightarrow> m' x = m x"
    using buddy_inv_write [OF inv] that P by (auto simp: buddy_pool_def)
  assume r: "buddy_allocate s m n = Some (Inr p, s', m')"
  show "p mod page_bytes (page_size s) = 0 \<and> p + n * page_bytes (page_size s) \<le> 2 ^ 48 \<and>
      page_size s' = page_size s"
    by (rule cases) (use r block_page [OF ar] in \<open>auto simp: same_arena_def\<close>)
  show "\<exists>Q \<subseteq> P. page_span (page_size s) p n \<subseteq> Q \<and> buddy_pool s' m' (P - Q)"
  proof (rule cases)
    fix e assume "buddy_allocate s m n = Some (Inl e, s, m)"
    with r show ?thesis by simp
  next
    fix k b a' m1 ls'
    assume b: "buddy_allocate s m n = Some (Inr (phys_from_ptr b), a', m1)" "n \<le> 2 ^ k" "same_arena s a'"
      "buddy_inv a' m1 ls'" "block_ok s k b" "span (page_size s) k b \<subseteq> free_bytes (page_size s) ls"
      "free_bytes (page_size s) ls' = free_bytes (page_size s) ls - span (page_size s) k b"
    then have "buddy_pool s' m' (P - span (page_size s) k b)"
      using r P unfolding buddy_pool_def by (auto simp: same_arena_def)
    then show ?thesis using b r P block_page(3) [OF ar b(5,2) refl] by auto
  qed
qed

section \<open>Freeing\<close>

lemma blocks_unique_order:
  assumes "blocks_ok a (blocks ls)" and "(k, b) \<in> blocks ls" and "(j, b) \<in> blocks ls"
  shows "j = k"
proof (rule ccontr)
  assume "j \<noteq> k"
  with assms have "span (page_size a) k b \<inter> span (page_size a) j b = {}"
    unfolding blocks_ok_def by blast
  then show False using span_nonempty by blast
qed

lemma try_remove_buddy_absent:
  assumes "buddy_inv a m ls" and "k < length ls" and "b \<notin> set (ls ! k)"
  shows "try_remove_buddy a m k b = Some (False, a, m)"
  using assms find_in_list_absent [of m "free_blocks a ! k" "ls ! k" b None]
  by (simp add: try_remove_buddy_def nth_p_def buddy_inv_def lists_ok_def)

lemma try_remove_buddy_present:
  assumes inv: "buddy_inv a m ls" and k: "k < length ls" and b: "b \<in> set (ls ! k)"
    and ps: "ps = page_size a"
  shows "\<exists>a' m' ls'. try_remove_buddy a m k b = Some (True, a', m') \<and> same_arena a a' \<and>
           buddy_inv a' m' ls' \<and> blocks ls' = blocks ls - {(k, b)} \<and>
           (\<forall>j < length ls. j \<noteq> k \<longrightarrow> ls' ! j = ls ! j) \<and>
           (\<forall>x. x \<notin> free_bytes ps ls \<longrightarrow> m' x = m x)"
proof -
  obtain xs ys where xy: "ls ! k = xs @ b # ys" using split_list [OF b] by blast
  have l: "flist m (free_blocks a ! k) (xs @ b # ys)" "distinct (xs @ b # ys)"
      "length ls = length (free_blocks a)"
    using inv k xy [symmetric] by (simp_all add: buddy_inv_def lists_ok_def)
  have bo: "blocks_ok a (blocks ls)" using inv by (simp add: buddy_inv_def)
  let ?ls = "ls[k := xs @ ys]"
  have bl: "blocks ?ls = blocks ls - {(k, b)}"
  proof -
    have "remove1 b (ls ! k) = xs @ ys" using l(2) xy by (simp add: remove1_append)
    then show ?thesis using blocks_remove [OF k, of b] l(2) xy by simp
  qed
  have find: "find_in_list m b None (free_blocks a ! k) =
      Some (Some (if xs = [] then None else Some (last xs), next_block m b))"
    using find_in_list_present [OF l(1)] l(2) by simp
  define a' where "a' = (if xs = [] then a\<lparr>free_blocks := (free_blocks a)[k := next_block m b]\<rparr> else a)"
  define m' where "m' = (if xs = [] then m else m(last xs := word_of_nat (next_block m b)))"
  have run: "try_remove_buddy a m k b = Some (True, a', m')"
    using find k l(3) by (simp add: try_remove_buddy_def nth_p_def a'_def m'_def)
  have same: "same_arena a a'" by (simp add: a'_def)
  have other: "m' x = m x" if "x \<notin> set (ls ! k)" for x using that xy by (auto simp: m'_def)
  have "lists_ok a' m' ?ls"
    unfolding lists_ok_def
  proof (intro conjI allI impI)
    show "length ?ls = length (free_blocks a')" using l(3) by (simp add: a'_def)
    fix j assume j: "j < length ?ls"
    have old: "flist m (free_blocks a ! j) (ls ! j)" "distinct (ls ! j)"
      using inv j by (auto simp: buddy_inv_def lists_ok_def)
    show "distinct (?ls ! j)" using old l(2) k by (cases "j = k") simp_all
    show "flist m' (free_blocks a' ! j) (?ls ! j)"
    proof (cases "j = k")
      case True
      then show ?thesis using flist_unlink [OF l(1,2)] k l(3) by (simp add: a'_def m'_def)
    next
      case False
      have "m' x = m x" if "x \<in> set (ls ! j)" for x
        using that other blocks_unique_order [OF bo, of k x j] False j k by (auto simp: blocks_def)
      then have "flist m' (free_blocks a ! j) (ls ! j)" using old(1) by (subst flist_cong) auto
      then show ?thesis using False by (simp add: a'_def)
    qed
  qed
  moreover have "blocks_ok a' (blocks ?ls)"
    using same_arena_blocks_ok [OF same] blocks_ok_mono [OF bo] bl by simp
  moreover have "arena_ok a'" using inv same_arena_ok [OF same] by (simp add: buddy_inv_def)
  moreover have "x \<notin> set (ls ! k)" if "x \<notin> free_bytes ps ls" for x
    using that span_nonempty k unfolding free_bytes_def blocks_def by blast
  moreover have "\<forall>j < length ls. j \<noteq> k \<longrightarrow> ?ls ! j = ls ! j" by simp
  ultimately show ?thesis using run same bl other unfolding buddy_inv_def by blast
qed

text \<open>The buddy of a block is its upper neighbour when the bit of the block size is clear in the
  offset of the block, and its lower neighbour otherwise.\<close>

definition buddy_is_upper :: "BuddyPageAllocator \<Rightarrow> ptr \<Rightarrow> usize \<Rightarrow> bool" where
  "buddy_is_upper a b k \<longleftrightarrow> \<not> bit (b - base_addr a) (k + ilog2 (page_bytes (page_size a)))"

lemma xor_power_add:
  fixes x :: nat
  assumes "\<not> bit x j"
  shows "x XOR 2 ^ j = x + 2 ^ j"
proof -
  have "x XOR 2 ^ j = set_bit j x"
    using assms by (intro bit_eqI) (auto simp: bit_simps)
  then show ?thesis using assms by (simp add: set_bit_eq)
qed

lemma xor_power_nat:
  fixes x :: nat
  shows "x XOR 2 ^ j = (if bit x j then x - 2 ^ j else x + 2 ^ j)"
proof (cases "bit x j")
  case True
  let ?y = "x XOR 2 ^ j"
  have "\<not> bit ?y j" using True by (simp add: bit_simps)
  then have "?y XOR 2 ^ j = ?y + 2 ^ j" by (rule xor_power_add)
  moreover have "?y XOR 2 ^ j = x" by (simp add: xor.assoc)
  ultimately show ?thesis using True by simp
qed (simp add: xor_power_add)

lemma ilog2_page_bytes: "page_bytes ps = 2 ^ ilog2 (page_bytes ps)"
  by (cases ps) (simp_all add: ilog2.simps)

lemma bit_imp_power_le:
  fixes x :: nat
  assumes "bit x j"
  shows "2 ^ j \<le> x"
proof (rule ccontr)
  assume "\<not> 2 ^ j \<le> x"
  then have "x div 2 ^ j = 0" by simp
  with assms show False by (simp add: bit_iff_odd)
qed

lemma buddy_of_spec:
  assumes ar: "arena_ok a" and ok: "block_ok a k b" and ps: "ps = page_size a"
  shows "buddy_of a b k = Some (if buddy_is_upper a b k then b + 2 ^ k * page_bytes ps
                                else b - 2 ^ k * page_bytes ps)"
    and "\<not> buddy_is_upper a b k \<Longrightarrow> base_addr a + 2 ^ k * page_bytes ps \<le> b"
proof -
  let ?j = "k + ilog2 (page_bytes ps)"
  note fits = block_size_fits [OF ar ok]
  have size: "2 ^ k * page_bytes ps = 2 ^ ?j"
    using ilog2_page_bytes [of ps] by (simp add: power_add)
  have low: "2 ^ ?j \<le> b - base_addr a" if "\<not> buddy_is_upper a b k"
    using that bit_imp_power_le [of "b - base_addr a" ?j] ps by (simp add: buddy_is_upper_def)
  have base: "base_addr a \<le> b" using ok by (simp add: block_ok_def)
  show le: "base_addr a + 2 ^ k * page_bytes ps \<le> b" if "\<not> buddy_is_upper a b k"
    using low [OF that] base size by simp
  have x: "(b - base_addr a) XOR (2 ^ k * page_bytes ps) =
      (if buddy_is_upper a b k then (b - base_addr a) + 2 ^ k * page_bytes ps
       else (b - base_addr a) - 2 ^ k * page_bytes ps)"
    unfolding size by (simp add: xor_power_nat buddy_is_upper_def ps)
  have "base_addr a + ((b - base_addr a) XOR (2 ^ k * page_bytes ps)) =
      (if buddy_is_upper a b k then b + 2 ^ k * page_bytes ps else b - 2 ^ k * page_bytes ps)"
    using x base le by auto
  moreover have "page_size_mul (page_size a) (2 ^ k) = Some (2 ^ k * page_bytes ps)"
    using fits(4) ps by (simp add: page_size_mul_def mul_p_def mult.commute)
  moreover have "0 < (if buddy_is_upper a b k then b + 2 ^ k * page_bytes ps else b - 2 ^ k * page_bytes ps)"
  proof (cases "buddy_is_upper a b k")
    case False
    with le ar show ?thesis by (simp add: arena_ok_def)
  qed (use fits(5) in simp)
  ultimately show "buddy_of a b k = Some (if buddy_is_upper a b k then b + 2 ^ k * page_bytes ps
                                else b - 2 ^ k * page_bytes ps)"
    using fits(3,4) base ps by (auto simp: buddy_of_def sub_p_def add_p_def one_shl_def split: if_splits)
qed

lemma block_in_free_list_spec:
  assumes "buddy_inv a m ls" and "k < length ls"
  shows "block_in_free_list a m k b = Some (b \<in> set (ls ! k))"
  using assms list_contains_spec [of m "free_blocks a ! k" "ls ! k" b]
  by (simp add: block_in_free_list_def nth_p_def buddy_inv_def lists_ok_def)

text \<open>The part of \<^verbatim>\<open>free\<close> after its argument checks, for a block of the arena.\<close>

lemma buddy_free_block:
  assumes inv: "buddy_inv a m ls" and ok: "block_ok a k b"
    and n: "0 < n" "checked_next_power_of_two n = Some (2 ^ k)" and c: "buddy_of a b k = Some c"
  shows "buddy_free a m (phys_from_ptr b) n = do {
           (removed, a1, m1) \<leftarrow> try_remove_buddy a m k c;
           if removed then do {
             (a2, m2) \<leftarrow> push_free a1 m1 (k + 1) b;
             Some (Inr (), a2, m2)
           } else do {
             b1 \<leftarrow> block_in_free_list a m k b;
             if b1 then Some (Inl UnknownPtr, a, m) else do {
             b2 \<leftarrow> block_in_free_list a m (k + 1) b;
             if b2 then Some (Inl UnknownPtr, a, m) else do {
             b3 \<leftarrow> block_in_free_list a m (k + 1) c;
             if b3 then Some (Inl UnknownPtr, a, m) else do {
             (a2, m2) \<leftarrow> push_free a m k b;
             Some (Inr (), a2, m2)
           }}}}}"
proof -
  note fits = block_size_fits [OF _ ok]
  have ar: "arena_ok a" using inv by (simp add: buddy_inv_def)
  have "ptr_from_phys (phys_from_ptr b) = b"
    using fits(4,6) [OF ar] ptr_phys_roundtrip [of b] by simp
  moreover have "b < end_addr a" "base_addr a \<le> b" "k < length (free_blocks a)"
    using ok page_bytes_pos [of "page_size a"] unfolding block_ok_def
    by (auto intro: less_le_trans [of b "b + 2 ^ k * page_bytes (page_size a)"])
  ultimately show ?thesis using n c fits(5) [OF ar]
    by (simp add: buddy_free_def Let_def)
qed

text \<open>The successful cases of \<^verbatim>\<open>free\<close>.\<close>

lemma buddy_free_success:
  assumes inv: "buddy_inv a m ls" and ok: "block_ok a k b" and ps: "ps = page_size a"
    and n: "0 < n" "checked_next_power_of_two n = Some (2 ^ k)"
    and used: "span ps k b \<inter> free_bytes ps ls = {}" and max: "Suc k < length ls"
    and c: "buddy_of a b k = Some c" and up: "c \<in> set (ls ! k) \<longrightarrow> b < c" and c2: "c \<in> set (ls ! k) \<or> c \<notin> set (ls ! Suc k)"
  shows "\<exists>a' m' ls'. buddy_free a m (phys_from_ptr b) n = Some (Inr (), a', m') \<and>
           buddy_inv a' m' ls' \<and> free_bytes ps ls' = free_bytes ps ls \<union> span ps k b \<and>
           (if c \<in> set (ls ! k) then Suc k else k, b) \<in> blocks ls' \<and>
           (\<forall>x. x \<notin> free_bytes ps ls \<union> span ps k b \<longrightarrow> m' x = m x)"
proof -
  have ar: "arena_ok a" and bo: "blocks_ok a (blocks ls)" using inv by (auto simp: buddy_inv_def)
  note free = buddy_free_block [OF inv ok n c]
  show ?thesis
  proof (cases "c \<in> set (ls ! k)")
    case True
    from True up c have ce: "c = b + 2 ^ k * page_bytes ps"
      using buddy_of_spec(1) [OF ar ok ps] by (auto split: if_splits)
    obtain a1 m1 ls1 where r: "try_remove_buddy a m k c = Some (True, a1, m1)" "same_arena a a1"
      "buddy_inv a1 m1 ls1" "blocks ls1 = blocks ls - {(k, c)}"
      "\<forall>x. x \<notin> free_bytes ps ls \<longrightarrow> m1 x = m x"
      using try_remove_buddy_present [OF inv _ True ps] max by auto
    have mem: "(k, c) \<in> blocks ls" using True max by (simp add: blocks_def)
    then have cok: "block_ok a k c" using bo by (auto simp: blocks_ok_def)
    have fb: "free_bytes ps ls1 = free_bytes ps ls - span ps k c"
      using free_bytes_remove [OF bo mem r(4) ps] .
    have cs: "span ps k c \<subseteq> free_bytes ps ls" using mem by (auto simp: free_bytes_def)
    have dbl: "span ps (Suc k) b = span ps k b \<union> span ps k c" using span_double ce by simp
    have "length (free_blocks a) = length ls" using inv by (simp add: buddy_inv_def lists_ok_def)
    then have "block_ok a (Suc k) b" using cok ok ce max ps by (simp add: block_ok_def)
    then have ok1: "block_ok a1 (Suc k) b" by (simp add: same_arena_block_ok [OF r(2)])
    have ps1: "ps = page_size a1" using r(2) ps by (simp add: same_arena_def)
    have "span (page_size a1) (Suc k) b \<inter> free_bytes (page_size a1) ls1 = {}"
      unfolding ps1 [symmetric] using dbl fb used by blast
    from push_free_spec [OF r(3) ok1 this] obtain a2 m2 ls2 where p:
      "push_free a1 m1 (Suc k) b = Some (a2, m2)" "buddy_inv a2 m2 ls2"
      "blocks ls2 = insert (Suc k, b) (blocks ls1)" "\<forall>x. x \<noteq> b \<longrightarrow> m2 x = m1 x"
      by auto
    have "free_bytes ps ls2 = free_bytes ps ls \<union> span ps k b"
      using free_bytes_insert [OF p(3), of ps] fb dbl cs by blast
    moreover have "\<forall>x. x \<notin> free_bytes ps ls \<union> span ps k b \<longrightarrow> m2 x = m x"
      using p(4) r(5) span_nonempty [of b ps k] by auto
    ultimately show ?thesis using True free r(1) p by auto
  next
    case False
    have "span (page_size a) k b \<inter> free_bytes (page_size a) ls = {}" using used ps by simp
    from push_free_spec [OF inv ok this] block_not_in_lists [OF bo this]
    obtain a2 m2 ls2 where p: "push_free a m k b = Some (a2, m2)" "buddy_inv a2 m2 ls2"
      "blocks ls2 = insert (k, b) (blocks ls)" "\<forall>x. x \<noteq> b \<longrightarrow> m2 x = m x"
      and nin: "b \<notin> set (ls ! k)" "b \<notin> set (ls ! Suc k)"
      using max by auto
    have "try_remove_buddy a m k c = Some (False, a, m)"
      using try_remove_buddy_absent [OF inv _ False] max by simp
    then have "buddy_free a m (phys_from_ptr b) n = Some (Inr (), a2, m2)"
      using free p(1) nin c2 False max block_in_free_list_spec [OF inv] by simp
    moreover have "free_bytes ps ls2 = free_bytes ps ls \<union> span ps k b"
      using free_bytes_insert [OF p(3), of ps] by blast
    moreover have "\<forall>x. x \<notin> free_bytes ps ls \<union> span ps k b \<longrightarrow> m2 x = m x"
      using p(4) span_nonempty [of b ps k] by auto
    ultimately show ?thesis using False p by auto
  qed
qed

text \<open>Freeing a block of the largest order panics: the code looks at the free list of the
  next order, which does not exist.\<close>

lemma buddy_free_max_order_panics:
  assumes inv: "buddy_inv a m ls" and ok: "block_ok a k b" and max: "Suc k = length ls"
    and n: "0 < n" "checked_next_power_of_two n = Some (2 ^ k)"
    and used: "span (page_size a) k b \<inter> free_bytes (page_size a) ls = {}"
  shows "buddy_free a m (phys_from_ptr b) n = None"
proof -
  have ar: "arena_ok a" and bo: "blocks_ok a (blocks ls)" and len: "length (free_blocks a) = length ls"
    using inv by (auto simp: buddy_inv_def lists_ok_def)
  obtain c where c: "buddy_of a b k = Some c" using buddy_of_spec(1) [OF ar ok refl] by auto
  note free = buddy_free_block [OF inv ok n c]
  have nin: "b \<notin> set (ls ! k)" using block_not_in_lists [OF bo used] max by simp
  show ?thesis
  proof (cases "c \<in> set (ls ! k)")
    case True
    obtain a1 m1 where r: "try_remove_buddy a m k c = Some (True, a1, m1)" "same_arena a a1"
      using try_remove_buddy_present [OF inv _ True refl] max by auto
    have "push_free a1 m1 (Suc k) b = None"
      using r(2) len max by (simp add: push_free_def is_aligned_to_def nth_p_def same_arena_def assert_p_def)
    then show ?thesis using free r(1) by simp
  next
    case False
    then have "try_remove_buddy a m k c = Some (False, a, m)"
      using try_remove_buddy_absent [OF inv] max by simp
    moreover have "block_in_free_list a m (Suc k) b = None"
      using len max by (simp add: block_in_free_list_def nth_p_def)
    ultimately show ?thesis using free nin block_in_free_list_spec [OF inv, of k b] max by simp
  qed
qed

text \<open>A free buddy is unlinked and the block is pushed to the next order.\<close>

lemma buddy_free_lower:
  assumes inv: "buddy_inv a m ls" and ok: "block_ok a k b" and ps: "ps = page_size a"
    and n: "0 < n" "checked_next_power_of_two n = Some (2 ^ k)" and max: "Suc k < length ls"
    and c: "buddy_of a b k = Some c" and cfree: "c \<in> set (ls ! k)"
  obtains a2 m2 where "buddy_free a m (phys_from_ptr b) n = Some (Inr (), a2, m2)" "free_blocks a2 ! Suc k = b"
    "Suc k < length (free_blocks a2)" "length (free_blocks a2) \<le> 50" "b \<noteq> 0"
proof -
  obtain a1 m1 ls1 where r: "try_remove_buddy a m k c = Some (True, a1, m1)" "same_arena a a1"
      "buddy_inv a1 m1 ls1"
    using try_remove_buddy_present [OF inv _ cfree ps] max by auto
  have len: "Suc k < length (free_blocks a1)" "length (free_blocks a1) \<le> 50"
    using inv max r(2,3) by (auto simp: same_arena_def buddy_inv_def arena_ok_def lists_ok_def)
  define a2 where "a2 = a1\<lparr>free_blocks := (free_blocks a1)[Suc k := b]\<rparr>"
  define m2 where "m2 = m1(b := word_of_nat (free_blocks a1 ! Suc k))"
  have b: "b \<noteq> 0" "b mod page_bytes (page_size a1) = 0"
    using ok inv r(2) by (auto simp: block_ok_def buddy_inv_def arena_ok_def same_arena_def)
  have "push_free a1 m1 (Suc k) b = Some (a2, m2)"
    using len b by (simp add: push_free_def is_aligned_to_def nth_p_def a2_def m2_def)
  then have "buddy_free a m (phys_from_ptr b) n = Some (Inr (), a2, m2)"
    using buddy_free_block [OF inv ok n c] r(1) by simp
  then show thesis by (rule that) (use len b in \<open>simp_all add: a2_def\<close>)
qed

text \<open>C12: what \<^verbatim>\<open>free\<close> does with a block that is in use, in every case.  Of the largest order, it panics.  When the
  buddy is in the free list of the same order and is the lower neighbour, it reports success, with the merged block at the
  wrong address (see below).  When the buddy is not in that list but heads a free block of twice the size, it refuses the block
  and changes nothing.  In all other cases it succeeds: exactly the bytes of the block become free, the allocator
  stays well-formed, only free memory is written, and a free buddy is merged with the block into one of the next order.\<close>

theorem buddy_free_correct:
  assumes "buddy_inv a m ls" and "block_ok a k b" and "ps = page_size a"
    and "0 < n" "checked_next_power_of_two n = Some (2 ^ k)" and "span ps k b \<inter> free_bytes ps ls = {}"
  shows "\<exists>c. buddy_of a b k = Some c \<and>
    (if Suc k = length ls then buddy_free a m (phys_from_ptr b) n = None
     else if c \<in> set (ls ! k) \<and> c < b then \<exists>a' m'. buddy_free a m (phys_from_ptr b) n = Some (Inr (), a', m')
     else if c \<notin> set (ls ! k) \<and> c \<in> set (ls ! Suc k) then buddy_free a m (phys_from_ptr b) n = Some (Inl UnknownPtr, a, m)
     else \<exists>a' m' ls'. buddy_free a m (phys_from_ptr b) n = Some (Inr (), a', m') \<and>
       buddy_inv a' m' ls' \<and> free_bytes ps ls' = free_bytes ps ls \<union> span ps k b \<and>
       (if c \<in> set (ls ! k) then Suc k else k, b) \<in> blocks ls' \<and>
       (\<forall>x. x \<notin> free_bytes ps ls \<union> span ps k b \<longrightarrow> m' x = m x))"
proof -
  note inv = assms(1) and ok = assms(2)
  have ar: "arena_ok a" and bo: "blocks_ok a (blocks ls)" and len: "k < length ls"
    using inv ok by (auto simp: buddy_inv_def lists_ok_def block_ok_def)
  obtain c where c: "buddy_of a b k = Some c" using buddy_of_spec(1) [OF ar ok assms(3)] by auto
  have "0 < 2 ^ k * page_bytes ps" "0 < b" using page_bytes_pos [of ps] block_size_fits(5) [OF ar ok] by simp_all
  then have "b + 2 ^ k * page_bytes ps \<noteq> b" "b - 2 ^ k * page_bytes ps \<noteq> b" by linarith+
  then have "c \<noteq> b" using buddy_of_spec(1) [OF ar ok assms(3)] c by (cases "buddy_is_upper a b k") simp_all
  note free = buddy_free_block [OF inv ok assms(4,5) c]
  consider (max) "Suc k = length ls" | (lower) "Suc k < length ls" "c \<in> set (ls ! k)" "c < b"
    | (refused) "Suc k < length ls" "c \<notin> set (ls ! k)" "c \<in> set (ls ! Suc k)"
    | (ok) "Suc k < length ls" "c \<in> set (ls ! k) \<longrightarrow> b < c" "c \<in> set (ls ! k) \<or> c \<notin> set (ls ! Suc k)"
    using len \<open>c \<noteq> b\<close> by linarith
  then show ?thesis
  proof cases
    case max
    then show ?thesis using c buddy_free_max_order_panics [OF inv ok max assms(4,5)] assms(3,6) by simp
  next
    case lower
    then have "\<exists>a' m'. buddy_free a m (phys_from_ptr b) n = Some (Inr (), a', m')"
      by (metis buddy_free_lower [OF inv ok assms(3-5) lower(1) c lower(2)])
    then show ?thesis using c lower by auto
  next
    case refused
    have "b \<notin> set (ls ! k)" "b \<notin> set (ls ! Suc k)" using block_not_in_lists [OF bo, of k b] assms(3,6) refused(1) by auto
    then have "buddy_free a m (phys_from_ptr b) n = Some (Inl UnknownPtr, a, m)"
      using free refused try_remove_buddy_absent [OF inv _ refused(2)] block_in_free_list_spec [OF inv] by simp
    then show ?thesis using c refused by auto
  next
    case ok
    then show ?thesis using c buddy_free_success [OF inv assms(2-6) ok(1) c ok(2,3)] by auto
  qed
qed

text \<open>C22: \<^verbatim>\<open>free\<close> of a block whose free buddy is the \emph{lower} neighbour records the
  merged block at the address of the upper one.  The next request for twice the size is then
  answered with the range that starts at the freed block and runs past its end, although the page
  that follows it is not free.\<close>

theorem buddy_free_lower_buddy_overlap:
  assumes inv: "buddy_inv a m ls" and ok: "block_ok a k b" and ps: "ps = page_size a"
    and n: "0 < n" "checked_next_power_of_two n = Some (2 ^ k)" and max: "Suc k < length ls"
    and c: "buddy_of a b k = Some c" and cfree: "c \<in> set (ls ! k)" and low: "c < b"
    and used: "b + 2 ^ k * page_bytes ps \<notin> free_bytes ps ls"
  shows "\<exists>a' m' a'' m''.
           buddy_free a m (phys_from_ptr b) n = Some (Inr (), a', m') \<and>
           buddy_allocate a' m' (2 ^ Suc k) = Some (Inr (phys_from_ptr b), a'', m'') \<and>
           \<not> span ps (Suc k) b \<subseteq> free_bytes ps ls \<union> span ps k b"
proof -
  obtain a2 m2 where a2: "buddy_free a m (phys_from_ptr b) n = Some (Inr (), a2, m2)" "free_blocks a2 ! Suc k = b"
    "Suc k < length (free_blocks a2)" "length (free_blocks a2) \<le> 50" "b \<noteq> 0"
    by (rule buddy_free_lower [OF inv ok ps n max c cfree])
  then have "pop_free a2 m2 (Suc k) = Some (Some b, a2\<lparr>free_blocks := (free_blocks a2)[Suc k := next_block m2 b]\<rparr>)"
    by (simp add: pop_free_def nth_p_def)
  then obtain a3 where "find_free a2 m2 (Suc k) = Some (Inr (b, Suc k, a3))"
    using a2(3) by (simp add: find_free.simps [of a2 m2 "Suc k"])
  moreover have "checked_next_power_of_two (2 ^ Suc k) = Some (2 ^ Suc k)"
    using a2(3,4) by (intro checked_next_power_of_two_power) simp
  ultimately have "buddy_allocate a2 m2 (2 ^ Suc k) = Some (Inr (phys_from_ptr b), a3, m2)"
    using ilog2_power [of "Suc k"]
    by (simp add: buddy_allocate_def split_block_to_size.simps [of a3 m2 b] del: power_Suc)
  moreover have "b + 2 ^ k * page_bytes ps \<in> span ps (Suc k) b"
    by (simp add: span_def)
  moreover have "b + 2 ^ k * page_bytes ps \<notin> span ps k b" by (simp add: span_def)
  ultimately show ?thesis using a2(1) used by blast
qed

section \<open>Adding memory\<close>

lemma interval_split:
  fixes b :: nat
  assumes "L \<le> R"
  shows "{b ..< b + R} = {b ..< b + L} \<union> {b + L ..< b + L + (R - L)}"
  using assms by auto

lemma page_bytes_le: "page_bytes ps \<le> 0x4000"
  by (cases ps) simp_all

lemma add_blocks_spec:
  assumes "buddy_inv a m ls" and "ps = page_size a" and "order < length ls"
    and "block_start mod page_bytes ps = 0" and "base_addr a \<le> block_start"
    and "block_start + remaining div page_bytes ps * page_bytes ps \<le> end_addr a"
    and "{block_start ..< block_start + remaining div page_bytes ps * page_bytes ps} \<inter> free_bytes ps ls = {}"
  shows "\<exists>a' m' ls'. add_blocks a m block_start remaining order = Some (a', m') \<and> same_arena a a' \<and>
           buddy_inv a' m' ls' \<and>
           free_bytes ps ls' = free_bytes ps ls \<union>
             {block_start ..< block_start + remaining div page_bytes ps * page_bytes ps} \<and>
           (\<forall>x. x \<notin> {block_start ..< block_start + remaining div page_bytes ps * page_bytes ps} \<longrightarrow> m' x = m x) \<and>
           (\<forall>k. k \<le> order \<or> remaining < 2 ^ k * page_bytes ps \<longrightarrow> units k ls' = units k ls + remaining div (2 ^ k * page_bytes ps))"
  using assms
proof (induction a m block_start remaining order arbitrary: ls rule: add_blocks.induct)
  case (1 a m block_start remaining order)
  let ?P = "page_bytes ps" and ?L = "2 ^ order * page_bytes ps"
  have len: "length ls = length (free_blocks a)" "order < 50"
    using 1(3,5) by (auto simp: buddy_inv_def lists_ok_def arena_ok_def)
  have P: "0 < ?P" using page_bytes_pos .
  have L: "?L \<le> usize_max"
  proof -
    have "(2::nat) ^ order \<le> 2 ^ 49" using len(2) by (intro power_increasing) auto
    then have "?L \<le> 2 ^ 49 * 0x4000" by (intro mult_mono) (auto simp: page_bytes_le)
    then show ?thesis by (simp add: usize_max_def)
  qed
  have one: "one_shl order = Some (2 ^ order)" and mul: "mul_p (2 ^ order) ?P = Some ?L"
    using len L by (auto simp: one_shl_def mul_p_def)
  consider (zero) "remaining = 0" | (take) "0 < remaining" "?L \<le> remaining"
    | (smaller) "0 < remaining" "remaining < ?L" "0 < order" | (stop) "0 < remaining" "remaining < ?L" "order = 0"
    by fastforce
  then show ?case
  proof cases
    case zero
    then show ?thesis using 1(3) by (auto simp: add_blocks.simps [of a m block_start 0])
  next
    case stop
    then have "remaining div ?P = 0" by simp
    moreover have "add_blocks a m block_start remaining order = Some (a, m)"
      using stop L 1(4) by (simp add: add_blocks.simps [of a m block_start remaining 0] one_shl_def mul_p_def)
    moreover have "\<forall>k. k \<le> order \<or> remaining < 2 ^ k * ?P \<longrightarrow> units k ls = units k ls + remaining div (2 ^ k * ?P)" using stop by auto
    ultimately show ?thesis using 1(3) by auto
  next
    case smaller
    then have run: "add_blocks a m block_start remaining order = add_blocks a m block_start remaining (order - 1)"
      using L len 1(4) by (simp add: add_blocks.simps [of a m block_start remaining order] one_shl_def mul_p_def)
    have o: "order - 1 < length ls" "mul_p (2 ^ order) (page_bytes (page_size a)) = Some ?L" "\<not> ?L \<le> remaining" "order \<noteq> 0"
      using 1(4,5) mul smaller by auto
    have le: "k \<le> order - 1 \<or> remaining < 2 ^ k * ?P" if "k \<le> order \<or> remaining < 2 ^ k * ?P" for k
      using that smaller by (cases "k = order") auto
    obtain a' m' ls' where r: "add_blocks a m block_start remaining (order - 1) = Some (a', m')" "same_arena a a'" "buddy_inv a' m' ls'"
      "free_bytes ps ls' = free_bytes ps ls \<union> {block_start ..< block_start + remaining div ?P * ?P}"
      "\<forall>x. x \<notin> {block_start ..< block_start + remaining div ?P * ?P} \<longrightarrow> m' x = m x"
      "\<forall>k. k \<le> order - 1 \<or> remaining < 2 ^ k * ?P \<longrightarrow> units k ls' = units k ls + remaining div (2 ^ k * ?P)"
      using 1(2) [OF smaller(1) one o(2-4) 1(3,4) o(1) 1(6-9)] by blast
    have "\<forall>k. k \<le> order \<or> remaining < 2 ^ k * ?P \<longrightarrow> units k ls' = units k ls + remaining div (2 ^ k * ?P)"
      by (intro allI impI r(6) [THEN spec, THEN mp] le)
    then show ?thesis unfolding run using r(1-5) by blast
  next
    case take
    let ?R = "remaining div ?P * ?P" and ?m0 = "m(block_start := 0)"
    have LR: "?L \<le> ?R"
      using take(2) P by (intro mult_le_mono1) (simp add: less_eq_div_iff_mult_less_eq)
    have rest: "(remaining - ?L) div ?P * ?P = ?R - ?L"
    proof -
      obtain r where "remaining = ?L + r" using take(2) le_Suc_ex by blast
      then show ?thesis using P by (simp add: add_mult_distrib)
    qed
    have ok: "block_ok a order block_start" 
      using 1(4-8) len order_trans [OF add_left_mono [OF LR] 1(8)] by (simp add: block_ok_def)
    have split: "{block_start ..< block_start + ?R} =
        span ps order block_start \<union> {block_start + ?L ..< block_start + ?L + (?R - ?L)}"
      unfolding span_def by (rule interval_split [OF LR])
    then have sub: "span ps order block_start \<subseteq> {block_start ..< block_start + ?R}" by simp
    have inv0: "buddy_inv a ?m0 ls"
      using 1(9) sub span_nonempty [of block_start ps order] 1(4)
      by (intro buddy_inv_write [OF 1(3)]) auto
    have "span (page_size a) order block_start \<inter> free_bytes (page_size a) ls = {}"
      using sub 1(9,4) by blast
    from push_free_spec [OF inv0 ok this] obtain a1 m1 ls1 where p: "push_free a ?m0 order block_start = Some (a1, m1)"
      "same_arena a a1" "buddy_inv a1 m1 ls1" "blocks ls1 = insert (order, block_start) (blocks ls)"
      "\<forall>x. x \<noteq> block_start \<longrightarrow> m1 x = m x" "length ls1 = length ls" "ls1 = ls[order := block_start # ls ! order]"
      by auto
    have fb: "free_bytes ps ls1 = span ps order block_start \<union> free_bytes ps ls"
      using p(4) by (rule free_bytes_insert)
    have add: "add_p block_start ?L = Some (block_start + ?L)"
      using block_size_fits(4) [OF _ ok] 1(3,4) by (simp add: buddy_inv_def add_p_def)
    have mul': "mul_p (2 ^ order) (page_bytes (page_size a)) = Some ?L" using mul 1(4) by simp
    have end1: "block_start + ?L + (?R - ?L) \<le> end_addr a" using 1(8) LR by linarith
    have "(block_start + ?L) mod ?P = 0" using 1(6) by (simp add: mod_eq_0_iff_dvd)
    moreover have "{block_start + ?L ..< block_start + ?L + (?R - ?L)} \<inter> free_bytes ps ls1 = {}"
      using 1(9) split fb by (auto simp: span_def)
    ultimately obtain a' m' ls' where
      r: "add_blocks a1 m1 (block_start + ?L) (remaining - ?L) order = Some (a', m')"
      "same_arena a1 a'" "buddy_inv a' m' ls'"
      "free_bytes ps ls' = free_bytes ps ls1 \<union> {block_start + ?L ..< block_start + ?L + (?R - ?L)}"
      "\<forall>x. x \<notin> {block_start + ?L ..< block_start + ?L + (?R - ?L)} \<longrightarrow> m' x = m1 x"
      "\<forall>k. k \<le> order \<or> remaining - ?L < 2 ^ k * ?P \<longrightarrow> units k ls' = units k ls1 + (remaining - ?L) div (2 ^ k * ?P)"
      using 1(1) [OF take(1) one mul' take(2) p(1) refl add p(3)] 1(4,5,7) p(2,6) end1
      unfolding rest by (auto simp: same_arena_def)
    have "add_blocks a m block_start remaining order = Some (a', m')"
      using take p(1) r(1)
      by (simp add: add_blocks.simps [of a m block_start remaining order] one mul' add)
    moreover have "\<forall>x. x \<notin> {block_start ..< block_start + ?R} \<longrightarrow> m' x = m x"
      using r(5) p(5) split span_nonempty [of block_start ps order] by (metis UnCI)
    moreover have "units k ls' = units k ls + remaining div (2 ^ k * ?P)" if "k \<le> order \<or> remaining < 2 ^ k * ?P" for k
    proof (cases "k \<le> order")
      case True
      obtain x where x: "remaining = ?L + x" using take(2) le_Suc_ex by blast
      have "?L = 2 ^ (order - k) * (2 ^ k * ?P)" using True by (simp add: power_add [symmetric] mult.assoc [symmetric])
      then have "remaining = x + 2 ^ (order - k) * (2 ^ k * ?P)" "remaining - ?L = x" using x by linarith+
      moreover have "2 ^ k * ?P \<noteq> 0" using P by simp
      ultimately have "remaining div (2 ^ k * ?P) = 2 ^ (order - k) + (remaining - ?L) div (2 ^ k * ?P)"
        by (simp only: div_mult_self1 not_False_eq_True)
      then show ?thesis using r(6) True units_cons [of order ls k block_start] p(7) 1(5) by simp
    next
      case False
      then have "remaining < 2 ^ k * ?P" "remaining - ?L < 2 ^ k * ?P" using that by auto
      then show ?thesis using r(6) False units_cons [of order ls k block_start] p(7) 1(5) by simp
    qed
    ultimately show ?thesis using r fb split same_arena_trans [OF p(2) r(2)] by blast
  qed
qed

lemma add_memory_region_run:
  assumes "0 < region_length" and "region_start \<noteq> 0" and "base_addr a \<le> region_start"
    and "region_start + region_length \<le> end_addr a" and "end_addr a \<le> usize_max"
    and "padding = align_offset region_start (page_bytes (page_size a))"
    and "page_bytes (page_size a) + padding \<le> region_length" and "0 < length (free_blocks a)"
  shows "add_memory_region a m region_start region_length = do {
           (a', m') \<leftarrow> add_blocks a m (region_start + padding) region_length (length (free_blocks a) - 1);
           Some (True, a', m') }"
proof -
  have "\<not> region_length < page_bytes (page_size a)" "\<not> region_length - padding < page_bytes (page_size a)"
      "padding \<le> region_length" "region_start + padding \<le> usize_max" "1 \<le> length (free_blocks a)"
    using assms by linarith+
  then show ?thesis using assms(1-5)
    unfolding add_memory_region_def Let_def assms(6) [symmetric] by (simp add: add_p_def sub_p_def)
qed

lemma add_memory_region_spec:
  assumes inv: "buddy_inv a m ls" and ps: "ps = page_size a" and "ls \<noteq> []" and "base_addr a \<le> region_start"
    and "region_start + region_length \<le> end_addr a" and pad: "padding = align_offset region_start (page_bytes ps)"
    and "page_bytes ps + padding \<le> region_length" and R: "R = region_length div page_bytes ps * page_bytes ps"
    and "region_start + padding + R \<le> end_addr a"
    and "{region_start + padding ..< region_start + padding + R} \<inter> free_bytes ps ls = {}"
  obtains a' m' ls' where "add_memory_region a m region_start region_length = Some (True, a', m')" "same_arena a a'"
    "buddy_inv a' m' ls'" "free_bytes ps ls' = free_bytes ps ls \<union> {region_start + padding ..< region_start + padding + R}"
    "\<forall>x. x \<notin> {region_start + padding ..< region_start + padding + R} \<longrightarrow> m' x = m x"
    "\<forall>k < length ls. units k ls' = units k ls + region_length div (2 ^ k * page_bytes ps)"
proof -
  have len: "length ls = length (free_blocks a)" "0 < length (free_blocks a)"
    and ar: "0xffff000000000000 \<le> base_addr a" "end_addr a \<le> usize_max"
    using inv \<open>ls \<noteq> []\<close> by (auto simp: buddy_inv_def lists_ok_def arena_ok_def)
  have "(region_start + padding) mod page_bytes ps = 0" using align_offset_aligned [OF page_bytes_pos] pad by simp
  then obtain a' m' ls' where
    r: "add_blocks a m (region_start + padding) region_length (length (free_blocks a) - 1) = Some (a', m')" "same_arena a a'"
    "buddy_inv a' m' ls'" "free_bytes ps ls' = free_bytes ps ls \<union> {region_start + padding ..< region_start + padding + R}"
    "\<forall>x. x \<notin> {region_start + padding ..< region_start + padding + R} \<longrightarrow> m' x = m x"
    "\<forall>k. k \<le> length (free_blocks a) - 1 \<or> region_length < 2 ^ k * page_bytes ps \<longrightarrow>
       units k ls' = units k ls + region_length div (2 ^ k * page_bytes ps)"
    using add_blocks_spec [OF inv ps, of "length (free_blocks a) - 1" "region_start + padding" region_length] assms(4,9,10) len R
    by auto
  have "\<forall>k < length ls. units k ls' = units k ls + region_length div (2 ^ k * page_bytes ps)" using r(6) len by auto
  note r = r(1-5) this
  have "0 < region_length" "region_start \<noteq> 0" using assms(4,7) ar(1) page_bytes_pos [of ps] by linarith+
  then have "add_memory_region a m region_start region_length = Some (True, a', m')"
    using add_memory_region_run [of region_length region_start a padding m] assms(4,5,7) ps pad ar len r(1) by simp
  then show thesis using that r(2-6) by blast
qed

text \<open>\<^verbatim>\<open>add_memory_region\<close> of a page-aligned region of the arena that holds no free memory
  yet makes exactly the whole pages of the region free, keeps the allocator well-formed and
  writes to nothing but the region.\<close>

lemma add_memory_region_aligned:
  assumes inv: "buddy_inv a m ls" and ps: "ps = page_size a" and "ls \<noteq> []"
    and region: "region_start mod page_bytes ps = 0" "page_bytes ps \<le> region_length"
      "base_addr a \<le> region_start" "region_start + region_length \<le> end_addr a"
    and fresh: "{region_start ..< region_start + region_length} \<inter> free_bytes ps ls = {}"
  shows "\<exists>a' m' ls'. add_memory_region a m region_start region_length = Some (True, a', m') \<and>
           buddy_inv a' m' ls' \<and>
           free_bytes ps ls' = free_bytes ps ls \<union>
             {region_start ..< region_start + region_length div page_bytes ps * page_bytes ps} \<and>
           (\<forall>x. x \<notin> {region_start ..< region_start + region_length} \<longrightarrow> m' x = m x)"
proof -
  let ?R = "region_length div page_bytes ps * page_bytes ps"
  have R: "?R \<le> region_length" by simp
  then have sub: "{region_start ..< region_start + ?R} \<subseteq> {region_start ..< region_start + region_length}"
    by (simp add: atLeastLessThan_subset_iff)
  have pad: "0 = align_offset region_start (page_bytes ps)" using region(1) by (simp add: align_offset_def)
  have e: "region_start + 0 + ?R \<le> end_addr a" using R region(4) by linarith
  have f: "{region_start + 0 ..< region_start + 0 + ?R} \<inter> free_bytes ps ls = {}" unfolding add_0_right using sub fresh by blast
  have n: "page_bytes ps + 0 \<le> region_length" using region(2) by simp
  obtain a' m' ls' where "add_memory_region a m region_start region_length = Some (True, a', m')" "same_arena a a'" "buddy_inv a' m' ls'"
    "free_bytes ps ls' = free_bytes ps ls \<union> {region_start ..< region_start + ?R}"
    "\<forall>x. x \<notin> {region_start ..< region_start + ?R} \<longrightarrow> m' x = m x"
    by (rule add_memory_region_spec [OF inv ps \<open>ls \<noteq> []\<close> region(3,4) pad n refl e f, unfolded add_0_right])
  then show ?thesis using sub by blast
qed


text \<open>A region that ends on a page boundary: wherever it starts, its whole pages become free, in blocks as large as possible.\<close>

lemma add_gap_stock:
  assumes "buddy_stock j u a m P" and ps: "ps = page_size a" and "j < length (free_blocks a)" and "base_addr a \<le> s"
    and "s + n \<le> end_addr a" and pad: "padding = align_offset s (page_bytes ps)" and "page_bytes ps + padding \<le> n"
    and "(s + n) mod page_bytes ps = 0" and "{s ..< s + n} \<inter> P = {}"
  obtains a' m' where "add_memory_region a m s n = Some (True, a', m')" "same_arena a a'"
    "buddy_stock j (u + n div (2 ^ j * page_bytes ps)) a' m' (P \<union> {s + padding ..< s + n})" "\<forall>x. x \<notin> {s + padding ..< s + n} \<longrightarrow> m' x = m x"
proof -
  obtain ls where ls: "buddy_inv a m ls" "P = free_bytes ps ls" "u \<le> units j ls" using assms(1) ps by (auto simp: buddy_stock_def)
  then have jl: "j < length ls" "ls \<noteq> []" using assms(3) by (auto simp: buddy_inv_def lists_ok_def)
  have pl: "padding < page_bytes ps" "(s + padding) mod page_bytes ps = 0"
    using align_offset_less [OF page_bytes_pos] align_offset_aligned [OF page_bytes_pos] pad by auto
  obtain k where k: "n = padding + k" using assms(7) le_Suc_ex [of padding n] by auto
  have "page_bytes ps dvd k"
    using assms(8) pl(2) dvd_add_right_iff [of "page_bytes ps" "s + padding" k] by (simp add: k mod_eq_0_iff_dvd add.assoc)
  then obtain c where "k = page_bytes ps * c" ..
  then have R: "k = n div page_bytes ps * page_bytes ps" using pl(1) page_bytes_pos [of ps] unfolding k by simp
  have e: "s + n = s + padding + k" using k by simp
  have sub: "{s + padding ..< s + padding + k} \<subseteq> {s ..< s + n}" unfolding e by (simp add: atLeastLessThan_subset_iff)
  have f: "s + padding + k \<le> end_addr a" "{s + padding ..< s + padding + k} \<inter> free_bytes ps ls = {}"
    using assms(5) e sub assms(9) ls(2) by (simp, blast)
  obtain a' m' ls' where r: "add_memory_region a m s n = Some (True, a', m')" "same_arena a a'" "buddy_inv a' m' ls'"
    "free_bytes ps ls' = free_bytes ps ls \<union> {s + padding ..< s + padding + k}"
    "\<forall>x. x \<notin> {s + padding ..< s + padding + k} \<longrightarrow> m' x = m x"
    "\<forall>k < length ls. units k ls' = units k ls + n div (2 ^ k * page_bytes ps)"
    by (rule add_memory_region_spec [OF ls(1) ps jl(2) assms(4,5) pad assms(7) R f])
  have "u + n div (2 ^ j * page_bytes ps) \<le> units j ls'" using r(6) jl(1) ls(3) by simp
  moreover have "P \<union> {s + padding ..< s + n} = free_bytes (page_size a') ls'"
    unfolding e using r(2,4) ls(2) ps by (simp add: same_arena_def)
  ultimately have "buddy_stock j (u + n div (2 ^ j * page_bytes ps)) a' m' (P \<union> {s + padding ..< s + n})"
    unfolding buddy_stock_def using r(3) by blast
  then show thesis by (rule that [OF r(1,2) _ r(5) [folded e]])
qed

section \<open>Concrete states\<close>

text \<open>An arena of four 4 KiB pages with three orders.\<close>

definition arena4 :: "ptr list \<Rightarrow> BuddyPageAllocator" where
  "arena4 heads = \<lparr>base_addr = 0xffff000000000000, end_addr = 0xffff000000004000,
                   page_size = FourKiB, free_blocks = heads\<rparr>"

lemma blocks_three: "blocks [xs, ys, zs] = {0} \<times> set xs \<union> {1} \<times> set ys \<union> {2} \<times> set zs"
proof -
  have "(k, b) \<in> blocks [xs, ys, zs] \<longleftrightarrow> k = 0 \<and> b \<in> set xs \<or> k = 1 \<and> b \<in> set ys \<or> k = 2 \<and> b \<in> set zs" for k b
  proof (cases "k = 0 \<or> k = 1 \<or> k = 2")
    case True
    then show ?thesis by (elim disjE) (simp_all add: blocks_def)
  next
    case False
    then have "\<not> k < length [xs, ys, zs]" by auto
    with False show ?thesis by (simp add: blocks_def)
  qed
  then show ?thesis by (simp add: set_eq_iff)
qed

lemma free_bytes_none [simp]: "free_bytes ps [[], [], []] = {}"
  by (simp add: free_bytes_def blocks_three)

lemmas arena4_simps = arena4_def buddy_inv_def arena_ok_def lists_ok_def blocks_ok_def block_ok_def
  blocks_three free_bytes_def span_def next_block_def less_Suc_eq usize_max_def

lemmas arena4_eval = arena4_def block_ok_def blocks_three free_bytes_def span_def buddy_of_def
  page_size_mul_def sub_p_def add_p_def mul_p_def one_shl_def usize_max_def

lemma arena4_whole: "buddy_inv (arena4 [0, 0, 0xffff000000000000]) (\<lambda>_. 0) [[], [], [0xffff000000000000]]"
  by (auto simp: arena4_simps)

lemma arena4_page: "b = 0xffff000000000000 \<or> b = 0xffff000000001000 \<Longrightarrow>
    buddy_inv (arena4 [b, 0, 0]) (\<lambda>_. 0) [[b], [], []]"
  by (auto simp: arena4_simps)

lemma arena4_empty: "buddy_inv (arena4 [0, 0, 0]) (\<lambda>_. 0) [[], [], []]"
  by (auto simp: arena4_simps)

lemma next_power_1: "checked_next_power_of_two (Suc 0) = Some 1"
  by (simp add: checked_next_power_of_two_def)

theorem buddy_allocate_correct_witness:
  "case buddy_allocate (arena4 [0, 0, 0xffff000000000000]) (\<lambda>_. 0) 1 of
     None \<Rightarrow> False
   | Some (Inl e, a', m') \<Rightarrow> False
   | Some (Inr p, a', m') \<Rightarrow> (\<exists>k b ls'. ptr_from_phys p = b \<and> (1 :: nat) \<le> 2 ^ k \<and> (2::nat) ^ k < 2 \<and> buddy_inv a' m' ls')"
  using buddy_allocate_correct [OF arena4_whole refl, of 1]
  by (fastforce split: option.splits sum.splits simp: less_Suc_eq)

theorem buddy_free_correct_witness:
  "\<exists>a' m' ls'. buddy_free (arena4 [0xffff000000001000, 0, 0]) (\<lambda>_. 0) (phys_from_ptr 0xffff000000000000) 1 =
     Some (Inr (), a', m') \<and> buddy_inv a' m' ls' \<and> (1, 0xffff000000000000) \<in> blocks ls'"
  using buddy_free_correct [OF arena4_page, of "0xffff000000001000" 0 "0xffff000000000000" FourKiB 1]
  by (simp add: arena4_eval next_power_1) blast

theorem buddy_free_lower_buddy_overlap_witness:
  "\<exists>a' m' a'' m''.
     buddy_free (arena4 [0xffff000000000000, 0, 0]) (\<lambda>_. 0) (phys_from_ptr 0xffff000000001000) 1 = Some (Inr (), a', m') \<and>
     buddy_allocate a' m' 2 = Some (Inr (phys_from_ptr 0xffff000000001000), a'', m'')"
  using buddy_free_lower_buddy_overlap [OF arena4_page, of "0xffff000000000000" 0 "0xffff000000001000" FourKiB 1
      "0xffff000000000000"]
  by (simp add: arena4_eval next_power_1) blast

lemma buddy_free_max_order_panics_example:
  "buddy_free (arena4 [0, 0, 0]) (\<lambda>_. 0) (phys_from_ptr 0xffff000000000000) 4 = None"
  using buddy_free_max_order_panics [OF arena4_empty, of 2 "0xffff000000000000" 4]
    checked_next_power_of_two_power [of 2]
  by (simp add: arena4_simps)

lemma add_memory_region_aligned_example:
  "\<exists>a' m' ls'. add_memory_region (arena4 [0, 0, 0]) (\<lambda>_. 0) 0xffff000000000000 0x3000 = Some (True, a', m') \<and>
     buddy_inv a' m' ls' \<and> free_bytes FourKiB ls' = {0xffff000000000000 ..< 0xffff000000003000}"
  using add_memory_region_aligned [OF arena4_empty, of FourKiB "0xffff000000000000" "0x3000"]
  by (simp add: arena4_def) blast


end
