(* ===== verification/Cpu.thy ===== *)
theory Cpu
  imports Virt_Tree Buddy
begin

text \<open>
  The cores of the machine: finding them in the device tree and starting them
  (\<^verbatim>\<open>kernel_core/src/platform/cpu.rs\<close>).  The power manager is any implementation of its
  interface, with its own state; the page allocator likewise.  Decoding of UTF-8 and the debug
  texts of values only pass through to the errors.
\<close>

section \<open>Model\<close>

datatype PowerManagerError = InvalidCoreId | InvalidAddress | AlreadyOn | Pending | Internal

record 'p PowerManager =
  start_core :: "nat \<Rightarrow> paddr \<Rightarrow> usize \<Rightarrow> 'p \<Rightarrow> ((PowerManagerError + unit) \<times> 'p) panics"
  enable_method_name :: bytes

datatype BootAllCoresError = UnsupportedEnableMethod string | Power PowerManagerError | Memory MemoryError

record CoreInfo =
  core_id :: nat
  enable_method :: bytes

text \<open>The loop over the properties of a core; the state is \<^verbatim>\<open>cpu_id\<close> and \<^verbatim>\<open>enable_method\<close>.\<close>

definition core_property :: "(bytes \<Rightarrow> string) \<Rightarrow> (Value \<Rightarrow> string) \<Rightarrow> ByteOrder \<Rightarrow> bytes \<Rightarrow> Value \<Rightarrow>
    nat option \<times> bytes option \<Rightarrow> (OwnedParseError + nat option \<times> bytes option) panics" where
  "core_property lossy debug bo name v st = (case st of (cpu_id, method) \<Rightarrow>
     if name = ''enable-method'' then
       (case as_bytes v name of
          Inl e \<Rightarrow> Some (Inl (to_owned lossy debug e))
        | Inr b \<Rightarrow> Some (Inr (cpu_id, Some b)))
     else if name = ''reg'' then
       (case as_reg v name of
          Inl e \<Rightarrow> Some (Inl (to_owned lossy debug e))
        | Inr ids \<Rightarrow> do {
            (item, _) \<leftarrow> registers_next bo ids 0;
            case item of
              None \<Rightarrow> Some (Inl (OwnedPropertyNotFound ''reg''))
            | Some (a, _) \<Rightarrow> Some (Inr (Some a, method))
          })
     else Some (Inr st))"

definition core_node :: "(bytes \<Rightarrow> string) \<Rightarrow> (Value \<Rightarrow> string) \<Rightarrow> ByteOrder \<Rightarrow> DeviceTree \<Rightarrow> NodeItem \<Rightarrow>
    CoreInfo list \<Rightarrow> (OwnedParseError + CoreInfo list) panics" where
  "core_node lossy debug bo dt cpu_node cpus = do {
     r \<leftarrow> for_each_property bo dt (properties cpu_node) (core_property lossy debug bo) (None, None);
     case r of
       Inl e \<Rightarrow> Some (Inl e)
     | Inr (cpu_id, method) \<Rightarrow>
         (case cpu_id of
            None \<Rightarrow> Some (Inl (OwnedPropertyNotFound ''reg''))
          | Some i \<Rightarrow>
              (case method of
                 None \<Rightarrow> Some (Inl (OwnedPropertyNotFound ''enable-method''))
               | Some b \<Rightarrow> Some (Inr (cpus @ [\<lparr> core_id = i, enable_method = b \<rparr>]))))
   }"

definition list_cores :: "(bytes \<Rightarrow> string) \<Rightarrow> (Value \<Rightarrow> string) \<Rightarrow> ByteOrder \<Rightarrow> DeviceTree \<Rightarrow>
    (OwnedParseError + CoreInfo list) panics" where
  "list_cores lossy debug bo dt = do {
     cpu_nodes \<leftarrow> iter_nodes_named bo dt ''/cpus'' ''cpu'';
     case cpu_nodes of
       None \<Rightarrow> Some (Inl (to_owned lossy debug (NodeNotFound ''/cpus/cpu*'')))
     | Some it \<Rightarrow> for_each_node bo dt it (core_node lossy debug bo dt) []
   }"

definition STACK_SIZE :: usize where
  "STACK_SIZE = 4 * 1024 * 1024"

text \<open>The loop of \<^verbatim>\<open>boot_all_cores\<close>.\<close>

fun boot_cores :: "(bytes \<Rightarrow> string option) \<Rightarrow> 'p PowerManager \<Rightarrow> ('s \<Rightarrow> mem \<Rightarrow> usize \<Rightarrow> ('s, paddr) alloc_result) \<Rightarrow>
    ('s \<Rightarrow> PageSize) \<Rightarrow> paddr \<Rightarrow> CoreInfo list \<Rightarrow> nat \<Rightarrow> 's \<Rightarrow> mem \<Rightarrow> 'p \<Rightarrow>
    ((BootAllCoresError + nat) \<times> 's \<times> mem \<times> 'p) panics" where
  "boot_cores from_utf8 pm alloc psize entry [] successful s m p = Some (Inr successful, s, m, p)"
| "boot_cores from_utf8 pm alloc psize entry (core # cores) successful s m p =
     (if enable_method core \<noteq> enable_method_name pm then
        Some (Inl (UnsupportedEnableMethod (unwrap_or (from_utf8 (enable_method core)) ''unknown'')), s, m, p)
      else if core_id core = 0 then boot_cores from_utf8 pm alloc psize entry cores successful s m p
      else do {
        (r, s, m) \<leftarrow> alloc s m (page_size_div STACK_SIZE (psize s));
        case r of
          Inl e \<Rightarrow> Some (Inl (Memory e), s, m, p)
        | Inr pages \<Rightarrow> do {
            top \<leftarrow> phys_byte_add pages STACK_SIZE;
            let stack = virt_from_phys top;
            (r, p) \<leftarrow> start_core pm (core_id core) entry stack p;
            case r of
              Inl e \<Rightarrow> Some (Inl (Power e), s, m, p)
            | Inr _ \<Rightarrow> boot_cores from_utf8 pm alloc psize entry cores (successful + 1) s m p
          }
      })"

text \<open>The message at the end evaluates \<^verbatim>\<open>cores.len() - 1\<close>.\<close>

definition boot_all_cores :: "(bytes \<Rightarrow> string option) \<Rightarrow> 'p PowerManager \<Rightarrow> ('s \<Rightarrow> mem \<Rightarrow> usize \<Rightarrow> ('s, paddr) alloc_result) \<Rightarrow>
    ('s \<Rightarrow> PageSize) \<Rightarrow> CoreInfo list \<Rightarrow> paddr \<Rightarrow> 's \<Rightarrow> mem \<Rightarrow> 'p \<Rightarrow>
    ((BootAllCoresError + unit) \<times> 's \<times> mem \<times> 'p) panics" where
  "boot_all_cores from_utf8 pm alloc psize cores entry s m p = do {
     (r, s, m, p) \<leftarrow> boot_cores from_utf8 pm alloc psize entry cores 0 s m p;
     case r of
       Inl e \<Rightarrow> Some (Inl e, s, m, p)
     | Inr successful \<Rightarrow> do {
         others \<leftarrow> sub_p (length cores) 1;
         Some (Inr (), s, m, p)
       }
   }"

section \<open>Stacks\<close>

type_synonym start_call = "nat \<times> paddr \<times> usize"

text \<open>A power manager whose state is the history of the calls, and whose answer may depend on it.\<close>

definition history_pm :: "bytes \<Rightarrow> (start_call list \<Rightarrow> start_call \<Rightarrow> PowerManagerError + unit) \<Rightarrow> start_call list PowerManager" where
  "history_pm name answer = \<lparr> start_core = (\<lambda>i e a h. Some (answer h (i, e, a), h @ [(i, e, a)])), enable_method_name = name \<rparr>"

definition stack_of :: "start_call \<Rightarrow> usize set" where
  "stack_of c = {snd (snd c) - STACK_SIZE ..< snd (snd c)}"

definition stacks_in :: "paddr \<Rightarrow> usize set \<Rightarrow> start_call list \<Rightarrow> bool" where
  "stacks_in entry Q calls \<longleftrightarrow>
     (\<forall>c \<in> set calls. fst c \<noteq> 0 \<and> fst (snd c) = entry \<and> STACK_SIZE \<le> snd (snd c) \<and> stack_of c \<subseteq> Q) \<and>
     sorted_wrt (\<lambda>c d. stack_of c \<inter> stack_of d = {}) calls"

lemma stack_pages: "page_size_div STACK_SIZE ps * page_bytes ps = STACK_SIZE"
  by (cases ps) (simp_all add: page_size_div_def STACK_SIZE_def)

lemma stack_top:
  assumes "p + STACK_SIZE \<le> 2 ^ 48" and "page_span ps p (page_size_div STACK_SIZE ps) \<subseteq> P" and "2 ^ 64 - 1 \<notin> P"
  shows "virt_from_phys (p + STACK_SIZE) = ptr_from_phys p + STACK_SIZE"
    and "stack_of (i, e, virt_from_phys (p + STACK_SIZE)) = page_span ps p (page_size_div STACK_SIZE ps)"
proof -
  have pos: "0 < STACK_SIZE" by (simp add: STACK_SIZE_def)
  then have p: "p < 2 ^ 48" using assms(1) by linarith
  have sp: "page_span ps p (page_size_div STACK_SIZE ps) = {p + 0xffff000000000000 ..< p + 0xffff000000000000 + STACK_SIZE}"
    using p by (simp add: page_span_def stack_pages ptr_from_phys_add)
  have "p + STACK_SIZE \<noteq> 2 ^ 48"
  proof
    assume e: "p + STACK_SIZE = 2 ^ 48"
    have "2 ^ 64 - 1 \<in> {p + 0xffff000000000000 ..< p + 0xffff000000000000 + STACK_SIZE}" using e pos by simp
    then show False using assms(2,3) sp by blast
  qed
  then have "p + STACK_SIZE < 2 ^ 48" using assms(1) by simp
  then show v: "virt_from_phys (p + STACK_SIZE) = ptr_from_phys p + STACK_SIZE"
    using p by (simp add: virt_from_phys_ptr ptr_from_phys_add)
  show "stack_of (i, e, virt_from_phys (p + STACK_SIZE)) = page_span ps p (page_size_div STACK_SIZE ps)"
    using p by (simp add: v stack_of_def sp ptr_from_phys_add)
qed

context page_source
begin

lemma boot_cores_stacks:
  assumes "pool s m P" and "2 ^ 64 - 1 \<notin> P"
  shows "\<exists>r s' m' calls Q. boot_cores decode (history_pm name answer) alloc psize entry cores n s m h = Some (r, s', m', h @ calls) \<and>
    Q \<subseteq> P \<and> pool s' m' (P - Q) \<and> stacks_in entry Q calls \<and> (\<forall>x. x \<notin> P \<longrightarrow> m' x = m x) \<and>
    (\<forall>k. r = Inr k \<longrightarrow> k = n + length calls \<and> map fst calls = map core_id (filter (\<lambda>c. core_id c \<noteq> 0) cores))"
  using assms
proof (induction cores arbitrary: n s m P h)
  case Nil
  then show ?case by (intro exI [of _ "Inr n"] exI [of _ s] exI [of _ m] exI [of _ "[]"] exI [of _ "{}"]) (simp add: stacks_in_def)
next
  case (Cons core cores)
  let ?pm = "history_pm name answer"
  consider (unsupported) "enable_method core \<noteq> name" | (boot) "enable_method core = name" "core_id core = 0"
    | (start) "enable_method core = name" "core_id core \<noteq> 0" by blast
  then show ?case
  proof cases
    case unsupported
    then show ?thesis using Cons.prems
      by (intro exI [of _ "Inl (UnsupportedEnableMethod (unwrap_or (decode (enable_method core)) ''unknown''))"]
          exI [of _ s] exI [of _ m] exI [of _ "[]"] exI [of _ "{}"]) (simp add: stacks_in_def history_pm_def)
  next
    case boot
    then show ?thesis using Cons.IH [OF Cons.prems, of n h] by (simp add: history_pm_def)
  next
    case start
    let ?np = "page_size_div STACK_SIZE (psize s)"
    obtain r s1 m1 where a: "alloc s m ?np = Some (r, s1, m1)" using alloc_returns [OF Cons.prems(1)] by blast
    show ?thesis
    proof (cases r)
      case (Inl e)
      then show ?thesis using a start alloc_fails [OF Cons.prems(1) a [unfolded Inl]] Cons.prems
        by (intro exI [of _ "Inl (Memory e)"] exI [of _ s] exI [of _ m] exI [of _ "[]"] exI [of _ "{}"])
          (simp add: stacks_in_def history_pm_def)
    next
      case (Inr p)
      note a = a [unfolded Inr]
      have b: "p + STACK_SIZE \<le> 2 ^ 48" using alloc_page [OF Cons.prems(1) a] by (simp add: stack_pages)
      obtain Q where Q: "Q \<subseteq> P" "page_span (psize s) p ?np \<subseteq> Q" "pool s1 m1 (P - Q)"
        using alloc_takes [OF Cons.prems(1) a] by blast
      let ?sp = "virt_from_phys (p + STACK_SIZE)" and ?c = "(core_id core, entry, virt_from_phys (p + STACK_SIZE))"
      have "page_span (psize s) p ?np \<subseteq> P" using Q(1,2) by (rule subset_trans [rotated])
      note tops = stack_top [OF b this Cons.prems(2)]
      have st: "stack_of ?c = page_span (psize s) p ?np" by (rule tops(2))
      have "STACK_SIZE \<le> ?sp" unfolding tops(1) by simp
      note st = st this
      have top: "phys_byte_add p STACK_SIZE = Some (p + STACK_SIZE)" using b by (simp add: phys_byte_add_def add_p_def usize_max_def)
      have one: "stacks_in entry Q [?c]" using st Q(2) start(2) by (simp add: stacks_in_def)
      have fr: "\<forall>x. x \<notin> P \<longrightarrow> m1 x = m x" using alloc_frame [OF Cons.prems(1) a] by blast
      show ?thesis
      proof (cases "answer h ?c")
        case (Inl e)
        have "boot_cores decode ?pm alloc psize entry (core # cores) n s m h = Some (Inl (Power e), s1, m1, h @ [?c])"
          using a start top Inl by (simp add: history_pm_def Let_def)
        then show ?thesis using Q one fr by blast
      next
        case (Inr u)
        have step: "boot_cores decode ?pm alloc psize entry (core # cores) n s m h =
            boot_cores decode ?pm alloc psize entry cores (n + 1) s1 m1 (h @ [?c])"
          using a start top Inr by (simp add: history_pm_def Let_def)
        have "2 ^ 64 - 1 \<notin> P - Q" using Cons.prems(2) by simp
        from Cons.IH [OF Q(3) this, of "n + 1" "h @ [?c]"] obtain r s' m' calls R where
          R: "boot_cores decode ?pm alloc psize entry cores (n + 1) s1 m1 (h @ [?c]) = Some (r, s', m', (h @ [?c]) @ calls)"
          "R \<subseteq> P - Q" "pool s' m' (P - Q - R)" "stacks_in entry R calls" "\<forall>x. x \<notin> P - Q \<longrightarrow> m' x = m1 x"
          "\<forall>k. r = Inr k \<longrightarrow> k = n + 1 + length calls \<and> map fst calls = map core_id (filter (\<lambda>c. core_id c \<noteq> 0) cores)"
          by blast
        have "P - Q - R = P - (Q \<union> R)" by blast
        moreover have "stacks_in entry (Q \<union> R) (?c # calls)"
          using one R(2,4) unfolding stacks_in_def by (auto; blast)
        moreover have "\<forall>x. x \<notin> P \<longrightarrow> m' x = m x" using R(5) fr by simp
        moreover have "Q \<union> R \<subseteq> P" using Q(1) R(2) by blast
        ultimately show ?thesis using step R(1,3,6) start(2)
          by (intro exI [of _ r] exI [of _ s'] exI [of _ m'] exI [of _ "?c # calls"] exI [of _ "Q \<union> R"]) auto
      qed
    qed
  qed
qed

end

text \<open>With the buddy allocator, starting the cores never panics for a machine with at least one
  core.  Every core that the firmware is asked to start gets the entry point and a stack of its own: the
  stacks lie in memory that was free, they do not overlap each other or what is still free
  afterwards, and no other memory changes.  On success exactly the cores other than core 0 were
  started, in order.\<close>

lemma boot_all_cores_spec:
  assumes "buddy_pool a m P" and "2 ^ 64 - 1 \<notin> P" and "cores \<noteq> []"
  shows "\<exists>r a' m' calls Q. boot_all_cores decode (history_pm name answer) buddy_allocate page_size cores entry a m [] = Some (r, a', m', calls) \<and>
    Q \<subseteq> P \<and> buddy_pool a' m' (P - Q) \<and> stacks_in entry Q calls \<and> (\<forall>x. x \<notin> P \<longrightarrow> m' x = m x) \<and>
    (r = Inr () \<longrightarrow> map fst calls = map core_id (filter (\<lambda>c. core_id c \<noteq> 0) cores))"
proof -
  obtain r a' m' calls Q where b: "boot_cores decode (history_pm name answer) buddy_allocate page_size entry cores 0 a m [] = Some (r, a', m', [] @ calls)"
    "Q \<subseteq> P" "buddy_pool a' m' (P - Q)" "stacks_in entry Q calls" "\<forall>x. x \<notin> P \<longrightarrow> m' x = m x"
    "\<forall>k. r = Inr k \<longrightarrow> k = 0 + length calls \<and> map fst calls = map core_id (filter (\<lambda>c. core_id c \<noteq> 0) cores)"
    using buddy.boot_cores_stacks [OF assms(1,2)] by blast
  have "boot_all_cores decode (history_pm name answer) buddy_allocate page_size cores entry a m [] =
      Some (map_sum id (\<lambda>_. ()) r, a', m', calls)"
    using b(1) assms(3) by (cases r) (simp_all add: boot_all_cores_def sub_p_def Suc_le_eq)
  moreover have "map_sum id (\<lambda>_. ()) r = Inr () \<Longrightarrow> map fst calls = map core_id (filter (\<lambda>c. core_id c \<noteq> 0) cores)"
    using b(6) by (cases r) simp_all
  ultimately show ?thesis using b(2-5) by blast
qed

text \<open>A firmware that starts every core, and one free block of 4 MiB for each core to start: then every
  core is started.\<close>

lemma boot_cores_succeed:
  assumes "buddy_stock 10 u a m P" and "page_size a = FourKiB" and "\<forall>c \<in> set cores. enable_method c = name"
    and "length (filter (\<lambda>c. core_id c \<noteq> 0) cores) \<le> u" and "\<forall>h c. answer h c = Inr ()"
  shows "\<exists>n' a' m' h'. boot_cores decode (history_pm name answer) buddy_allocate page_size entry cores n a m h = Some (Inr n', a', m', h')"
  using assms(1-4)
proof (induction cores arbitrary: n u a m P h)
  case (Cons core cores)
  show ?case
  proof (cases "core_id core = 0")
    case True
    then show ?thesis using Cons.IH [OF Cons.prems(1,2)] Cons.prems(3,4) by (simp add: history_pm_def)
  next
    case False
    then obtain v where v: "u = Suc v" "length (filter (\<lambda>c. core_id c \<noteq> 0) cores) \<le> v"
      using Cons.prems(4) by (cases u) simp_all
    obtain p a' m' Q where r: "buddy_allocate a m (2 ^ 10) = Some (Inr p, a', m')" "buddy_stock 10 v a' m' (P - Q)" "same_arena a a'"
      by (rule buddy_stock_allocate [OF Cons.prems(1) [unfolded v(1)]]) simp_all
    have np: "page_size_div STACK_SIZE (page_size a) = 2 ^ 10" using Cons.prems(2) by (simp add: page_size_div_def STACK_SIZE_def)
    have "p + 2 ^ 10 * page_bytes (page_size a) \<le> 2 ^ 48" using buddy.alloc_page [OF buddy_stock_pool [OF Cons.prems(1)] r(1)] by simp
    then have top: "phys_byte_add p STACK_SIZE = Some (p + STACK_SIZE)"
      using Cons.prems(2) by (simp add: phys_byte_add_def add_p_def usize_max_def STACK_SIZE_def)
    have "page_size a' = FourKiB" using r(3) Cons.prems(2) by (simp add: same_arena_def)
    from Cons.IH [OF r(2) this _ v(2)] Cons.prems(3) show ?thesis
      using r(1) False top assms(5) np by (simp add: history_pm_def Let_def)
  qed
qed simp

lemma boot_all_cores_started:
  assumes "buddy_stock 10 u a m P" and "page_size a = FourKiB" and "2 ^ 64 - 1 \<notin> P" and "cores \<noteq> []"
    and "\<forall>c \<in> set cores. enable_method c = name" and "length (filter (\<lambda>c. core_id c \<noteq> 0) cores) \<le> u"
    and "\<forall>h c. answer h c = Inr ()"
  shows "\<exists>a' m' calls Q. boot_all_cores decode (history_pm name answer) buddy_allocate page_size cores entry a m [] = Some (Inr (), a', m', calls) \<and>
    Q \<subseteq> P \<and> buddy_pool a' m' (P - Q) \<and> stacks_in entry Q calls \<and> (\<forall>x. x \<notin> P \<longrightarrow> m' x = m x) \<and>
    map fst calls = map core_id (filter (\<lambda>c. core_id c \<noteq> 0) cores)"
proof -
  obtain r a' m' calls Q where b: "boot_all_cores decode (history_pm name answer) buddy_allocate page_size cores entry a m [] = Some (r, a', m', calls)"
    "Q \<subseteq> P" "buddy_pool a' m' (P - Q)" "stacks_in entry Q calls" "\<forall>x. x \<notin> P \<longrightarrow> m' x = m x"
    "r = Inr () \<longrightarrow> map fst calls = map core_id (filter (\<lambda>c. core_id c \<noteq> 0) cores)"
    using boot_all_cores_spec [OF buddy_stock_pool [OF assms(1)] assms(3,4)] by blast
  have "r = Inr ()"
    using boot_cores_succeed [OF assms(1,2,5,6,7), of decode entry 0 "[]"] b(1) by (auto simp: boot_all_cores_def split: bind_splits)
  then show ?thesis using b by blast
qed

text \<open>A machine without cores: the message underflows.\<close>

lemma boot_all_cores_empty: "boot_all_cores decode pm alloc psize [] entry s m p = None"
  by (simp add: boot_all_cores_def sub_p_def)

text \<open>An arena with one block of 4 MiB.\<close>

definition arena_4m :: BuddyPageAllocator where
  "arena_4m = \<lparr> base_addr = 0xffff000040000000, end_addr = 0xffff000040400000, page_size = SixteenKiB,
     free_blocks = replicate 8 0 @ [0xffff000040000000] \<rparr>"

lemma arena_4m_pool: "buddy_pool arena_4m (\<lambda>_. 0) {0xffff000040000000 ..< 0xffff000040400000}"
proof -
  let ?ls = "replicate 8 [] @ [[0xffff000040000000 :: ptr]]"
  have n: "?ls ! k = (if k < 8 then [] else [0xffff000040000000])" if "k < 9" for k
    using that by (auto simp: nth_append)
  have b: "blocks ?ls = {(8, 0xffff000040000000)}"
  proof -
    have "(k, p) \<in> blocks ?ls \<longleftrightarrow> k = 8 \<and> p = 0xffff000040000000" for k p
      unfolding blocks_def using n [of k] by (auto split: if_splits)
    then show ?thesis by (simp add: set_eq_iff)
  qed
  have h: "(replicate 8 0 @ [0xffff000040000000]) ! k = (if k < 8 then 0 else 0xffff000040000000 :: nat)" if "k < 9" for k
    using that by (auto simp: nth_append)
  have "lists_ok arena_4m (\<lambda>_. 0) ?ls"
    unfolding lists_ok_def using n h by (simp add: arena_4m_def next_block_def)
  then have "buddy_inv arena_4m (\<lambda>_. 0) ?ls"
    by (simp add: buddy_inv_def b blocks_ok_def) (simp add: arena_4m_def arena_ok_def block_ok_def usize_max_def)
  moreover have "free_bytes (page_size arena_4m) ?ls = {0xffff000040000000 ..< 0xffff000040400000}"
    by (simp add: free_bytes_def b span_def arena_4m_def)
  ultimately show ?thesis unfolding buddy_pool_def by blast
qed

lemma boot_all_cores_spec_example:
  "\<exists>r a' m' calls Q. boot_all_cores (\<lambda>_. None) (history_pm ''psci'' (\<lambda>_ _. Inr ())) buddy_allocate page_size
       [\<lparr> core_id = 0, enable_method = ''psci'' \<rparr>, \<lparr> core_id = 1, enable_method = ''psci'' \<rparr>] 0x40080000 arena_4m (\<lambda>_. 0) [] =
       Some (r, a', m', calls) \<and> Q \<subseteq> {0xffff000040000000 ..< 0xffff000040400000} \<and> stacks_in 0x40080000 Q calls"
proof -
  have h: "2 ^ 64 - 1 \<notin> {0xffff000040000000 ..< 0xffff000040400000 :: nat}"
    "[\<lparr> core_id = 0, enable_method = ''psci'' \<rparr>, \<lparr> core_id = 1, enable_method = ''psci'' \<rparr>] \<noteq> []" by simp_all
  show ?thesis using boot_all_cores_spec [OF arena_4m_pool h, where decode = "\<lambda>_. None" and name = "''psci''"
      and answer = "\<lambda>_ _. Inr ()" and entry = "0x40080000"] by blast
qed

section \<open>Finding the cores\<close>

text \<open>What the properties of a node say of the core.\<close>

definition core_reg :: "ByteOrder \<Rightarrow> Value \<Rightarrow> nat option" where
  "core_reg bo v = (case v of
     Reg r \<Rightarrow> (case registers_next bo r 0 of Some (Some (a, _), _) \<Rightarrow> Some a | _ \<Rightarrow> None)
   | _ \<Rightarrow> None)"

definition core_described :: "ByteOrder \<Rightarrow> (bytes \<times> Value) list \<Rightarrow> CoreInfo \<Rightarrow> bool" where
  "core_described bo ps core \<longleftrightarrow>
     (\<forall>(name, v) \<in> set ps. (name = ''enable-method'' \<longrightarrow> (\<exists>b. v = Bytes b)) \<and> (name = ''reg'' \<longrightarrow> core_reg bo v \<noteq> None)) \<and>
     map_of (rev ps) ''enable-method'' = Some (Bytes (enable_method core)) \<and>
     (\<exists>v. map_of (rev ps) ''reg'' = Some v \<and> core_reg bo v = Some (core_id core))"

lemma core_property_Inr:
  "core_property lossy debug bo name v (i, b) = Some (Inr st') \<longleftrightarrow>
     ((name = ''enable-method'' \<longrightarrow> (\<exists>b. v = Bytes b)) \<and> (name = ''reg'' \<longrightarrow> core_reg bo v \<noteq> None)) \<and>
     st' = (if name = ''reg'' then core_reg bo v else i, if name = ''enable-method'' then into_bytes v else b)"
proof -
  consider "name = ''enable-method''" | "name = ''reg''" | "name \<noteq> ''enable-method''" "name \<noteq> ''reg''" by blast
  then show ?thesis
  proof cases
    case 1
    then show ?thesis by (cases v) (auto simp: core_property_def as_bytes_def into_bytes_def)
  next
    case 2
    then show ?thesis
      by (cases v) (auto simp: core_property_def as_reg_def core_reg_def split: bind_splits option.splits)
  qed (auto simp: core_property_def)
qed

lemma for_each_core:
  "for_each (core_property lossy debug bo) ps (None, None) = Some (Inr (Some i, Some b)) \<longleftrightarrow>
   core_described bo ps \<lparr> core_id = i, enable_method = b \<rparr>"
proof -
  let ?A = "\<lambda>(name, v). (name = ''enable-method'' \<longrightarrow> (\<exists>b. v = Bytes b)) \<and> (name = ''reg'' \<longrightarrow> core_reg bo v \<noteq> None)"
  let ?u = "\<lambda>p (i, b). ((\<lambda>(name, v) x. if name = ''reg'' then core_reg bo v else x) p i,
    (\<lambda>(name, v) x. if name = ''enable-method'' then into_bytes v else x) p b)"
  have "for_each (core_property lossy debug bo) ps s = Some (Inr s') \<longleftrightarrow> (\<forall>p \<in> set ps. ?A p) \<and> s' = fold ?u ps s" for s s'
    by (rule for_each_exact) (use core_property_Inr in \<open>auto split: prod.splits\<close>)
  then have "for_each (core_property lossy debug bo) ps (None, None) = Some (Inr (Some i, Some b)) \<longleftrightarrow>
      (\<forall>p \<in> set ps. ?A p) \<and> (\<exists>v. map_of (rev ps) ''reg'' = Some v \<and> core_reg bo v = Some i) \<and>
      (\<exists>v. map_of (rev ps) ''enable-method'' = Some v \<and> into_bytes v = Some b)"
    by (auto simp: fold_pair fold_last split: option.splits)
  moreover have "into_bytes v = Some b \<longleftrightarrow> v = Bytes b" for v by (cases v) (simp_all add: into_bytes_def)
  ultimately show ?thesis by (auto simp: core_described_def)
qed

lemma core_node_Inr:
  assumes "properties_from bo dt (properties n) = Some ps"
  shows "core_node lossy debug bo dt n cpus = Some (Inr cpus') \<longleftrightarrow> (\<exists>core. core_described bo ps core \<and> cpus' = cpus @ [core])"
proof -
  have "core_node lossy debug bo dt n cpus = Some (Inr cpus') \<longleftrightarrow>
      (\<exists>i b. for_each (core_property lossy debug bo) ps (None, None) = Some (Inr (Some i, Some b)) \<and>
         cpus' = cpus @ [\<lparr> core_id = i, enable_method = b \<rparr>])"
    unfolding core_node_def for_each_property_list [OF assms] by (auto split: bind_splits sum.splits option.splits prod.splits)
  then show ?thesis unfolding for_each_core by (metis CoreInfo.surjective old.unit.exhaust)
qed

lemma for_nodes_cores:
  assumes "\<forall>n \<in> set items. properties_from bo dt (properties n) = Some (ps n)"
  shows "for_nodes (core_node lossy debug bo dt) items cpus = Some (Inr cpus') \<longleftrightarrow>
    (\<exists>cores. cpus' = cpus @ cores \<and> list_all2 (\<lambda>n core. core_described bo (ps n) core) items cores)"
  using assms
proof (induction items arbitrary: cpus)
  case (Cons n items)
  have p: "properties_from bo dt (properties n) = Some (ps n)" and IH: "for_nodes (core_node lossy debug bo dt) items cpus = Some (Inr cpus') \<longleftrightarrow>
    (\<exists>cores. cpus' = cpus @ cores \<and> list_all2 (\<lambda>n core. core_described bo (ps n) core) items cores)" for cpus
    using Cons by simp_all
  have "for_nodes (core_node lossy debug bo dt) (n # items) cpus = Some (Inr cpus') \<longleftrightarrow>
      (\<exists>c1. core_node lossy debug bo dt n cpus = Some (Inr c1) \<and> for_nodes (core_node lossy debug bo dt) items c1 = Some (Inr cpus'))"
    by (auto split: bind_splits sum.splits)
  then show ?case unfolding core_node_Inr [OF p] IH by (auto simp: list_all2_Cons1)
qed auto

text \<open>\<^verbatim>\<open>list_cores\<close> returns one core for each node \<^verbatim>\<open>/cpus/cpu@..\<close>, in the order of the device tree,
  with the first address of its \<^verbatim>\<open>reg\<close> property as id and its enable method; it succeeds exactly when
  every such node has both properties in the right form.\<close>

lemma list_cores_exact:
  assumes "iter_nodes_named bo dt ''/cpus'' ''cpu'' = Some (Some it)" and "nodes_from bo dt it = Some items"
    and "\<forall>n \<in> set items. properties_from bo dt (properties n) = Some (ps n)"
  shows "list_cores lossy debug bo dt = Some (Inr cores) \<longleftrightarrow> list_all2 (\<lambda>n core. core_described bo (ps n) core) items cores"
  unfolding list_cores_def using assms(1) for_nodes_cores [OF assms(3), of lossy debug "[]" cores]
  by (simp add: for_each_node_list [OF assms(2)])

lemma virt_cpu_described:
  assumes "n < 2 ^ 32"
  shows "core_described BigEndian (values_of (virt_cpu name n, Some 1, Some 0)) \<lparr> core_id = n, enable_method = ''psci'' @ [nul] \<rparr>"
proof -
  have "registers_next BigEndian \<lparr> reg_data = be32 n, address_cells = 1, size_cells = 0 \<rparr> 0 = Some (Some (n, 0), 0 + 4 * 1 + 4 * 0)"
    by (rule registers_next_enc(1) [where r = "[]"]) (use assms in simp_all)
  then show ?thesis by (simp add: core_described_def core_reg_def virt_cpu_def value_defs)
qed

lemma list_cores_exact_example:
  "\<forall>lossy debug. list_cores lossy debug BigEndian virt_blob =
     Some (Inr [\<lparr> core_id = 0, enable_method = ''psci'' @ [nul] \<rparr>, \<lparr> core_id = 1, enable_method = ''psci'' @ [nul] \<rparr>])"
proof (intro allI)
  fix lossy debug
  have v: "[virt_cpu ''cpu@0'' 0, virt_cpu ''cpu@1'' 1] = filter (named ''cpu'') (children virt_cpus)"
    by (simp add: virt_cpus_def named_def virt_cpu_def split_node_name_def)
  have "fold set_cells (props virt_cpus) (Some 2, Some 2) = (Some 1, Some 0)"
    by (simp add: virt_cpus_def set_cells_def)
  then obtain it items where it: "iter_nodes_named BigEndian virt_blob ''/cpus'' ''cpu'' = Some (Some it)"
    "nodes_from BigEndian virt_blob it = Some items"
    "map (item_view BigEndian virt_blob) items = map (child_view 1 0) [virt_cpu ''cpu@0'' 0, virt_cpu ''cpu@1'' 1]"
    using iter_nodes_named_tree [OF virt_blob_tree, of "''/cpus''" "''cpu''"] unfolding v virt_node_at(4)
    by (auto simp: unwrap_or_def)
  then obtain n0 n1 where n: "items = [n0, n1]"
    "properties_from BigEndian virt_blob (properties n0) = Some (values_of (virt_cpu ''cpu@0'' 0, Some 1, Some 0))"
    "properties_from BigEndian virt_blob (properties n1) = Some (values_of (virt_cpu ''cpu@1'' 1, Some 1, Some 0))"
    by (auto simp: item_view_def child_view_def)
  have "\<forall>n \<in> set items. properties_from BigEndian virt_blob (properties n) =
      Some (the (properties_from BigEndian virt_blob (properties n)))" using n by simp
  from list_cores_exact [OF it(1,2) this] show "list_cores lossy debug BigEndian virt_blob =
     Some (Inr [\<lparr> core_id = 0, enable_method = ''psci'' @ [nul] \<rparr>, \<lparr> core_id = 1, enable_method = ''psci'' @ [nul] \<rparr>])"
    using n virt_cpu_described by simp
qed

end
