(* ===== verification/Psci.thy ===== *)
theory Psci
  imports Cpu
begin

text \<open>
  The client of the Power State Coordination Interface (\<^verbatim>\<open>kernel/src/psci.rs\<close>), the power manager of
  the kernel.  The firmware is a parameter: given the instruction used, the four argument
  registers and its own state it leaves a 32-bit signed result.
\<close>

section \<open>Model\<close>

definition psci_error_code_to_result :: "int \<Rightarrow> PowerManagerError + unit" where
  "psci_error_code_to_result r =
     (if r = 0 then Inr ()
      else if r = -2 then Inl InvalidCoreId
      else if r = -4 then Inl AlreadyOn
      else if r = -5 then Inl Pending
      else if r = -9 then Inl InvalidAddress
      else Inl Internal)"

datatype CallingMethod = Smc | Hvc

definition FUNC_ID_CPU_ON :: nat where
  "FUNC_ID_CPU_ON = 0xC4000003"

record Psci =
  calling_method :: CallingMethod
  func_id_cpu_on :: nat

text \<open>The body of the loop; the state is \<^verbatim>\<open>calling_method\<close> and \<^verbatim>\<open>func_id_cpu_on\<close>.\<close>

definition psci_property :: "ByteOrder \<Rightarrow> bytes \<Rightarrow> Value \<Rightarrow> CallingMethod option \<times> nat option \<Rightarrow>
    (ParseError + CallingMethod option \<times> nat option) panics" where
  "psci_property bo name v st = (case st of (method, func) \<Rightarrow>
     if name = ''method'' then
       (case as_bytes v name of
          Inl e \<Rightarrow> Some (Inl e)
        | Inr b \<Rightarrow> Some (Inr (if b = ''smc'' @ [nul] then Some Smc else if b = ''hvc'' @ [nul] then Some Hvc else None, func)))
     else if name = ''cpu_on'' then
       (case as_bytes v name of
          Inl e \<Rightarrow> Some (Inl e)
        | Inr b \<Rightarrow> do { f \<leftarrow> be_u32 bo b; Some (Inr (method, Some f)) })
     else Some (Inr st))"

definition psci_in_device_tree :: "ByteOrder \<Rightarrow> DeviceTree \<Rightarrow> (ParseError + Psci) panics" where
  "psci_in_device_tree bo dt = do {
     node \<leftarrow> iter_node_properties bo dt ''/psci'';
     case node of
       None \<Rightarrow> Some (Inl (NodeNotFound ''/psci''))
     | Some it \<Rightarrow> do {
         r \<leftarrow> for_each_property bo dt it (psci_property bo) (None, None);
         case r of
           Inl e \<Rightarrow> Some (Inl e)
         | Inr (None, func) \<Rightarrow> Some (Inl (PropertyNotFound ''method''))
         | Inr (Some method, func) \<Rightarrow> Some (Inr \<lparr> calling_method = method, func_id_cpu_on = unwrap_or func FUNC_ID_CPU_ON \<rparr>)
       }
   }"

type_synonym 'f firmware = "CallingMethod \<Rightarrow> nat \<Rightarrow> usize \<Rightarrow> usize \<Rightarrow> usize \<Rightarrow> 'f \<Rightarrow> int \<times> 'f"

definition psci_start_core :: "'f firmware \<Rightarrow> Psci \<Rightarrow> nat \<Rightarrow> paddr \<Rightarrow> usize \<Rightarrow> 'f \<Rightarrow> ((PowerManagerError + unit) \<times> 'f) panics" where
  "psci_start_core fw psci target_cpu entry_point_address arg f =
     (let (result, f) = fw (calling_method psci) (func_id_cpu_on psci) target_cpu entry_point_address arg f
      in Some (psci_error_code_to_result result, f))"

definition psci_power_manager :: "'f firmware \<Rightarrow> Psci \<Rightarrow> 'f PowerManager" where
  "psci_power_manager fw psci = \<lparr> start_core = psci_start_core fw psci, enable_method_name = ''psci'' @ [nul] \<rparr>"

section \<open>Properties\<close>

text \<open>A core is reported as started exactly when the firmware says so.\<close>

lemma psci_started: "psci_error_code_to_result r = Inr () \<longleftrightarrow> r = 0"
  by (simp add: psci_error_code_to_result_def)

definition psci_method :: "Value \<Rightarrow> CallingMethod option" where
  "psci_method v = (if v = Bytes (''smc'' @ [nul]) then Some Smc else if v = Bytes (''hvc'' @ [nul]) then Some Hvc else None)"

definition psci_func :: "ByteOrder \<Rightarrow> Value \<Rightarrow> nat option" where
  "psci_func bo v = (case v of Bytes b \<Rightarrow> be_u32 bo b | _ \<Rightarrow> None)"

definition psci_accepts :: "ByteOrder \<Rightarrow> bytes \<times> Value \<Rightarrow> bool" where
  "psci_accepts bo p \<longleftrightarrow> (case p of (name, v) \<Rightarrow>
     (name = ''method'' \<longrightarrow> (\<exists>b. v = Bytes b)) \<and> (name = ''cpu_on'' \<longrightarrow> psci_func bo v \<noteq> None))"

lemma psci_property_Inr:
  "psci_property bo name v (m, f) = Some (Inr st') \<longleftrightarrow> psci_accepts bo (name, v) \<and>
     st' = (if name = ''method'' then psci_method v else m, if name = ''cpu_on'' then psci_func bo v else f)"
proof -
  consider "name = ''method''" | "name = ''cpu_on''" | "name \<noteq> ''method''" "name \<noteq> ''cpu_on''" by blast
  then show ?thesis
  proof cases
    case 1
    then show ?thesis by (cases v) (auto simp: psci_property_def psci_accepts_def as_bytes_def psci_method_def)
  next
    case 2
    then show ?thesis
      by (cases v) (auto simp: psci_property_def psci_accepts_def as_bytes_def psci_func_def split: bind_splits)
  qed (auto simp: psci_property_def psci_accepts_def)
qed

text \<open>The driver accepts a node exactly when its properties have the right form and the last
  \<^verbatim>\<open>method\<close> is one of the two instructions; without a \<^verbatim>\<open>cpu_on\<close> property it uses the function
  id of the current interface.\<close>

lemma psci_in_device_tree_exact:
  assumes "iter_node_properties bo dt ''/psci'' = Some (Some it)" and "properties_from bo dt it = Some ps"
  shows "psci_in_device_tree bo dt = Some (Inr p) \<longleftrightarrow> (\<forall>x \<in> set ps. psci_accepts bo x) \<and>
    (\<exists>v m. map_of (rev ps) ''method'' = Some v \<and> psci_method v = Some m \<and>
      p = \<lparr> calling_method = m, func_id_cpu_on =
        (case map_of (rev ps) ''cpu_on'' of None \<Rightarrow> FUNC_ID_CPU_ON | Some v \<Rightarrow> unwrap_or (psci_func bo v) FUNC_ID_CPU_ON) \<rparr>)"
proof -
  let ?u = "\<lambda>p (m, f). ((\<lambda>(name, v) x. if name = ''method'' then psci_method v else x) p m,
    (\<lambda>(name, v) x. if name = ''cpu_on'' then psci_func bo v else x) p f)"
  have f: "for_each (psci_property bo) ps s = Some (Inr s') \<longleftrightarrow> (\<forall>x \<in> set ps. psci_accepts bo x) \<and> s' = fold ?u ps s" for s s'
    by (rule for_each_exact) (use psci_property_Inr in \<open>auto split: prod.splits\<close>)
  have "psci_in_device_tree bo dt = Some (Inr p) \<longleftrightarrow>
      (\<exists>m func. for_each (psci_property bo) ps (None, None) = Some (Inr (Some m, func)) \<and>
         p = \<lparr> calling_method = m, func_id_cpu_on = unwrap_or func FUNC_ID_CPU_ON \<rparr>)"
    unfolding psci_in_device_tree_def using assms(1)
    by (auto simp: for_each_property_list [OF assms(2)] split: bind_splits sum.splits option.splits prod.splits)
  then show ?thesis unfolding f by (auto simp: fold_pair fold_last unwrap_or_def split: option.splits)
qed

lemma virt_psci_found:
  "psci_in_device_tree BigEndian virt_blob = Some (Inr \<lparr> calling_method = Hvc, func_id_cpu_on = 0xc4000003 \<rparr>)"
proof -
  obtain it where it: "iter_node_properties BigEndian virt_blob ''/psci'' = Some (Some it)"
    "properties_from BigEndian virt_blob it = Some (values_of (virt_psci, Some 2, Some 2))"
    using virt_node_at(2) by (rule virt_properties)
  have v: "values_of (virt_psci, Some 2, Some 2) = [(''method'', Bytes (''hvc'' @ [nul])), (''cpu_on'', Bytes (be32 0xc4000003))]"
    by (simp add: virt_psci_def value_defs)
  show ?thesis unfolding psci_in_device_tree_exact [OF it] v
    by (simp add: psci_accepts_def psci_func_def psci_method_def unwrap_or_def be_value_be32)
qed

end
