(* ===== verification/Kernel_Init.thy ===== *)
theory Kernel_Init
  imports Context_Switch Psci
begin

text \<open>
  The initialization of threads (\<^verbatim>\<open>kernel/src/thread.rs\<close>), interrupts
  (\<^verbatim>\<open>kernel/src/exceptions/interrupt/mod.rs\<close>) and the other cores (\<^verbatim>\<open>kernel/src/main.rs\<close>), on the
  state of theory \<^verbatim>\<open>Context_Switch\<close>.  A \<^verbatim>\<open>Once\<close> that is already set is left as it is.  The heap
  that \<^verbatim>\<open>Arc::new\<close> allocates from is the parameter \<open>arc_new\<close>, which returns an address
  without references.

  The theorems show that every core gets an idle thread of its own, and that the kernel
  is then ready to take interrupts as theory \<^verbatim>\<open>Context_Switch\<close> needs it.
\<close>

section \<open>Threads\<close>

fun idle_threads :: "(arcs \<Rightarrow> arc) \<Rightarrow> CoreInfo list \<Rightarrow> HandleMap \<Rightarrow> arcs \<Rightarrow> threads \<Rightarrow>
    ((cpu \<times> arc) list \<times> HandleMap \<times> arcs \<times> threads) panics" where
  "idle_threads arc_new [] store c objs = Some ([], store, c, objs)"
| "idle_threads arc_new (info # cores) store c objs = do {
     (idle_thread, store, c, objs) \<leftarrow> thread_new arc_new store Running new_for_idle_thread c objs;
     (ts, store, c, objs) \<leftarrow> idle_threads arc_new cores store c objs;
     Some ((core_id info, idle_thread) # ts, store, c, objs)
   }"

text \<open>Dropping the vector drops its references.\<close>

fun drop_all :: "(cpu \<times> arc) list \<Rightarrow> arcs \<Rightarrow> arcs panics" where
  "drop_all [] c = Some c"
| "drop_all ((_, t) # ts) c = do { c \<leftarrow> arc_drop t c; drop_all ts c }"

definition thread_init :: "(arcs \<Rightarrow> arc) \<Rightarrow> 'q SegQueue \<Rightarrow> CoreInfo list \<Rightarrow> ('d, 'q) Kernel \<Rightarrow> ('d, 'q) Kernel panics" where
  "thread_init arc_new sq cores k = do {
     let threads = (case THREADS k of None \<Rightarrow> handle_map_new MAX_THREAD_ID | Some m \<Rightarrow> m);
     (init_threads, threads, c, objs) \<leftarrow> idle_threads arc_new cores threads (counts k) (thread_objs k);
     (sched, c) \<leftarrow> (case SCHEDULER k of
         None \<Rightarrow> scheduler_new sq init_threads c
       | Some sched \<Rightarrow> Some (sched, c));
     c \<leftarrow> drop_all init_threads c;
     Some (k\<lparr>THREADS := Some threads, thread_objs := objs, counts := c, SCHEDULER := Some sched\<rparr>)
   }"

section \<open>Interrupts\<close>

definition TIMER_INTERVAL :: nat where
  "TIMER_INTERVAL = 10"

definition init_for_core :: "'d Mmio \<Rightarrow> ByteOrder \<Rightarrow> ('d, 'q) Kernel \<Rightarrow> ('d, 'q) Kernel panics" where
  "init_for_core mm bo k = do {
     ctrl \<leftarrow> CONTROLLER k;
     d \<leftarrow> initialize_for_core (gic_controller mm bo ctrl) (device k);
     t \<leftarrow> TIMER k;
     (r, d) \<leftarrow> timer_start_for_core t (gic_controller mm bo ctrl) (regs k) d;
     Some (k\<lparr>device := d, regs := r\<rparr>)
   }"

definition expect :: "('e + 'a) panics \<Rightarrow> 'a panics" where
  "expect r = do { r \<leftarrow> r; case r of Inl e \<Rightarrow> panic | Inr x \<Rightarrow> Some x }"

definition interrupts_init :: "'d Mmio \<Rightarrow> ByteOrder \<Rightarrow> DeviceTree \<Rightarrow> ('d, 'q) Kernel \<Rightarrow> ('d, 'q) Kernel panics" where
  "interrupts_init mm bo dt k = do {
     nodes \<leftarrow> iter_nodes_named bo dt ''/'' ''intc'';
     nodes \<leftarrow> nodes;
     (intc_node, _) \<leftarrow> nodes_named_next bo dt nodes;
     intc_node \<leftarrow> intc_node;
     g \<leftarrow> (case CONTROLLER k of
         None \<Rightarrow> expect (gic_in_device_tree bo dt (properties intc_node))
       | Some g \<Rightarrow> Some g);
     let ic = gic_controller mm bo g;
     d \<leftarrow> global_initialize ic (device k);
     timer_node \<leftarrow> iter_node_properties bo dt ''/timer'';
     timer_node \<leftarrow> timer_node;
     (t, d) \<leftarrow> (case TIMER k of
         None \<Rightarrow> do {
           (r, d) \<leftarrow> timer_in_device_tree bo dt timer_node ic TIMER_INTERVAL (regs k) d;
           t \<leftarrow> expect (Some r);
           Some (t, d)
         }
       | Some t \<Rightarrow> Some (t, d));
     policy \<leftarrow> (case HANDLER_POLICY k of
         None \<Rightarrow> do { assert_p (SCHEDULER k \<noteq> None); Some (g, t) }
       | Some p \<Rightarrow> Some p);
     init_for_core mm bo (k\<lparr>device := d, CONTROLLER := Some g, TIMER := Some t, HANDLER_POLICY := Some policy\<rparr>)
   }"

section \<open>The other cores\<close>

text \<open>\<open>entry\<close> is the address of \<^verbatim>\<open>_secondary_core_start\<close>, a symbol of the assembly code.\<close>

definition init_smp :: "'f firmware \<Rightarrow> ByteOrder \<Rightarrow> (bytes \<Rightarrow> string option) \<Rightarrow>
    ('s \<Rightarrow> mem \<Rightarrow> usize \<Rightarrow> ('s, paddr) alloc_result) \<Rightarrow> ('s \<Rightarrow> PageSize) \<Rightarrow> ptr \<Rightarrow> DeviceTree \<Rightarrow> CoreInfo list \<Rightarrow> 's \<Rightarrow> mem \<Rightarrow> 'f \<Rightarrow>
    ('s \<times> mem \<times> 'f) panics" where
  "init_smp fw bo from_utf8 alloc psize entry dt cores s m f = do {
     power \<leftarrow> expect (psci_in_device_tree bo dt);
     let entry_point_address = phys_from_ptr entry;
     (r, s, m, f) \<leftarrow> boot_all_cores from_utf8 (psci_power_manager fw power) alloc psize cores entry_point_address s m f;
     _ \<leftarrow> expect (Some r);
     Some (s, m, f)
   }"

text \<open>The entry point of the other cores, up to the loop that waits for interrupts.\<close>

definition secondary_core_kmain :: "'d Mmio \<Rightarrow> ByteOrder \<Rightarrow> ('d, 'q) Kernel \<Rightarrow> ('d, 'q) Kernel panics" where
  "secondary_core_kmain mm bo k = do {
     k \<leftarrow> init_for_core mm bo k;
     Some (k\<lparr>regs := mask_write all_enabled (regs k)\<rparr>)
   }"

section \<open>Idle threads\<close>

text \<open>What \<^verbatim>\<open>Arc::new\<close> relies on: the allocator hands out memory that nothing refers to.\<close>

definition fresh_arcs :: "(arcs \<Rightarrow> arc) \<Rightarrow> bool" where
  "fresh_arcs arc_new \<longleftrightarrow> (\<forall>c. finite {p. c p \<noteq> 0} \<longrightarrow> c (arc_new c) = 0)"

lemma idle_threads_spec:
  assumes "fresh_arcs arc_new" and "hm_inv store" and "dom (hm_map store) = {..<n}" and "max_handle (hm_allocator store) = mh"
    and "n + length cores \<le> mh" and "finite {p. c p \<noteq> 0}"
  shows "\<exists>ts store' c' objs'. idle_threads arc_new cores store c objs = Some (zip (map core_id cores) ts, store', c', objs') \<and>
    length ts = length cores \<and> distinct ts \<and> hm_inv store' \<and>
    (\<forall>i < length cores. c (ts ! i) = 0 \<and> thread_id (objs' (ts ! i)) = n + i \<and> thread_state (objs' (ts ! i)) = Some Running \<and>
       \<not> state_locked (objs' (ts ! i)) \<and> processor_state (objs' (ts ! i)) = new_for_idle_thread \<and> hm_map store' (n + i) = Some (ts ! i)) \<and>
    (\<forall>h < n. hm_map store' h = hm_map store h) \<and> dom (hm_map store') = {..<n + length cores} \<and>
    c' = (\<lambda>p. if p \<in> set ts then 2 else c p) \<and> (\<forall>p. p \<notin> set ts \<longrightarrow> objs' p = objs p)"
  using assms(2-)
proof (induction cores arbitrary: store n c objs)
  case Nil
  then show ?case by (intro exI [of _ "[]"] exI [of _ store] exI [of _ c] exI [of _ objs]) auto
next
  case (Cons info cores)
  have "n \<in> {..<mh}" using Cons.prems(4) by simp
  then have ne: "{..<n} \<noteq> {..<mh}" by blast
  have least: "(LEAST h. h \<notin> {..<n}) = n" by (rule Least_equality) auto
  let ?t = "arc_new c"
  have fr: "c ?t = 0" using assms(1) Cons.prems(5) by (simp add: fresh_arcs_def)
  obtain store1 objs1 where t: "thread_new arc_new store Running new_for_idle_thread c objs = Some (?t, store1, c(?t := 2), objs1)"
    "hm_inv store1" "max_handle (hm_allocator store1) = mh" "hm_map store1 = (hm_map store)(n \<mapsto> ?t)" "thread_id (objs1 ?t) = n"
    "thread_state (objs1 ?t) = Some Running" "processor_state (objs1 ?t) = new_for_idle_thread" "\<not> state_locked (objs1 ?t)"
    "\<forall>p. p \<noteq> ?t \<longrightarrow> objs1 p = objs p"
    using thread_new_spec [OF Cons.prems(1) refl Cons.prems(3) [symmetric], of arc_new Running new_for_idle_thread c objs] ne
    unfolding Cons.prems(2) least by auto
  have "dom (hm_map store1) = {..<Suc n}" unfolding t(4) using Cons.prems(2) by auto
  moreover have "Suc n + length cores \<le> mh" using Cons.prems(4) by simp
  moreover have "finite {p. (c(?t := 2)) p \<noteq> 0}"
    by (rule finite_subset [of _ "insert ?t {p. c p \<noteq> 0}"]) (use Cons.prems(5) in auto)
  ultimately obtain ts store' c' objs' where IH: "idle_threads arc_new cores store1 (c(?t := 2)) objs1 = Some (zip (map core_id cores) ts, store', c', objs')"
    "length ts = length cores" "distinct ts" "hm_inv store'"
    "\<forall>i < length cores. (c(?t := 2)) (ts ! i) = 0 \<and> thread_id (objs' (ts ! i)) = Suc n + i \<and> thread_state (objs' (ts ! i)) = Some Running \<and>
       \<not> state_locked (objs' (ts ! i)) \<and> processor_state (objs' (ts ! i)) = new_for_idle_thread \<and> hm_map store' (Suc n + i) = Some (ts ! i)"
    "\<forall>h < Suc n. hm_map store' h = hm_map store1 h" "dom (hm_map store') = {..<Suc n + length cores}"
    "c' = (\<lambda>p. if p \<in> set ts then 2 else (c(?t := 2)) p)" "\<forall>p. p \<notin> set ts \<longrightarrow> objs' p = objs1 p"
    using Cons.IH [OF t(2) _ t(3), of "Suc n" "c(?t := 2)" objs1] by blast
  have nt: "?t \<notin> set ts"
  proof
    assume "?t \<in> set ts"
    then obtain i where "i < length cores" "ts ! i = ?t" using IH(2) by (metis in_set_conv_nth)
    then show False using IH(5) by force
  qed
  have all: "c ((?t # ts) ! i) = 0 \<and> thread_id (objs' ((?t # ts) ! i)) = n + i \<and> thread_state (objs' ((?t # ts) ! i)) = Some Running \<and>
       \<not> state_locked (objs' ((?t # ts) ! i)) \<and> processor_state (objs' ((?t # ts) ! i)) = new_for_idle_thread \<and>
       hm_map store' (n + i) = Some ((?t # ts) ! i)" if "i < length (info # cores)" for i
  proof (cases i)
    case 0
    then show ?thesis using fr t(4-8) IH(6,9) nt by simp
  next
    case (Suc j)
    then show ?thesis using IH(5) that by (auto split: if_splits)
  qed
  have "idle_threads arc_new (info # cores) store c objs = Some (zip (map core_id (info # cores)) (?t # ts), store', c', objs')"
    using t(1) IH(1) by simp
  moreover have "\<forall>h < n. hm_map store' h = hm_map store h" using IH(6) t(4) by simp
  moreover have "dom (hm_map store') = {..<n + length (info # cores)}" using IH(7) by simp
  moreover have "c' = (\<lambda>p. if p \<in> set (?t # ts) then 2 else c p)" using IH(8) by auto
  moreover have "\<forall>p. p \<notin> set (?t # ts) \<longrightarrow> objs' p = objs p" using IH(9) t(9) by simp
  ultimately show ?case using IH(2-4) nt all by (intro exI [of _ "?t # ts"] exI [of _ store'] exI [of _ c'] exI [of _ objs']) simp
qed

lemma clone_all_spec:
  "length ids = length ts \<Longrightarrow> distinct ts \<Longrightarrow> \<forall>t \<in> set ts. c t \<noteq> 0 \<Longrightarrow>
     clone_all (zip ids ts) c = Some (\<lambda>p. if p \<in> set ts then c p + 1 else c p)"
proof (induction ids ts arbitrary: c rule: list_induct2)
  case (Cons i ids t ts)
  have "clone_all (zip ids ts) (c(t := c t + 1)) = Some (\<lambda>p. if p \<in> set ts then (c(t := c t + 1)) p + 1 else (c(t := c t + 1)) p)"
    by (rule Cons.IH) (use Cons.prems in auto)
  moreover have "(\<lambda>p. if p \<in> set ts then (c(t := c t + 1)) p + 1 else (c(t := c t + 1)) p) = (\<lambda>p. if p \<in> set (t # ts) then c p + 1 else c p)"
    using Cons.prems(1) by auto
  ultimately show ?case using Cons.prems by (simp add: increment_strong_count_def)
qed simp

lemma drop_all_spec:
  "length ids = length ts \<Longrightarrow> distinct ts \<Longrightarrow> \<forall>t \<in> set ts. c t \<noteq> 0 \<Longrightarrow>
     drop_all (zip ids ts) c = Some (\<lambda>p. if p \<in> set ts then c p - 1 else c p)"
proof (induction ids ts arbitrary: c rule: list_induct2)
  case (Cons i ids t ts)
  have "drop_all (zip ids ts) (c(t := c t - 1)) = Some (\<lambda>p. if p \<in> set ts then (c(t := c t - 1)) p - 1 else (c(t := c t - 1)) p)"
    by (rule Cons.IH) (use Cons.prems in auto)
  moreover have "(\<lambda>p. if p \<in> set ts then (c(t := c t - 1)) p - 1 else (c(t := c t - 1)) p) = (\<lambda>p. if p \<in> set (t # ts) then c p - 1 else c p)"
    using Cons.prems(1) by auto
  ultimately show ?case using Cons.prems by (simp add: arc_drop_def)
qed simp

lemma scheduler_new_core:
  assumes "fifo sq ql" and "length ids = length ts" and "distinct ids" and "i < length ids"
    and "scheduler_new sq (zip ids ts) c = Some (s, c')"
  shows "core_state ql s (ids ! i) = Some (ts ! i, [])"
proof -
  have m: "map_of (rev (map (\<lambda>(i, t). (i, f t)) (zip ids ts))) (ids ! i) = Some (f (ts ! i))" for f :: "arc \<Rightarrow> 'b"
  proof -
    let ?xs = "map (\<lambda>(i, t). (i, f t)) (zip ids ts)"
    have f: "map fst ?xs = ids" using assms(2) by (simp add: comp_def case_prod_beta' map_fst_zip)
    then have "distinct (map fst (rev ?xs))" using assms(3) by (simp add: rev_map [symmetric])
    moreover have "(ids ! i, f (ts ! i)) \<in> set (rev ?xs)" using assms(2,4) by (force simp: set_zip)
    ultimately show ?thesis by (rule map_of_is_SomeI)
  qed
  have "queues s (ids ! i) = Some (sq_new sq)" "current_threads s (ids ! i) = Some (arc_swap_new (ts ! i))"
    using assms(5) m [of "\<lambda>_. sq_new sq"] m [of arc_swap_new] by (auto simp: scheduler_new_def split: bind_splits)
  then show ?thesis using assms(1) by (simp add: core_state_def arc_swap_new_def fifo_def)
qed

lemma thread_init_spec:
  assumes "fresh_arcs arc_new" and "fifo sq ql" and "THREADS k = None" and "SCHEDULER k = None"
    and "finite {p. counts k p \<noteq> 0}" and "distinct (map core_id cores)" and "length cores \<le> MAX_THREAD_ID"
  shows "\<exists>k' ts s. thread_init arc_new sq cores k = Some k' \<and> length ts = length cores \<and> distinct ts \<and>
    (\<forall>i < length cores. core_state ql (the (SCHEDULER k')) (core_id (cores ! i)) = Some (ts ! i, []) \<and>
       hm_map (the (THREADS k')) i = Some (ts ! i) \<and> thread_id (thread_objs k' (ts ! i)) = i \<and>
       thread_state (thread_objs k' (ts ! i)) = Some Running \<and> \<not> state_locked (thread_objs k' (ts ! i)) \<and>
       counts k (ts ! i) = 0 \<and> counts k' (ts ! i) = 2) \<and>
    (\<forall>p. p \<notin> set ts \<longrightarrow> counts k' p = counts k p \<and> thread_objs k' p = thread_objs k p) \<and>
    SCHEDULER k' = Some s \<and> device k' = device k \<and> regs k' = regs k \<and> CONTROLLER k' = CONTROLLER k \<and> TIMER k' = TIMER k \<and>
    HANDLER_POLICY k' = HANDLER_POLICY k"
proof -
  let ?hm = "handle_map_new MAX_THREAD_ID" and ?ids = "map core_id cores"
  have "hm_inv ?hm" "hm_map ?hm = Map.empty" "max_handle (hm_allocator ?hm) = MAX_THREAD_ID"
    using handle_map_new_correct [of MAX_THREAD_ID] by (simp_all add: MAX_THREAD_ID_def)
  then obtain ts store c objs where t: "idle_threads arc_new cores ?hm (counts k) (thread_objs k) = Some (zip ?ids ts, store, c, objs)"
    "length ts = length cores" "distinct ts" "hm_inv store"
    "\<forall>i < length cores. counts k (ts ! i) = 0 \<and> thread_id (objs (ts ! i)) = 0 + i \<and> thread_state (objs (ts ! i)) = Some Running \<and>
       \<not> state_locked (objs (ts ! i)) \<and> processor_state (objs (ts ! i)) = new_for_idle_thread \<and> hm_map store (0 + i) = Some (ts ! i)"
    "c = (\<lambda>p. if p \<in> set ts then 2 else counts k p)" "\<forall>p. p \<notin> set ts \<longrightarrow> objs p = thread_objs k p"
    using idle_threads_spec [OF assms(1), of ?hm 0 MAX_THREAD_ID cores "counts k" "thread_objs k"] assms(5,7) by auto
  have len: "length ?ids = length ts" using t(2) by simp
  let ?c = "\<lambda>p. if p \<in> set ts then c p + 1 else c p"
  have cl: "clone_all (zip ?ids ts) c = Some ?c" by (rule clone_all_spec [OF len t(3)]) (simp add: t(6))
  then obtain s where s: "scheduler_new sq (zip ?ids ts) c = Some (s, ?c)" by (simp add: scheduler_new_def)
  have dr: "drop_all (zip ?ids ts) ?c = Some (\<lambda>p. if p \<in> set ts then ?c p - 1 else ?c p)"
    by (rule drop_all_spec [OF len t(3)]) simp
  let ?k = "k\<lparr>THREADS := Some store, thread_objs := objs, counts := \<lambda>p. if p \<in> set ts then ?c p - 1 else ?c p, SCHEDULER := Some s\<rparr>"
  have i: "thread_init arc_new sq cores k = Some ?k"
    using assms(3,4) by (simp add: thread_init_def Let_def t(1) s dr)
  have "core_state ql s (core_id (cores ! i)) = Some (ts ! i, [])" if "i < length cores" for i
    using scheduler_new_core [OF assms(2) len assms(6) _ s, of i] that by simp
  moreover have "\<forall>p. p \<notin> set ts \<longrightarrow> counts ?k p = counts k p \<and> thread_objs ?k p = thread_objs k p" using t(6,7) by simp
  ultimately show ?thesis using i t(2,3,5,6)
    by (intro exI [of _ ?k] exI [of _ ts] exI [of _ s]) simp
qed

text \<open>Thread initialization gives every core an idle thread of its own.  For at most as many
  cores as there are thread ids, with distinct ids, it does not panic.  Core number \<open>i\<close> of the list has the thread with
  id \<open>i\<close> as its current thread and an empty queue; the threads are distinct, runnable,
  unlocked and registered under their ids, and each has exactly two references, that of the
  table and that of the scheduler.\<close>

lemma thread_init_correct:
  assumes "fresh_arcs arc_new" and "fifo sq ql" and "THREADS k = None" and "SCHEDULER k = None"
    and "finite {p. counts k p \<noteq> 0}" and "distinct (map core_id cores)" and "length cores \<le> MAX_THREAD_ID"
  shows "\<exists>k' ts. thread_init arc_new sq cores k = Some k' \<and> length ts = length cores \<and> distinct ts \<and>
    (\<forall>i < length cores. core_state ql (the (SCHEDULER k')) (core_id (cores ! i)) = Some (ts ! i, []) \<and>
       hm_map (the (THREADS k')) i = Some (ts ! i) \<and> thread_id (thread_objs k' (ts ! i)) = i \<and>
       thread_state (thread_objs k' (ts ! i)) = Some Running \<and> \<not> state_locked (thread_objs k' (ts ! i)) \<and>
       counts k (ts ! i) = 0 \<and> counts k' (ts ! i) = 2) \<and>
    (\<forall>p. p \<notin> set ts \<longrightarrow> counts k' p = counts k p \<and> thread_objs k' p = thread_objs k p)"
  using thread_init_spec [OF assms] by blast

section \<open>Ready for interrupts\<close>

lemma init_for_core_spec:
  assumes "CONTROLLER k = Some g" and "TIMER k = Some t"
  obtains k' where "init_for_core mm bo k = Some k'" "k' = k\<lparr>device := device k', regs := regs k'\<rparr>"
    "field_get ctl_enable (CNTP_CTL_EL0 (regs k')) = 1" "field_get ctl_imask (CNTP_CTL_EL0 (regs k')) = 0"
proof -
  obtain d where d: "gic_initialize_for_core mm g (device k) = Some d" by (simp add: gic_initialize_for_core_def Let_def)
  obtain r d' where r: "timer_start_for_core t (gic_controller mm bo g) (regs k) d = Some (r, d')"
    "field_get ctl_enable (CNTP_CTL_EL0 r) = 1" "field_get ctl_imask (CNTP_CTL_EL0 r) = 0"
    using timer_start_for_core_spec [of t mm bo g "regs k" d] by blast
  have "init_for_core mm bo k = Some (k\<lparr>device := d', regs := r\<rparr>)"
    using assms d r(1) by (simp add: init_for_core_def) (simp add: gic_controller_def)
  then show thesis using r(2,3) by (intro that [of "k\<lparr>device := d', regs := r\<rparr>"]) simp_all
qed

lemma interrupts_init_spec:
  assumes "iter_nodes_named bo dt ''/'' ''intc'' = Some (Some nodes)" and "nodes_named_next bo dt nodes = Some (Some n, nodes')"
    and "gic_in_device_tree bo dt (properties n) = Some (Inr g)" and "iter_node_properties bo dt ''/timer'' = Some (Some it)"
    and "gic_global_initialize mm g (device k) = Some d"
    and "timer_in_device_tree bo dt it (gic_controller mm bo g) TIMER_INTERVAL (regs k) d = Some (Inr t, d')"
    and "CONTROLLER k = None" and "TIMER k = None" and "HANDLER_POLICY k = None" and "SCHEDULER k \<noteq> None"
  obtains k' where "interrupts_init mm bo dt k = Some k'" "SCHEDULER k' = SCHEDULER k" "thread_objs k' = thread_objs k" "counts k' = counts k"
    "HANDLER_POLICY k' = Some (g, t)" "CONTROLLER k' = Some g" "TIMER k' = Some t"
    "field_get ctl_enable (CNTP_CTL_EL0 (regs k')) = 1" "field_get ctl_imask (CNTP_CTL_EL0 (regs k')) = 0"
proof -
  let ?k = "k\<lparr>device := d', CONTROLLER := Some g, TIMER := Some t, HANDLER_POLICY := Some (g, t)\<rparr>"
  obtain k' where k': "init_for_core mm bo ?k = Some k'" "k' = ?k\<lparr>device := device k', regs := regs k'\<rparr>"
    "field_get ctl_enable (CNTP_CTL_EL0 (regs k')) = 1" "field_get ctl_imask (CNTP_CTL_EL0 (regs k')) = 0"
    by (rule init_for_core_spec [of ?k g t]) simp_all
  have "global_initialize (gic_controller mm bo g) (device k) = Some d" using assms(5) by (simp add: gic_controller_def)
  then have "interrupts_init mm bo dt k = Some k'"
    using assms k'(1) by (simp add: interrupts_init_def expect_def Let_def)
  moreover have "SCHEDULER k' = SCHEDULER k" "thread_objs k' = thread_objs k" "counts k' = counts k"
    "HANDLER_POLICY k' = Some (g, t)" "CONTROLLER k' = Some g" "TIMER k' = Some t"
    by (subst k'(2), simp)+
  ultimately show thesis using that k'(3,4) by blast
qed

text \<open>The initialization makes the kernel ready for interrupts.  From the state after boot, when the device tree
  describes the interrupt controller and the timer, initializing the threads and then the
  interrupts does not panic, the timer is enabled and not masked, and on each of the cores the kernel can take
  a timer interrupt: the idle thread of the core runs and its queue is empty.\<close>

lemma kernel_ready_after_init:
  assumes "fresh_arcs arc_new" and "fifo sq ql" and "THREADS k = None" and "SCHEDULER k = None"
    and "finite {p. counts k p \<noteq> 0}" and "distinct (map core_id cores)" and "length cores \<le> MAX_THREAD_ID"
    and "CONTROLLER k = None" and "TIMER k = None" and "HANDLER_POLICY k = None"
    and "iter_nodes_named bo dt ''/'' ''intc'' = Some (Some nodes)" and "nodes_named_next bo dt nodes = Some (Some n, nodes')"
    and "gic_in_device_tree bo dt (properties n) = Some (Inr g)" and "iter_node_properties bo dt ''/timer'' = Some (Some it)"
    and "gic_global_initialize mm g (device k) = Some d"
    and "timer_in_device_tree bo dt it (gic_controller mm bo g) TIMER_INTERVAL (regs k) d = Some (Inr t, d')"
    and "gic_device mm g pend act"
  shows "\<exists>k1 k2. thread_init arc_new sq cores k = Some k1 \<and> interrupts_init mm bo dt k1 = Some k2 \<and>
    field_get ctl_enable (CNTP_CTL_EL0 (regs k2)) = 1 \<and> field_get ctl_imask (CNTP_CTL_EL0 (regs k2)) = 0 \<and>
    (\<forall>core \<in> set cores. \<exists>idle. switch_ready mm sq ql pend act (core_id core) g t idle [] k2)"
proof -
  obtain k1 ts s where k1: "thread_init arc_new sq cores k = Some k1" "length ts = length cores"
    "\<forall>i < length cores. core_state ql (the (SCHEDULER k1)) (core_id (cores ! i)) = Some (ts ! i, []) \<and>
       thread_state (thread_objs k1 (ts ! i)) = Some Running \<and> \<not> state_locked (thread_objs k1 (ts ! i)) \<and> counts k1 (ts ! i) = 2"
    "SCHEDULER k1 = Some s" "device k1 = device k" "regs k1 = regs k" "CONTROLLER k1 = None" "TIMER k1 = None" "HANDLER_POLICY k1 = None"
    using thread_init_spec [OF assms(1-7)] unfolding assms(8-10) by blast
  obtain k2 where k2: "interrupts_init mm bo dt k1 = Some k2" "SCHEDULER k2 = SCHEDULER k1" "thread_objs k2 = thread_objs k1"
    "counts k2 = counts k1" "HANDLER_POLICY k2 = Some (g, t)"
    "field_get ctl_enable (CNTP_CTL_EL0 (regs k2)) = 1" "field_get ctl_imask (CNTP_CTL_EL0 (regs k2)) = 0"
    by (rule interrupts_init_spec [OF assms(11-14), of mm k1 d t d']) (use k1(4-9) assms(15,16) in simp_all)
  have "\<exists>idle. switch_ready mm sq ql pend act (core_id core) g t idle [] k2" if core: "core \<in> set cores" for core
  proof -
    obtain i where i: "i < length cores" "cores ! i = core" using core by (metis in_set_conv_nth)
    have "core_state ql s (core_id core) = Some (ts ! i, [])" using k1(3,4) i by auto
    then have "switch_ready mm sq ql pend act (core_id core) g t (ts ! i) [] k2"
      using assms(2,17) k2(2-5) k1(3,4) i(1) by (simp add: switch_ready_def)
    then show ?thesis ..
  qed
  then show ?thesis using k1(1) k2(1,6,7) by blast
qed

section \<open>Examples\<close>

text \<open>The state after boot, on the machine of theory \<^verbatim>\<open>Virt_Tree\<close>, and an allocator for its threads.\<close>

definition kernel_boot :: "(nat list \<times> nat list, arc list) Kernel" where
  "kernel_boot = (kernel_example [])\<lparr>counts := \<lambda>_. 0, SCHEDULER := None, CONTROLLER := None, TIMER := None, HANDLER_POLICY := None\<rparr>"

definition first_unused :: "arcs \<Rightarrow> arc" where
  "first_unused c = (LEAST p. c p = 0)"

lemma first_unused_fresh: "fresh_arcs first_unused"
proof -
  have "c (LEAST p. c p = 0) = 0" if fin: "finite {p. c p \<noteq> 0}" for c :: arcs
  proof -
    obtain p where "c p = 0" using ex_new_if_finite [OF infinite_UNIV_nat fin] by blast
    then show ?thesis by (rule LeastI)
  qed
  then show ?thesis by (simp add: fresh_arcs_def first_unused_def)
qed

definition two_cores :: "CoreInfo list" where
  "two_cores = [\<lparr> core_id = 0, enable_method = ''psci'' @ [nul] \<rparr>, \<lparr> core_id = 1, enable_method = ''psci'' @ [nul] \<rparr>]"

lemma kernel_boot_hyps:
  "THREADS kernel_boot = None" "SCHEDULER kernel_boot = None" "finite {p. counts kernel_boot p \<noteq> 0}"
  "distinct (map core_id two_cores)" "length two_cores \<le> MAX_THREAD_ID"
  "CONTROLLER kernel_boot = None" "TIMER kernel_boot = None" "HANDLER_POLICY kernel_boot = None"
  by (simp_all add: kernel_boot_def kernel_example_def two_cores_def MAX_THREAD_ID_def)

lemma thread_init_correct_example:
  "\<exists>k' t0 t1. thread_init first_unused list_queue two_cores kernel_boot = Some k' \<and> t0 \<noteq> t1 \<and>
     core_state id (the (SCHEDULER k')) 0 = Some (t0, []) \<and> core_state id (the (SCHEDULER k')) 1 = Some (t1, []) \<and>
     thread_id (thread_objs k' t0) = 0 \<and> thread_id (thread_objs k' t1) = 1"
proof -
  obtain k' ts where k: "thread_init first_unused list_queue two_cores kernel_boot = Some k'" "distinct ts"
    "\<forall>i < 2. core_state id (the (SCHEDULER k')) (core_id (two_cores ! i)) = Some (ts ! i, []) \<and> thread_id (thread_objs k' (ts ! i)) = i"
    "length ts = 2"
    using thread_init_correct [OF first_unused_fresh list_queue_fifo kernel_boot_hyps(1-5)] by (auto simp: two_cores_def)
  have "0 < (2 :: nat)" "1 < (2 :: nat)" by simp_all
  then have "core_state id (the (SCHEDULER k')) (core_id (two_cores ! 0)) = Some (ts ! 0, [])" "thread_id (thread_objs k' (ts ! 0)) = 0"
    "core_state id (the (SCHEDULER k')) (core_id (two_cores ! 1)) = Some (ts ! 1, [])" "thread_id (thread_objs k' (ts ! 1)) = 1"
    using k(3) by blast+
  moreover have "ts ! 0 \<noteq> ts ! 1" using k(2,4) by (simp add: nth_eq_iff_index_eq)
  ultimately show ?thesis using k(1)
    by (intro exI [of _ k'] exI [of _ "ts ! 0"] exI [of _ "ts ! 1"]) (simp add: two_cores_def)
qed

lemma virt_intc_node:
  obtains nodes n nodes' where "iter_nodes_named BigEndian virt_blob ''/'' ''intc'' = Some (Some nodes)"
    "nodes_named_next BigEndian virt_blob nodes = Some (Some n, nodes')"
    "properties_from BigEndian virt_blob (properties n) = Some (values_of (virt_intc, Some 2, Some 2))"
proof -
  have "filter (named ''intc'') (children virt_tree) = [virt_intc]" by (simp add: virt_defs named_def split_node_name_def)
  from virt_root_child [OF this] show thesis using that by metis
qed

lemma kernel_ready_after_init_example:
  "\<exists>g. \<exists>k1 k2 idle0 idle1. thread_init first_unused list_queue two_cores kernel_boot = Some k1 \<and>
     interrupts_init (list_gic g) BigEndian virt_blob k1 = Some k2 \<and>
     switch_ready (list_gic g) list_queue id (\<lambda>(p, q). takeWhile (\<lambda>i. i \<noteq> 1023) p) snd 0 g
       \<lparr> int_id = 30, int_config = \<lparr> priority = 0, mode = Level \<rparr>, reset_value = 6250000 \<rparr> idle0 [] k2 \<and>
     switch_ready (list_gic g) list_queue id (\<lambda>(p, q). takeWhile (\<lambda>i. i \<noteq> 1023) p) snd 1 g
       \<lparr> int_id = 30, int_config = \<lparr> priority = 0, mode = Level \<rparr>, reset_value = 6250000 \<rparr> idle1 [] k2"
proof -
  let ?g = "\<lparr> distributor_base = ptr_from_phys 0x8000000, cpu_base = ptr_from_phys 0x8010000 \<rparr>"
  let ?t = "\<lparr> int_id = 30, int_config = \<lparr> priority = 0, mode = Level \<rparr>, reset_value = 6250000 \<rparr>"
  obtain nodes n nodes' where n: "iter_nodes_named BigEndian virt_blob ''/'' ''intc'' = Some (Some nodes)"
    "nodes_named_next BigEndian virt_blob nodes = Some (Some n, nodes')"
    "properties_from BigEndian virt_blob (properties n) = Some (values_of (virt_intc, Some 2, Some 2))"
    by (rule virt_intc_node)
  obtain d where d: "gic_global_initialize (list_gic ?g) ?g (device kernel_boot) = Some d" by (simp add: gic_global_initialize_def)
  obtain it where it: "iter_node_properties BigEndian virt_blob ''/timer'' = Some (Some it)"
    "\<exists>d'. timer_in_device_tree BigEndian virt_blob it (gic_controller (list_gic ?g) BigEndian ?g) 10 (regs kernel_boot) d =
       Some (Inr \<lparr> int_id = 30, int_config = \<lparr> priority = 0, mode = Level \<rparr>, reset_value = CNTFRQ_EL0 (regs kernel_boot) div 10 \<rparr>, d')"
    using virt_timer_found by metis
  have "CNTFRQ_EL0 (regs kernel_boot) div 10 = 6250000" by (simp add: kernel_boot_def kernel_example_def)
  then obtain d' where t: "timer_in_device_tree BigEndian virt_blob it (gic_controller (list_gic ?g) BigEndian ?g) TIMER_INTERVAL (regs kernel_boot) d = Some (Inr ?t, d')"
    using it(2) by (auto simp: TIMER_INTERVAL_def)
  have "core_id (two_cores ! 0) = 0" "core_id (two_cores ! 1) = 1" "set two_cores = {two_cores ! 0, two_cores ! 1}"
    by (simp_all add: two_cores_def)
  then show ?thesis
    using kernel_ready_after_init [OF first_unused_fresh list_queue_fifo kernel_boot_hyps n(1,2) virt_intc_found [OF n(3)] it(1) d t list_gic_device]
    by (intro exI [of _ ?g]) (simp, blast)
qed

end
