(* ===== verification/Page_Table.thy ===== *)
theory Page_Table
  imports Page_Alloc
begin

text \<open>
  The page tables of \<^verbatim>\<open>kernel_core/src/memory/page_table.rs\<close>.  Tables live in machine memory:
  the entry with index \<open>i\<close> of the table at \<open>t\<close> is the cell \<open>t + 8 * i\<close>.  The page
  allocator is a parameter (\<open>alloc\<close> for \<^verbatim>\<open>allocate\<close>, \<open>free\<close> for
  \<^verbatim>\<open>free\<close>); its state and the memory are passed along.

  The recursive \<^verbatim>\<open>Walker::step\<close> is the function \<open>step\<close> together with the loop over
  the entries of a table, \<open>walk_entries\<close>, which takes the recursive call as an argument.
\<close>

section \<open>Memory properties\<close>

datatype Shareability = Local | Cluster | Global

fun shareability_encode :: "Shareability \<Rightarrow> u64" where
  "shareability_encode Local = 0b00"
| "shareability_encode Global = 0b10"
| "shareability_encode Cluster = 0b11"

definition shareability_from :: "u64 \<Rightarrow> Shareability panics" where
  "shareability_from value =
     (if value = 0b00 then Some Local
      else if value = 0b10 then Some Global
      else if value = 0b11 then Some Cluster
      else panic)"

datatype MemoryKind = Normal | Device

definition MAIR_VALUE :: u64 where
  "MAIR_VALUE = 0x000000000000ff00"

fun kind_encode :: "MemoryKind \<Rightarrow> u64" where
  "kind_encode Device = 0b000"
| "kind_encode Normal = 0b001"

definition kind_from :: "u64 \<Rightarrow> MemoryKind panics" where
  "kind_from value =
     (if value = 0b000 then Some Device else if value = 0b001 then Some Normal else panic)"

record MemoryProperties =
  kind :: MemoryKind
  user_space_access :: bool
  writable :: bool
  executable :: bool
  shareability :: Shareability

definition properties_encode :: "MemoryProperties \<Rightarrow> u64" where
  "properties_encode p =
     push_bit 54 (of_bool (\<not> executable p)) OR
     push_bit 53 (of_bool (\<not> executable p)) OR
     push_bit 8 (shareability_encode (shareability p)) OR
     push_bit 7 (of_bool (\<not> writable p)) OR
     push_bit 6 (of_bool (user_space_access p)) OR
     push_bit 2 (kind_encode (kind p))"

definition properties_decode :: "u64 \<Rightarrow> MemoryProperties panics" where
  "properties_decode raw_entry = do {
     s \<leftarrow> shareability_from (drop_bit 8 raw_entry AND 0b11);
     k \<leftarrow> kind_from (drop_bit 2 raw_entry AND 0b111);
     Some \<lparr> kind = k,
            user_space_access = (drop_bit 6 raw_entry AND 1 = 1),
            writable = (drop_bit 7 raw_entry AND 1 = 0),
            executable = (drop_bit 54 raw_entry AND 1 = 0),
            shareability = s \<rparr>
   }"

section \<open>Block sizes and errors\<close>

datatype MapBlockSize = Page | SmallBlock | LargeBlock

definition largest_supported_block_size :: "PageSize \<Rightarrow> MapBlockSize" where
  "largest_supported_block_size ps = (case ps of FourKiB \<Rightarrow> LargeBlock | SixteenKiB \<Rightarrow> SmallBlock)"

definition length_in_pages :: "MapBlockSize \<Rightarrow> PageSize \<Rightarrow> usize option" where
  "length_in_pages sz ps =
     (let entries_per_page = page_bytes ps div 8 in
      case sz of
        Page \<Rightarrow> Some 1
      | SmallBlock \<Rightarrow> Some entries_per_page
      | LargeBlock \<Rightarrow> if ps = FourKiB then Some (entries_per_page * entries_per_page) else None)"

definition length_in_bytes :: "MapBlockSize \<Rightarrow> PageSize \<Rightarrow> usize option" where
  "length_in_bytes sz ps = map_option (\<lambda>s. s * page_bytes ps) (length_in_pages sz ps)"

datatype PtError =
    NotMapped vaddr
  | AlreadyMapped vaddr
  | Allocator MemoryError
  | InvalidCount
  | InvalidTag vaddr
  | InvalidAlignment usize

section \<open>Entries\<close>

type_synonym Entry = u64

datatype DecodedEntry = Empty | Table paddr | Block paddr | DecodedPage paddr

definition entry_empty :: Entry where
  "entry_empty = 0"

definition for_table :: "paddr \<Rightarrow> Entry panics" where
  "for_table address = do {
     assert_p (address AND 0xfff = 0);
     Some (0b11 OR (word_of_nat address AND 0x0000fffffffff000))
   }"

definition for_block :: "paddr \<Rightarrow> MemoryProperties \<Rightarrow> Entry panics" where
  "for_block address properties = do {
     assert_p (address AND 0xfff = 0);
     Some (0b01 OR word_of_nat address OR properties_encode properties OR push_bit 10 1)
   }"

definition for_page :: "paddr \<Rightarrow> MemoryProperties \<Rightarrow> Entry panics" where
  "for_page address properties = do {
     assert_p (address AND 0xfff = 0);
     Some (0b11 OR word_of_nat address OR properties_encode properties OR push_bit 10 1)
   }"

definition entry_decode :: "Entry \<Rightarrow> usize \<Rightarrow> DecodedEntry panics" where
  "entry_decode e occuring_at_level = do {
     address \<leftarrow> phys_from_usize (unat (e AND 0x0000fffffffff000));
     let bits = e AND 0b11;
     if bits = 0b00 then Some Empty
     else if occuring_at_level = 3 \<and> bits = 0b11 then Some (DecodedPage address)
     else if bits = 0b11 then Some (Table address)
     else if occuring_at_level \<le> 2 \<and> bits = 0b01 then Some (Block address)
     else panic
   }"

section \<open>Levels\<close>

text \<open>\<^verbatim>\<open>BitRange::bit_range(msb, lsb)\<close>: the bits from \<open>lsb\<close> up to and including \<open>msb\<close>.\<close>

definition bit_range :: "usize \<Rightarrow> usize \<Rightarrow> usize \<Rightarrow> usize" where
  "bit_range msb lsb x = take_bit (msb - lsb + 1) (drop_bit lsb x)"

definition index_for_level :: "vaddr \<Rightarrow> usize \<Rightarrow> PageSize \<Rightarrow> usize panics" where
  "index_for_level address level ps =
     map_option (\<lambda>(msb, lsb). bit_range msb lsb address)
       (case ps of
          FourKiB \<Rightarrow>
            if level = 4 then Some (11, 0) else if level = 3 then Some (20, 12)
            else if level = 2 then Some (29, 21) else if level = 1 then Some (38, 30)
            else if level = 0 then Some (47, 39) else panic
        | SixteenKiB \<Rightarrow>
            if level = 4 then Some (13, 0) else if level = 3 then Some (24, 14)
            else if level = 2 then Some (35, 25) else if level = 1 then Some (46, 36)
            else if level = 0 then Some (47, 47) else panic)"

definition pages_per_entry :: "usize \<Rightarrow> PageSize \<Rightarrow> usize panics" where
  "pages_per_entry level ps =
     (case ps of
        FourKiB \<Rightarrow>
          if level = 0 then Some (512 * 512 * 512) else if level = 1 then Some (512 * 512)
          else if level = 2 then Some 512 else if level = 3 then Some 1 else panic
      | SixteenKiB \<Rightarrow>
          if level = 0 then Some (2 * 2048 * 2048) else if level = 1 then Some (2048 * 2048)
          else if level = 2 then Some 2048 else if level = 3 then Some 1 else panic)"

section \<open>The page tables\<close>

record PageTables =
  entries_per_page :: usize
  root :: ptr
  pt_page_size :: PageSize
  high_tag :: bool

type_synonym 's allocator = "'s \<Rightarrow> mem \<Rightarrow> usize \<Rightarrow> ('s, paddr) alloc_result"
type_synonym ('s, 'r) pt_result = "((PtError + 'r) \<times> 's \<times> mem) panics"

text \<open>The \<^verbatim>\<open>?\<close> operator.\<close>

definition and_then ::
  "(('e + 'a) \<times> 's \<times> mem) panics \<Rightarrow> ('a \<Rightarrow> 's \<Rightarrow> mem \<Rightarrow> (('e + 'b) \<times> 's \<times> mem) panics) \<Rightarrow>
     (('e + 'b) \<times> 's \<times> mem) panics" where
  "and_then r k = do {
     (res, s, m) \<leftarrow> r;
     case res of Inl e \<Rightarrow> Some (Inl e, s, m) | Inr x \<Rightarrow> k x s m
   }"

definition from_existing :: "PageSize \<Rightarrow> paddr \<Rightarrow> bool \<Rightarrow> PageTables panics" where
  "from_existing ps root_table_address tag = do {
     let r = ptr_from_phys root_table_address;
     assert_p (r \<noteq> 0);
     aligned \<leftarrow> is_aligned_to r (page_bytes ps);
     assert_p aligned;
     Some \<lparr> entries_per_page = page_bytes ps div 8, root = r, pt_page_size = ps, high_tag = tag \<rparr>
   }"

definition pt_empty :: "'s allocator \<Rightarrow> PageSize \<Rightarrow> 's \<Rightarrow> mem \<Rightarrow> ('s, PageTables) alloc_result" where
  "pt_empty alloc ps s m = and_then (allocate_zeroed alloc ps s m 1) (\<lambda>r s m. do {
     t \<leftarrow> from_existing ps r False;
     Some (Inr t, s, m)
   })"

definition pt_physical_address :: "PageTables \<Rightarrow> paddr" where
  "pt_physical_address t = phys_from_ptr (root t)"

section \<open>The walker\<close>

record Walker =
  end_level :: usize
  block_size_in_bytes :: usize
  block_size_in_pages :: usize
  create_on_empty :: bool

definition next_table_for_entry ::
  "'s allocator \<Rightarrow> PageTables \<Rightarrow> Walker \<Rightarrow> usize \<Rightarrow> vaddr \<Rightarrow> ptr \<Rightarrow> 's \<Rightarrow> mem \<Rightarrow> ('s, ptr) pt_result" where
  "next_table_for_entry alloc parent w level address entry s m = do {
     d \<leftarrow> entry_decode (m entry) level;
     case d of
       Empty \<Rightarrow>
         if create_on_empty w then do {
           (r, s', m') \<leftarrow> allocate_zeroed alloc (pt_page_size parent) s m 1;
           case r of
             Inl e \<Rightarrow> Some (Inl (Allocator e), s', m')
           | Inr next_table \<Rightarrow> do {
               e \<leftarrow> for_table next_table;
               Some (Inr (ptr_from_phys next_table), s', m'(entry := e))
             }
         } else Some (Inl (NotMapped address), s, m)
     | Table table_pointer \<Rightarrow> Some (Inr (ptr_from_phys table_pointer), s, m)
     | Block _ \<Rightarrow> Some (Inl (AlreadyMapped address), s, m)
     | DecodedPage _ \<Rightarrow> Some (Inl (AlreadyMapped address), s, m)
   }"

text \<open>The loop of \<^verbatim>\<open>Walker::step\<close> over the entries of a table above the end level.  \<open>next\<close>
  is the recursive call; it panics on a count of zero (\<^verbatim>\<open>assert!(count > 0)\<close>), which the loop
  does before the call so that its own termination is plain.\<close>

function walk_entries ::
  "(ptr \<Rightarrow> vaddr \<Rightarrow> paddr \<Rightarrow> usize \<Rightarrow> 's \<Rightarrow> mem \<Rightarrow> ('s, unit) pt_result) \<Rightarrow>
   's allocator \<Rightarrow> PageTables \<Rightarrow> Walker \<Rightarrow> usize \<Rightarrow> ptr \<Rightarrow> vaddr \<Rightarrow> paddr \<Rightarrow> usize \<Rightarrow> usize \<Rightarrow>
   usize \<Rightarrow> usize \<Rightarrow> 's \<Rightarrow> mem \<Rightarrow> ('s, unit) pt_result" where
  "walk_entries next alloc parent w level table_root virtual_start physical_start count
     blocks_per_entry index num_blocks s m =
     (if num_blocks < count then do {
        assert_p (index < entries_per_page parent);
        entry \<leftarrow> add_p table_root (8 * index);
        assert_p (entry \<noteq> 0);
        byte_offset \<leftarrow> mul_p num_blocks (block_size_in_bytes w);
        next_vs \<leftarrow> virt_byte_add virtual_start byte_offset;
        and_then (next_table_for_entry alloc parent w level next_vs entry s m) (\<lambda>next_table s m. do {
          start_at_next_level \<leftarrow> index_for_level next_vs (level + 1) (pt_page_size parent);
          room \<leftarrow> sub_p blocks_per_entry start_at_next_level;
          let actual_blocks = min (count - num_blocks) room;
          next_ps \<leftarrow> phys_byte_add physical_start byte_offset;
          if actual_blocks = 0 then panic
          else and_then (next next_table next_vs next_ps actual_blocks s m) (\<lambda>_ s m.
            walk_entries next alloc parent w level table_root virtual_start physical_start count
              blocks_per_entry (index + 1) (num_blocks + actual_blocks) s m)
        })
      } else Some (Inr (), s, m))"
  by pat_completeness auto
termination
  by (relation "measure (\<lambda>(next, alloc, parent, w, level, table_root, vs, ps, count, bpe, index, num, s, m).
        count - num)") auto

declare walk_entries.simps [simp del]

text \<open>The loop of \<^verbatim>\<open>Walker::step\<close> at the end level.\<close>

fun for_each_leaf ::
  "(ptr \<Rightarrow> paddr \<Rightarrow> mem \<Rightarrow> ((PtError + unit) \<times> mem) panics) \<Rightarrow> Walker \<Rightarrow> ptr \<Rightarrow> usize \<Rightarrow> paddr \<Rightarrow>
   usize list \<Rightarrow> 's \<Rightarrow> mem \<Rightarrow> ('s, unit) pt_result" where
  "for_each_leaf f w table_root start_index physical_start [] s m = Some (Inr (), s, m)"
| "for_each_leaf f w table_root start_index physical_start (i # is) s m = do {
     offset \<leftarrow> mul_p i (block_size_in_bytes w);
     addr \<leftarrow> phys_byte_add physical_start offset;
     entry_ptr \<leftarrow> add_p table_root (8 * (start_index + i));
     (r, m') \<leftarrow> f entry_ptr addr m;
     case r of
       Inl e \<Rightarrow> Some (Inl e, s, m')
     | Inr _ \<Rightarrow> for_each_leaf f w table_root start_index physical_start is s m'
   }"

function step ::
  "'s allocator \<Rightarrow> PageTables \<Rightarrow> Walker \<Rightarrow> (ptr \<Rightarrow> paddr \<Rightarrow> mem \<Rightarrow> ((PtError + unit) \<times> mem) panics) \<Rightarrow>
   usize \<Rightarrow> ptr \<Rightarrow> vaddr \<Rightarrow> paddr \<Rightarrow> usize \<Rightarrow> 's \<Rightarrow> mem \<Rightarrow> ('s, unit) pt_result" where
  "step alloc parent w f level table_root virtual_start physical_start count s m = do {
     assert_p (count > 0);
     start_index \<leftarrow> index_for_level virtual_start level (pt_page_size parent);
     if level < end_level w then do {
       ppe \<leftarrow> pages_per_entry level (pt_page_size parent);
       walk_entries (\<lambda>t vs ps n s m. step alloc parent w f (level + 1) t vs ps n s m)
         alloc parent w level table_root virtual_start physical_start count
         (ppe div block_size_in_pages w) start_index 0 s m
     } else do {
       end_index \<leftarrow> add_p start_index count;
       assert_p (end_index \<le> entries_per_page parent);
       for_each_leaf f w table_root start_index physical_start [0..<count] s m
     }
   }"
  by pat_completeness auto
termination
  by (relation "measure (\<lambda>(alloc, parent, w, f, level, t, vs, ps, n, s, m). end_level w - level)") auto

declare step.simps [simp del]

definition for_each_entry_of_size ::
  "'s allocator \<Rightarrow> PageTables \<Rightarrow> vaddr \<Rightarrow> paddr \<Rightarrow> usize \<Rightarrow> MapBlockSize \<Rightarrow> bool \<Rightarrow>
   (ptr \<Rightarrow> paddr \<Rightarrow> mem \<Rightarrow> ((PtError + unit) \<times> mem) panics) \<Rightarrow> 's \<Rightarrow> mem \<Rightarrow> ('s, unit) pt_result" where
  "for_each_entry_of_size alloc t virtual_start physical_start count sz create f s m = do {
     e \<leftarrow> (case sz of
             Page \<Rightarrow> Some 3
           | SmallBlock \<Rightarrow> Some 2
           | LargeBlock \<Rightarrow> if pt_page_size t = FourKiB then Some 1 else panic);
     bsp \<leftarrow> length_in_pages sz (pt_page_size t);
     bsb \<leftarrow> page_size_mul (pt_page_size t) bsp;
     if \<not> (count > 0 \<and> count * bsp \<le> usize_max \<and> count * bsp < 2 ^ 48)
     then Some (Inl InvalidCount, s, m)
     else do {
       va \<leftarrow> is_aligned_to virtual_start bsb;
       if \<not> va then Some (Inl (InvalidAlignment virtual_start), s, m)
       else do {
         pa \<leftarrow> is_aligned_to physical_start bsb;
         if \<not> pa then Some (Inl (InvalidAlignment physical_start), s, m)
         else step alloc t
                \<lparr> end_level = e, block_size_in_bytes = bsb, block_size_in_pages = bsp, create_on_empty = create \<rparr>
                f 0 (root t) virtual_start physical_start count s m
       }
     }
   }"

definition map_entry ::
  "MapBlockSize \<Rightarrow> MemoryProperties \<Rightarrow> ptr \<Rightarrow> paddr \<Rightarrow> mem \<Rightarrow> ((PtError + unit) \<times> mem) panics" where
  "map_entry sz properties entry_ptr addr m = do {
     entry \<leftarrow> (case sz of Page \<Rightarrow> for_page addr properties | _ \<Rightarrow> for_block addr properties);
     Some (Inr (), m(entry_ptr := entry))
   }"

definition pt_map ::
  "'s allocator \<Rightarrow> PageTables \<Rightarrow> vaddr \<Rightarrow> paddr \<Rightarrow> usize \<Rightarrow> MapBlockSize \<Rightarrow> MemoryProperties \<Rightarrow> 's \<Rightarrow> mem \<Rightarrow>
   ('s, unit) pt_result" where
  "pt_map alloc t virtual_start physical_start count sz properties s m =
     (if is_in_kernel_space virtual_start \<noteq> high_tag t then Some (Inl (InvalidTag virtual_start), s, m)
      else for_each_entry_of_size alloc t virtual_start physical_start count sz True
             (map_entry sz properties) s m)"

definition unmap_entry :: "ptr \<Rightarrow> paddr \<Rightarrow> mem \<Rightarrow> ((PtError + unit) \<times> mem) panics" where
  "unmap_entry entry_ptr addr m = Some (Inr (), m(entry_ptr := entry_empty))"

definition pt_unmap ::
  "'s allocator \<Rightarrow> PageTables \<Rightarrow> vaddr \<Rightarrow> usize \<Rightarrow> MapBlockSize \<Rightarrow> 's \<Rightarrow> mem \<Rightarrow> ('s, unit) pt_result" where
  "pt_unmap alloc t virtual_start count sz s m =
     (if is_in_kernel_space virtual_start \<noteq> high_tag t then Some (Inl (InvalidTag virtual_start), s, m)
      else for_each_entry_of_size alloc t virtual_start 0 count sz False unmap_entry s m)"

section \<open>Translation\<close>

text \<open>The offset masks of \<^verbatim>\<open>physical_address_of\<close>.\<close>

definition offset_mask :: "PageSize \<Rightarrow> usize \<Rightarrow> usize panics" where
  "offset_mask ps level =
     (case ps of
        FourKiB \<Rightarrow>
          if level = 3 then Some 0xfff else if level = 2 then Some 0x1fffff
          else if level = 1 then Some 0x3fffffff else panic
      | SixteenKiB \<Rightarrow>
          if level = 3 then Some 0x3fff else if level = 2 then Some 0x1ffffff else panic)"

text \<open>The loop of \<^verbatim>\<open>physical_address_of\<close>.\<close>

function translate :: "PageSize \<Rightarrow> mem \<Rightarrow> vaddr \<Rightarrow> usize \<Rightarrow> ptr \<Rightarrow> paddr option panics" where
  "translate ps m p level table =
     (if level \<le> 3 then do {
        index \<leftarrow> index_for_level p level ps;
        entry_ptr \<leftarrow> add_p table (8 * index);
        d \<leftarrow> entry_decode (m entry_ptr) level;
        case d of
          Empty \<Rightarrow> Some None
        | Table table_ptr \<Rightarrow> translate ps m p (level + 1) (ptr_from_phys table_ptr)
        | Block base \<Rightarrow> do { mask \<leftarrow> offset_mask ps level; a \<leftarrow> phys_byte_add base (p AND mask); Some (Some a) }
        | DecodedPage base \<Rightarrow> do { mask \<leftarrow> offset_mask ps level; a \<leftarrow> phys_byte_add base (p AND mask); Some (Some a) }
      } else Some None)"
  by pat_completeness auto
termination
  by (relation "measure (\<lambda>(ps, m, p, level, table). 4 - level)") auto

declare translate.simps [simp del]

definition physical_address_of :: "PageTables \<Rightarrow> mem \<Rightarrow> vaddr \<Rightarrow> paddr option panics" where
  "physical_address_of t m p =
     (if is_in_kernel_space p \<noteq> high_tag t then Some None
      else translate (pt_page_size t) m p 0 (root t))"

section \<open>Dropping\<close>

text \<open>\<^verbatim>\<open>drop_table\<close>: the levels below 3 hold no tables, which bounds the recursion;
  \<open>depth\<close> is the number of levels that may still follow.\<close>

fun drop_entries ::
  "(ptr \<Rightarrow> 's \<Rightarrow> mem \<Rightarrow> ('s \<times> mem) panics) \<Rightarrow> usize \<Rightarrow> ptr \<Rightarrow> usize list \<Rightarrow> 's \<Rightarrow> mem \<Rightarrow> ('s \<times> mem) panics" where
  "drop_entries drop_next level table [] s m = Some (s, m)"
| "drop_entries drop_next level table (i # is) s m = do {
     entry_ptr \<leftarrow> add_p table (8 * i);
     d \<leftarrow> entry_decode (m entry_ptr) level;
     (s', m') \<leftarrow> (case d of Table next_table \<Rightarrow> drop_next (ptr_from_phys next_table) s m | _ \<Rightarrow> Some (s, m));
     drop_entries drop_next level table is s' m'
   }"

function drop_table ::
  "('s \<Rightarrow> mem \<Rightarrow> paddr \<Rightarrow> usize \<Rightarrow> ('s, unit) alloc_result) \<Rightarrow> PageTables \<Rightarrow> usize \<Rightarrow> ptr \<Rightarrow> 's \<Rightarrow> mem \<Rightarrow>
   ('s \<times> mem) panics" where
  "drop_table free t level table s m = do {
     (s', m') \<leftarrow> drop_entries
        (if level < 3 then (\<lambda>next s m. drop_table free t (level + 1) next s m) else (\<lambda>_ _ _. panic))
        level table [0..<entries_per_page t] s m;
     (r, s'', m'') \<leftarrow> free s' m' (phys_from_ptr table) 1;
     case r of Inl _ \<Rightarrow> panic | Inr _ \<Rightarrow> Some (s'', m'')
   }"
  by pat_completeness auto
termination
  by (relation "measure (\<lambda>(free, t, level, table, s, m). 3 - level)") auto

declare drop_table.simps [simp del]

definition pt_drop ::
  "('s \<Rightarrow> mem \<Rightarrow> paddr \<Rightarrow> usize \<Rightarrow> ('s, unit) alloc_result) \<Rightarrow> PageTables \<Rightarrow> 's \<Rightarrow> mem \<Rightarrow> ('s \<times> mem) panics" where
  "pt_drop free t s m = drop_table free t 0 (root t) s m"

section \<open>Entries, bit by bit\<close>

lemma bit_addr:
  fixes a :: nat
  assumes "a < 2 ^ 48" and "a mod 4096 = 0"
  shows "bit (word_of_nat a :: u64) n \<longleftrightarrow> 12 \<le> n \<and> n < 48 \<and> bit a n"
proof -
  have "\<not> bit a n" if "n < 12"
  proof -
    have "take_bit 12 a = 0" using assms(2) by (simp add: take_bit_eq_mod)
    then have "\<not> bit (take_bit 12 a) n" by simp
    with that show ?thesis by (simp add: bit_simps)
  qed
  moreover have "\<not> bit a n" if "48 \<le> n"
  proof -
    have "take_bit 48 a = a" using assms(1) by (simp add: take_bit_nat_eq_self)
    then have "bit a n = bit (take_bit 48 a) n" by simp
    with that show ?thesis by (simp add: bit_simps)
  qed
  ultimately have "bit a n \<Longrightarrow> 12 \<le> n \<and> n < 48" by (metis not_less)
  then show ?thesis by (auto simp: bit_simps)
qed

lemma bit_3: "bit (3 :: u64) n \<longleftrightarrow> n < 2"
proof -
  have three: "(3 :: u64) = mask 2" by (simp add: mask_eq_exp_minus_1)
  show ?thesis unfolding three by (auto simp: bit_mask_iff)
qed

lemma bit_shareability:
  "bit (shareability_encode s) n \<longleftrightarrow> n = 1 \<and> s \<noteq> Local \<or> n = 0 \<and> s = Cluster"
proof (cases s)
  case Cluster
  then show ?thesis unfolding shareability_encode.simps Cluster bit_3 by auto
qed (auto simp: bit_2_iff)

lemma bit_kind: "bit (kind_encode k) n \<longleftrightarrow> n = 0 \<and> k = Normal"
  by (cases k) (auto simp: bit_1_iff)

lemma bit_push:
  fixes w :: u64
  shows "bit (push_bit k w) n \<longleftrightarrow> k \<le> n \<and> n < 64 \<and> bit w (n - k)"
  by (auto simp: bit_push_bit_iff)

lemma bit_properties:
  "bit (properties_encode p) n \<longleftrightarrow>
     (n = 54 \<or> n = 53) \<and> \<not> executable p \<or>
     n = 9 \<and> shareability p \<noteq> Local \<or> n = 8 \<and> shareability p = Cluster \<or>
     n = 7 \<and> \<not> writable p \<or> n = 6 \<and> user_space_access p \<or> n = 2 \<and> kind p = Normal"
proof -
  have b: "bit (push_bit k (of_bool c :: u64)) n \<longleftrightarrow> n = k \<and> c" if "k < 64" for k c
    using that by (auto simp: bit_push bit_of_bool_iff)
  have sh: "bit (push_bit 8 (shareability_encode s)) n \<longleftrightarrow> n = 9 \<and> s \<noteq> Local \<or> n = 8 \<and> s = Cluster" for s
    unfolding bit_push bit_shareability by auto
  have k: "bit (push_bit 2 (kind_encode k)) n \<longleftrightarrow> n = 2 \<and> k = Normal" for k
    unfolding bit_push bit_kind by auto
  show ?thesis
    unfolding properties_encode_def bit_or_iff sh k by (simp add: b) blast
qed

text \<open>An entry that holds an address, some type bits and properties: the bits of the three parts
  do not overlap.\<close>

definition raw_entry :: "u64 \<Rightarrow> paddr \<Rightarrow> MemoryProperties \<Rightarrow> u64" where
  "raw_entry ty a p = ty OR word_of_nat a OR properties_encode p OR push_bit 10 1"

lemma and_3: "(x :: u64) AND 3 = 2 * of_bool (bit x 1) + of_bool (bit x 0)"
proof -
  have "x AND 3 = take_bit (Suc (Suc 0)) x" by (simp add: take_bit_eq_mask mask_eq_exp_minus_1)
  also have "\<dots> = 2 * of_bool (bit x 1) + of_bool (bit x 0)"
    by (simp add: take_bit_Suc bit_Suc bit_0 mod_2_eq_odd)
  finally show ?thesis .
qed

lemma and_7: "(x :: u64) AND 7 = 4 * of_bool (bit x 2) + 2 * of_bool (bit x 1) + of_bool (bit x 0)"
proof -
  have "x AND 7 = take_bit (Suc (Suc (Suc 0))) x" by (simp add: take_bit_eq_mask mask_eq_exp_minus_1)
  also have "\<dots> = 4 * of_bool (bit x 2) + 2 * of_bool (bit x 1) + of_bool (bit x 0)"
    by (simp add: take_bit_Suc bit_Suc bit_0 mod_2_eq_odd numeral_2_eq_2)
  finally show ?thesis .
qed

lemma and_1: "(x :: u64) AND 1 = of_bool (bit x 0)"
  by (simp add: and_one_eq mod_2_eq_odd bit_0)

lemma bit_address_mask: "bit (0x0000fffffffff000 :: u64) n \<longleftrightarrow> 12 \<le> n \<and> n < 48"
proof -
  have m: "(0x0000fffffffff000 :: u64) = push_bit 12 (mask 36)"
    by (simp add: mask_eq_exp_minus_1 push_bit_eq_mult)
  show ?thesis unfolding m bit_push bit_mask_iff by auto
qed

lemma bit_raw_entry:
  assumes "a < 2 ^ 48" and "a mod 4096 = 0" and "ty = 1 \<or> ty = 3"
  shows "bit (raw_entry ty a p) n \<longleftrightarrow>
    n = 0 \<or> n = 1 \<and> ty = 3 \<or> n = 10 \<or> 12 \<le> n \<and> n < 48 \<and> bit a n \<or> bit (properties_encode p) n"
proof -
  have "bit ty n \<longleftrightarrow> n = 0 \<or> n = 1 \<and> ty = 3"
    using assms(3)
  proof
    assume "ty = 3"
    then show ?thesis unfolding \<open>ty = 3\<close> bit_3 by auto
  qed (auto simp: bit_1_iff)
  moreover have "bit (push_bit 10 (1 :: u64)) n \<longleftrightarrow> n = 10"
    unfolding bit_push bit_1_iff by auto
  ultimately show ?thesis
    unfolding raw_entry_def bit_or_iff using bit_addr [OF assms(1,2), of n] by blast
qed

lemma raw_entry_address:
  assumes "a < 2 ^ 48" and "a mod 4096 = 0" and "ty = 1 \<or> ty = 3"
  shows "unat (raw_entry ty a p AND 0x0000fffffffff000) = a"
proof -
  have "raw_entry ty a p AND 0x0000fffffffff000 = word_of_nat a"
    by (rule bit_eqI, unfold bit_and_iff bit_address_mask bit_raw_entry [OF assms] bit_addr [OF assms(1,2)]
        bit_properties) auto
  then show ?thesis using assms(1) by (simp add: usize_max_def)
qed

lemma raw_entry_type:
  assumes "a < 2 ^ 48" and "a mod 4096 = 0" and "ty = 1 \<or> ty = 3"
  shows "raw_entry ty a p AND 3 = ty"
  using assms(3) by (auto simp: and_3 bit_raw_entry [OF assms] bit_properties)

lemma raw_entry_properties:
  assumes "a < 2 ^ 48" and "a mod 4096 = 0" and "ty = 1 \<or> ty = 3"
  shows "properties_decode (raw_entry ty a p) = Some p"
proof -
  have b: "bit (drop_bit k (raw_entry ty a p)) n = bit (raw_entry ty a p) (k + n)" for k n
    by (simp add: bit_drop_bit_eq)
  have "drop_bit 8 (raw_entry ty a p) AND 3 = shareability_encode (shareability p)"
    by (cases "shareability p") (simp_all add: and_3 b bit_raw_entry [OF assms] bit_properties)
  then have s: "shareability_from (drop_bit 8 (raw_entry ty a p) AND 3) = Some (shareability p)"
    by (cases "shareability p") (simp_all add: shareability_from_def)
  have "drop_bit 2 (raw_entry ty a p) AND 7 = kind_encode (kind p)"
    by (cases "kind p") (simp_all add: and_7 b bit_raw_entry [OF assms] bit_properties)
  then have k: "kind_from (drop_bit 2 (raw_entry ty a p) AND 7) = Some (kind p)"
    by (cases "kind p") (simp_all add: kind_from_def)
  show ?thesis
    by (simp add: properties_decode_def s k and_1 b bit_raw_entry [OF assms] bit_properties)
qed

lemma and_fff: "(a :: nat) AND 0xfff = a mod 4096"
  using take_bit_eq_mask [of 12 a] by (simp add: mask_eq_exp_minus_1 take_bit_eq_mod)

lemma entry_makers:
  assumes "a mod 4096 = 0"
  shows "for_block a p = Some (raw_entry 1 a p)" and "for_page a p = Some (raw_entry 3 a p)"
  using assms by (simp_all add: for_block_def for_page_def and_fff raw_entry_def)

lemma entry_decode_raw:
  assumes "a < 2 ^ 48" and "a mod 4096 = 0"
  shows "L \<le> 2 \<Longrightarrow> entry_decode (raw_entry 1 a p) L = Some (Block a)"
    and "entry_decode (raw_entry 3 a p) 3 = Some (DecodedPage a)"
  using raw_entry_address [OF assms, of 1 p] raw_entry_type [OF assms, of 1 p]
    raw_entry_address [OF assms, of 3 p] raw_entry_type [OF assms, of 3 p] assms(1)
  by (simp_all add: entry_decode_def phys_from_usize_def)

lemma entry_decode_table:
  assumes "a < 2 ^ 48" and "a mod 4096 = 0"
  shows "\<exists>e. for_table a = Some e \<and> (L \<noteq> 3 \<longrightarrow> entry_decode e L = Some (Table a))"
proof -
  let ?e = "3 OR (word_of_nat a AND 0x0000fffffffff000) :: u64"
  have "?e AND 0x0000fffffffff000 = word_of_nat a"
    by (rule bit_eqI, unfold bit_and_iff bit_or_iff bit_address_mask bit_3 bit_addr [OF assms]) auto
  then have "unat (?e AND 0x0000fffffffff000) = a"
    using assms(1) by (simp add: usize_max_def)
  moreover have "?e AND 3 = 3" unfolding and_3 bit_or_iff bit_and_iff bit_3 by simp
  ultimately show ?thesis using assms
    by (auto simp: for_table_def and_fff entry_decode_def phys_from_usize_def)
qed

lemma entry_decode_zero [simp]: "entry_decode 0 L = Some Empty"
  by (simp add: entry_decode_def phys_from_usize_def)

text \<open>C24: an entry made for a block or a page decodes, at the levels where the hardware reads it,
  to the same address with the same properties, for every page-aligned address of 48 bits.\<close>

theorem entry_roundtrip:
  assumes "a < 2 ^ 48" and "a mod 4096 = 0"
  shows "(\<exists>e. for_page a p = Some e \<and> entry_decode e 3 = Some (DecodedPage a) \<and> properties_decode e = Some p) \<and>
    (\<exists>e. for_block a p = Some e \<and> (\<forall>L \<le> 2. entry_decode e L = Some (Block a)) \<and> properties_decode e = Some p)"
  using entry_makers [OF assms(2)] entry_decode_raw [OF assms] raw_entry_properties [OF assms] by auto

theorem entry_roundtrip_witness:
  "(\<exists>e. for_page 0x40201000 \<lparr>kind = Device, user_space_access = False, writable = True, executable = False,
      shareability = Cluster\<rparr> = Some e \<and> entry_decode e 3 = Some (DecodedPage 0x40201000)) \<and>
   (\<exists>e. for_block 0x40200000 \<lparr>kind = Device, user_space_access = False, writable = True, executable = False,
      shareability = Cluster\<rparr> = Some e \<and> entry_decode e 2 = Some (Block 0x40200000))"
  using entry_roundtrip [of "0x40201000"] entry_roundtrip [of "0x40200000"] by fastforce

end
