(* ===== verification/Page_Map.thy ===== *)
theory Page_Map
  imports Page_Table Buddy
begin

text \<open>
  Correctness of the page table walker: the shape of a page table in memory (\<open>wf_table\<close> and
  its footprint \<open>foot\<close>), the effect of one written entry, and then of \<^verbatim>\<open>map\<close> and
  \<^verbatim>\<open>unmap\<close> on the translation of every virtual address.  The page allocator is any
  \<open>page_source\<close>.
\<close>

section \<open>Geometry of the tables\<close>

text \<open>Bytes mapped by one entry of a table of level \<open>L\<close>, and by the whole table.\<close>

definition entry_span :: "PageSize \<Rightarrow> usize \<Rightarrow> usize" where
  "entry_span ps L = (case ps of FourKiB \<Rightarrow> 2 ^ (12 + 9 * (3 - L)) | SixteenKiB \<Rightarrow> 2 ^ (14 + 11 * (3 - L)))"

definition table_span :: "PageSize \<Rightarrow> usize \<Rightarrow> usize" where
  "table_span ps L = (if L = 0 then 2 ^ 48 else entry_span ps (L - 1))"

definition idx :: "PageSize \<Rightarrow> usize \<Rightarrow> vaddr \<Rightarrow> usize" where
  "idx ps L p = p mod table_span ps L div entry_span ps L"

definition entries :: "PageSize \<Rightarrow> usize" where
  "entries ps = page_bytes ps div 8"

lemma level_cases: "L \<le> 3 \<Longrightarrow> L = 0 \<or> L = 1 \<or> L = 2 \<or> L = (3 :: nat)"
  by auto

lemma div_mod_swap:
  fixes v :: nat
  assumes "0 < b"
  shows "v div b mod c = v mod (b * c) div b"
  using assms by (simp add: mod_mult2_eq)

lemma bit_range_div: "bit_range msb lsb v = v mod 2 ^ (lsb + (msb - lsb + 1)) div 2 ^ lsb"
  unfolding bit_range_def take_bit_eq_mod drop_bit_eq_div power_add [of 2 lsb]
  by (rule div_mod_swap) simp

lemma index_for_level_idx:
  assumes "L \<le> 3"
  shows "index_for_level p L ps = Some (idx ps L p)"
  using level_cases [OF assms]
  by (cases ps; elim disjE)
    (simp_all add: index_for_level_def idx_def bit_range_div table_span_def entry_span_def)

lemma span_pos [simp]: "0 < entry_span ps L" "0 < table_span ps L"
  by (cases ps, simp_all add: entry_span_def table_span_def)+

lemma table_span_Suc [simp]: "table_span ps (Suc L) = entry_span ps L"
  by (simp add: table_span_def)

lemma span_dvd_table:
  assumes "L \<le> 3"
  shows "entry_span ps L dvd table_span ps L"
  using level_cases [OF assms]
  by (cases ps; elim disjE) (simp_all add: table_span_def entry_span_def)

lemma table_dvd: "table_span ps L dvd 2 ^ 48"
proof (cases "L = 0")
  case False
  then have "12 + 9 * (3 - (L - 1)) \<le> (48 :: nat)" "14 + 11 * (3 - (L - 1)) \<le> (48 :: nat)" by simp_all
  then show ?thesis using False
    by (cases ps) (simp_all only: table_span_def entry_span_def PageSize.case if_False le_imp_power_dvd)
qed (simp add: table_span_def)

lemma entry_span_dvd: "L \<le> L' \<Longrightarrow> entry_span ps L' dvd entry_span ps L"
  by (cases ps) (auto simp: entry_span_def intro!: le_imp_power_dvd)

lemma idx_less:
  assumes "L \<le> 3"
  shows "idx ps L p < entries ps"
proof -
  have "table_span ps L \<le> entries ps * entry_span ps L"
    using level_cases [OF assms]
    by (cases ps; elim disjE) (simp_all add: table_span_def entry_span_def entries_def)
  then have "p mod table_span ps L < entries ps * entry_span ps L"
    by (meson less_le_trans mod_less_divisor span_pos(2))
  then show ?thesis unfolding idx_def by (simp add: div_less_iff_less_mult)
qed

text \<open>The low 48 bits of an address, and which part of the address space a table covers.\<close>

definition low :: "vaddr \<Rightarrow> usize" where
  "low p = p mod 2 ^ 48"

lemma low_less: "low p < 2 ^ 48"
  by (simp add: low_def)

lemma low_mod: "b dvd 2 ^ 48 \<Longrightarrow> low p mod b = p mod b"
  by (simp add: low_def mod_mod_cancel)

lemma idx_low: "idx ps L (low p) = idx ps L p"
  using table_dvd [of ps L] by (simp add: idx_def low_mod)

lemma idx_eq_iff:
  assumes "L \<le> 3" and "x div table_span ps L = y div table_span ps L"
  shows "idx ps L x = idx ps L y \<longleftrightarrow> x div entry_span ps L = y div entry_span ps L"
proof -
  obtain c where c: "table_span ps L = entry_span ps L * c" using span_dvd_table [OF assms(1)] by blast
  have d: "z div entry_span ps L = z div table_span ps L * c + idx ps L z" for z
  proof -
    have "z div entry_span ps L mod c = idx ps L z"
      unfolding idx_def c by (rule div_mod_swap) simp
    moreover have "z div entry_span ps L div c = z div table_span ps L"
      unfolding c by (simp add: div_mult2_eq)
    ultimately show ?thesis using div_mult_mod_eq [of "z div entry_span ps L" c] by simp
  qed
  show ?thesis using d [of x] d [of y] assms(2) by simp
qed

lemma offset_mask_mod:
  assumes "offset_mask ps L = Some mk"
  shows "p AND mk = p mod entry_span ps L" and "L \<le> 3"
proof -
  have m: "(p :: nat) AND (2 ^ n - 1) = p mod 2 ^ n" for n
    using take_bit_eq_mask [of n p] by (simp add: mask_eq_exp_minus_1 take_bit_eq_mod)
  have "\<exists>n. entry_span ps L = 2 ^ n" by (cases ps) (auto simp: entry_span_def)
  then obtain n where n: "entry_span ps L = 2 ^ n" ..
  have "mk = entry_span ps L - 1"
    using assms by (cases ps) (auto simp: offset_mask_def entry_span_def split: if_splits)
  then show "p AND mk = p mod entry_span ps L" using m [of n] n by simp
  show "L \<le> 3" using assms by (cases ps) (auto simp: offset_mask_def split: if_splits)
qed

section \<open>Tables in memory\<close>

definition table_bytes :: "PageSize \<Rightarrow> ptr \<Rightarrow> usize set" where
  "table_bytes ps t = {t ..< t + page_bytes ps}"

definition table_ok :: "PageSize \<Rightarrow> ptr \<Rightarrow> bool" where
  "table_ok ps t \<longleftrightarrow> 0xffff000000000000 \<le> t \<and> t + page_bytes ps \<le> 2 ^ 64 \<and> t mod page_bytes ps = 0"

text \<open>The bytes of all tables reachable from the table \<open>t\<close> of level \<open>L\<close>.\<close>

function foot :: "PageSize \<Rightarrow> mem \<Rightarrow> usize \<Rightarrow> ptr \<Rightarrow> usize set" where
  "foot ps m L t = table_bytes ps t \<union>
     (if L < 3 then \<Union>i \<in> {..<entries ps}.
        (case entry_decode (m (t + 8 * i)) L of
           Some (Table q) \<Rightarrow> foot ps m (Suc L) (ptr_from_phys q)
         | _ \<Rightarrow> {})
      else {})"
  by pat_completeness auto
termination
  by (relation "measure (\<lambda>(ps, m, L, t). 3 - L)") auto

declare foot.simps [simp del]

definition child_foot :: "PageSize \<Rightarrow> mem \<Rightarrow> usize \<Rightarrow> ptr \<Rightarrow> usize \<Rightarrow> usize set" where
  "child_foot ps m L t i =
     (case entry_decode (m (t + 8 * i)) L of
        Some (Table q) \<Rightarrow> foot ps m (Suc L) (ptr_from_phys q)
      | _ \<Rightarrow> {})"

text \<open>A well-formed table: every entry decodes, leaves appear only at the levels that have them,
  sub-tables are well-formed and no byte belongs to two tables.\<close>

function wf_table :: "PageSize \<Rightarrow> mem \<Rightarrow> usize \<Rightarrow> ptr \<Rightarrow> bool" where
  "wf_table ps m L t \<longleftrightarrow>
     table_ok ps t \<and>
     (\<forall>i < entries ps.
        (case entry_decode (m (t + 8 * i)) L of
           Some Empty \<Rightarrow> True
         | Some (Table q) \<Rightarrow> if L < 3 then wf_table ps m (Suc L) (ptr_from_phys q) else False
         | Some _ \<Rightarrow> offset_mask ps L \<noteq> None
         | None \<Rightarrow> False) \<and>
        child_foot ps m L t i \<inter> table_bytes ps t = {} \<and>
        (\<forall>j < entries ps. i \<noteq> j \<longrightarrow> child_foot ps m L t i \<inter> child_foot ps m L t j = {}))"
  by pat_completeness auto
termination
  by (relation "measure (\<lambda>(ps, m, L, t). 3 - L)") auto

declare wf_table.simps [simp del]

lemma entry_decode_3: "entry_decode e 3 \<noteq> Some (Table q)"
  by (auto simp: entry_decode_def bind_eq_Some_conv Let_def split: if_splits)

lemma entry_decode_addr:
  assumes "entry_decode e L = Some d" and "d = Table a \<or> d = Block a \<or> d = DecodedPage a"
  shows "a < 2 ^ 48" and "a mod 4096 = 0"
proof -
  define w where "w = e AND 0x0000fffffffff000"
  have a: "a = unat w"
    using assms by (auto simp: w_def entry_decode_def phys_from_usize_def Let_def split: if_splits)
  have tb: "unat (take_bit n w) = take_bit n (unat w)" for n by (rule unsigned_take_bit_eq)
  have "take_bit 48 w = w"
    unfolding w_def by (rule bit_eqI, unfold bit_take_bit_iff bit_and_iff bit_address_mask) auto
  then have "take_bit 48 (unat w) = unat w" using tb [of 48] by simp
  then show "a < 2 ^ 48" using a take_bit_nat_less_exp [of 48 "unat w"] by simp
  have "take_bit 12 w = 0"
    unfolding w_def by (rule bit_eqI, unfold bit_take_bit_iff bit_and_iff bit_address_mask) auto
  then have "take_bit 12 (unat w) = 0" using tb [of 12] by simp
  then show "a mod 4096 = 0" using a by (simp add: take_bit_eq_mod)
qed

lemma child_foot_3: "child_foot ps m 3 t i = {}"
  using entry_decode_3 [of "m (t + 8 * i)"]
  by (auto simp: child_foot_def split: option.splits DecodedEntry.splits)

lemma foot_children:
  assumes "L \<le> 3"
  shows "foot ps m L t = table_bytes ps t \<union> (\<Union>i \<in> {..<entries ps}. child_foot ps m L t i)"
proof (cases "L = 3")
  case True
  then show ?thesis by (simp add: foot.simps [of ps m 3] child_foot_3)
next
  case False
  then show ?thesis using assms by (subst foot.simps) (simp add: child_foot_def)
qed

text \<open>What a well-formed table allows in an entry of level \<open>L\<close>.\<close>

definition entry_ok :: "PageSize \<Rightarrow> mem \<Rightarrow> usize \<Rightarrow> u64 \<Rightarrow> bool" where
  "entry_ok ps m L e \<longleftrightarrow>
     (case entry_decode e L of
        Some Empty \<Rightarrow> True
      | Some (Table q) \<Rightarrow> if L < 3 then wf_table ps m (Suc L) (ptr_from_phys q) else False
      | Some _ \<Rightarrow> offset_mask ps L \<noteq> None
      | None \<Rightarrow> False)"

lemma wf_table_entries:
  "wf_table ps m L t \<longleftrightarrow>
     table_ok ps t \<and>
     (\<forall>i < entries ps.
        entry_ok ps m L (m (t + 8 * i)) \<and> child_foot ps m L t i \<inter> table_bytes ps t = {} \<and>
        (\<forall>j < entries ps. i \<noteq> j \<longrightarrow> child_foot ps m L t i \<inter> child_foot ps m L t j = {}))"
  unfolding entry_ok_def by (rule wf_table.simps)

lemma wf_entry_ok: "wf_table ps m L t \<Longrightarrow> i < entries ps \<Longrightarrow> entry_ok ps m L (m (t + 8 * i))"
  by (subst (asm) wf_table_entries) blast

lemma entry_in_table: "i < entries ps \<Longrightarrow> t + 8 * i \<in> table_bytes ps t"
  by (cases ps) (auto simp: table_bytes_def entries_def)

lemma foot_frame:
  assumes "L \<le> 3" and "\<And>x. x \<in> foot ps m L t \<Longrightarrow> m' x = m x"
  shows "foot ps m' L t = foot ps m L t"
  using assms
proof (induction "3 - L" arbitrary: L t)
  case 0
  then have "L = 3" by simp
  then show ?case by (simp add: foot.simps [of ps _ 3])
next
  case (Suc n)
  have "child_foot ps m' L t i = child_foot ps m L t i" if i: "i < entries ps" for i
  proof -
    have e: "m' (t + 8 * i) = m (t + 8 * i)"
      using Suc.prems entry_in_table [OF i] by (simp add: foot_children)
    have sub: "child_foot ps m L t i \<subseteq> foot ps m L t"
      using i Suc.prems(1) by (auto simp: foot_children)
    show ?thesis
    proof (cases "\<exists>q. entry_decode (m (t + 8 * i)) L = Some (Table q)")
      case True
      then obtain q where q: "entry_decode (m (t + 8 * i)) L = Some (Table q)" ..
      have "foot ps m' (Suc L) (ptr_from_phys q) = foot ps m (Suc L) (ptr_from_phys q)"
        using Suc sub q by (intro Suc.hyps) (auto simp: child_foot_def)
      then show ?thesis using e q by (simp add: child_foot_def)
    next
      case False
      then show ?thesis using e by (auto simp: child_foot_def split: option.splits DecodedEntry.splits)
    qed
  qed
  then show ?case using Suc.prems(1) by (simp add: foot_children)
qed

lemma child_foot_frame:
  assumes "L \<le> 3" and "m' (t + 8 * i) = m (t + 8 * i)" and "\<And>x. x \<in> child_foot ps m L t i \<Longrightarrow> m' x = m x"
  shows "child_foot ps m' L t i = child_foot ps m L t i"
proof (cases "\<exists>q. entry_decode (m (t + 8 * i)) L = Some (Table q)")
  case True
  then obtain q where q: "entry_decode (m (t + 8 * i)) L = Some (Table q)" ..
  then have "L < 3" using assms(1) entry_decode_3 by (cases "L = 3") auto
  then have "foot ps m' (Suc L) (ptr_from_phys q) = foot ps m (Suc L) (ptr_from_phys q)"
    using q assms(3) by (intro foot_frame) (auto simp: child_foot_def)
  then show ?thesis using assms(2) q by (simp add: child_foot_def)
next
  case False
  then show ?thesis using assms(2) by (auto simp: child_foot_def split: option.splits DecodedEntry.splits)
qed

lemma wf_table_frame:
  assumes "L \<le> 3" and "wf_table ps m L t" and "\<And>x. x \<in> foot ps m L t \<Longrightarrow> m' x = m x"
  shows "wf_table ps m' L t"
  using assms
proof (induction "3 - L" arbitrary: L t rule: less_induct)
  case less
  note wfe = less.prems(2) [unfolded wf_table_entries [of ps m L t]]
  have e: "m' (t + 8 * i) = m (t + 8 * i)" if "i < entries ps" for i
    using less.prems entry_in_table [OF that] by (simp add: foot_children)
  have kid: "m' x = m x" if "i < entries ps" "x \<in> child_foot ps m L t i" for i x
    using that less.prems by (auto simp: foot_children)
  have cf: "child_foot ps m' L t i = child_foot ps m L t i" if "i < entries ps" for i
    using that less.prems(1) e kid by (intro child_foot_frame) auto
  have ok: "entry_ok ps m' L (m' (t + 8 * i))" if i: "i < entries ps" for i
  proof (cases "\<exists>q. entry_decode (m (t + 8 * i)) L = Some (Table q)")
    case True
    then obtain q where q: "entry_decode (m (t + 8 * i)) L = Some (Table q)" ..
    then have L: "L < 3" using less.prems(1) entry_decode_3 by (cases "L = 3") auto
    have "wf_table ps m' (Suc L) (ptr_from_phys q)"
    proof (rule less.hyps)
      show "3 - Suc L < 3 - L" "Suc L \<le> 3" using L by auto
      show "wf_table ps m (Suc L) (ptr_from_phys q)" using wfe i q L by (auto simp: entry_ok_def)
      show "m' x = m x" if "x \<in> foot ps m (Suc L) (ptr_from_phys q)" for x
        using that kid [OF i] q by (simp add: child_foot_def)
    qed
    then show ?thesis using e [OF i] q L by (simp add: entry_ok_def)
  next
    case False
    have "entry_ok ps m L (m (t + 8 * i))" using wfe i by blast
    with False show ?thesis using e [OF i]
      by (auto simp: entry_ok_def split: option.splits DecodedEntry.splits)
  qed
  show ?case unfolding wf_table_entries [of ps m' L t] using wfe ok cf by auto
qed

lemma entry_sub_table:
  assumes "entry_ok ps m L e" and "entry_decode e L = Some (Table q)"
  shows "L < 3" and "wf_table ps m (Suc L) (ptr_from_phys q)"
  using assms by (auto simp: entry_ok_def split: if_splits)

lemma translate_frame:
  assumes "L \<le> 3" and "\<And>x. x \<in> foot ps m L t \<Longrightarrow> m' x = m x"
  shows "translate ps m' p L t = translate ps m p L t"
  using assms
proof (induction "4 - L" arbitrary: L t)
  case (Suc n)
  let ?e = "t + 8 * idx ps L p"
  have i: "idx ps L p < entries ps" using Suc.prems(1) by (rule idx_less)
  have e: "m' ?e = m ?e" using Suc.prems entry_in_table [OF i] by (simp add: foot_children)
  have "translate ps m' p (Suc L) (ptr_from_phys q) = translate ps m p (Suc L) (ptr_from_phys q)"
    if q: "entry_decode (m ?e) L = Some (Table q)" for q
  proof (rule Suc.hyps)
    show "n = 4 - Suc L" "Suc L \<le> 3" using Suc q entry_decode_3 by (cases "L = 3"; auto)+
    show "m' x = m x" if "x \<in> foot ps m (Suc L) (ptr_from_phys q)" for x
      using that q i Suc.prems by (force simp: foot_children [of L] child_foot_def)
  qed
  then show ?case
    using Suc.prems(1) e index_for_level_idx [of L p ps]
    by (cases "entry_decode (m ?e) L")
      (auto simp: translate.simps [of ps _ p L] add_p_def split: DecodedEntry.splits)
qed simp

lemma translate_at:
  assumes "L \<le> 3" and "wf_table ps m L t"
  shows "translate ps m p L t =
    (case entry_decode (m (t + 8 * idx ps L p)) L of
       Some Empty \<Rightarrow> Some None
     | Some (Table q) \<Rightarrow> translate ps m p (Suc L) (ptr_from_phys q)
     | Some (Block b) \<Rightarrow> Some (Some (b + p mod entry_span ps L))
     | Some (DecodedPage b) \<Rightarrow> Some (Some (b + p mod entry_span ps L))
     | None \<Rightarrow> None)"
proof -
  let ?e = "t + 8 * idx ps L p"
  have i: "idx ps L p < entries ps" using assms(1) by (rule idx_less)
  have "?e \<le> usize_max"
    using entry_in_table [OF i, of t] assms(2) unfolding wf_table_entries [of ps m L t]
    by (auto simp: table_ok_def table_bytes_def usize_max_def)
  then have ptr: "add_p t (8 * idx ps L p) = Some ?e" by simp
  have leaf: "(do { mk \<leftarrow> offset_mask ps L; a \<leftarrow> phys_byte_add b (p AND mk); Some (Some a) }) =
      Some (Some (b + p mod entry_span ps L))"
    if "entry_decode (m ?e) L = Some d" "d = Block b \<or> d = DecodedPage b" for d b
  proof -
    have "offset_mask ps L \<noteq> None"
      using wf_entry_ok [OF assms(2) i] that by (auto simp: entry_ok_def)
    then obtain mk where mk: "offset_mask ps L = Some mk" by auto
    have "p mod entry_span ps L < 2 ^ 48"
      using table_dvd [of ps "Suc L"] by (metis dvd_imp_le less_le_trans mod_less_divisor span_pos(1) table_span_Suc zero_less_numeral zero_less_power)
    then have "b + p mod entry_span ps L \<le> usize_max"
      using entry_decode_addr(1) [OF that(1)] that(2) by (auto simp: usize_max_def)
    then show ?thesis using mk offset_mask_mod(1) [OF mk] by (simp add: phys_byte_add_def add_p_def)
  qed
  show ?thesis
    using assms(1) leaf
    by (cases "entry_decode (m ?e) L")
      (auto simp: translate.simps [of ps m p L] index_for_level_idx ptr split: DecodedEntry.splits)
qed

lemma translate_total:
  assumes "L \<le> 3" and "wf_table ps m L t"
  shows "\<exists>r. translate ps m p L t = Some r"
  using assms
proof (induction "3 - L" arbitrary: L t rule: less_induct)
  case less
  have ok: "entry_ok ps m L (m (t + 8 * idx ps L p))"
    using less.prems idx_less by (intro wf_entry_ok) auto
  then obtain d where d: "entry_decode (m (t + 8 * idx ps L p)) L = Some d"
    by (auto simp: entry_ok_def split: option.splits)
  show ?case
  proof (cases d)
    case (Table q)
    with d have q: "entry_decode (m (t + 8 * idx ps L p)) L = Some (Table q)" by simp
    note sub = entry_sub_table [OF ok q]
    have "\<exists>r. translate ps m p (Suc L) (ptr_from_phys q) = Some r"
      using sub by (intro less.hyps) auto
    then show ?thesis using q translate_at [OF less.prems] by simp
  qed (use d translate_at [OF less.prems] in simp_all)
qed

text \<open>The address \<open>p\<close> is mapped by a block that is larger than the entries of level \<open>e\<close>: the walk from the table \<open>t\<close> of level
  \<open>L\<close> meets a block before it gets to level \<open>e\<close>.\<close>

function large_block :: "PageSize \<Rightarrow> mem \<Rightarrow> usize \<Rightarrow> vaddr \<Rightarrow> usize \<Rightarrow> ptr \<Rightarrow> bool" where
  "large_block ps m e p L t \<longleftrightarrow> L < e \<and>
     (case entry_decode (m (t + 8 * idx ps L p)) L of
        Some (Table q) \<Rightarrow> if L < e then large_block ps m e p (Suc L) (ptr_from_phys q) else False
      | Some Empty \<Rightarrow> False
      | Some _ \<Rightarrow> True
      | None \<Rightarrow> False)"
  by pat_completeness auto
termination
  by (relation "measure (\<lambda>(ps, m, e, p, L, t). e - L)") auto

declare large_block.simps [simp del]

lemma large_block_end: "\<not> large_block ps m e p e t"
  by (simp add: large_block.simps [of ps m e p e])

lemma large_block_table:
  "entry_decode (m (t + 8 * idx ps L p)) L = Some (Table q) \<Longrightarrow> L < e \<Longrightarrow>
     large_block ps m e p L t = large_block ps m e p (Suc L) (ptr_from_phys q)"
  by (simp add: large_block.simps [of ps m e p L t])

lemma large_block_empty: "entry_decode (m (t + 8 * idx ps L p)) L = Some Empty \<Longrightarrow> \<not> large_block ps m e p L t"
  by (simp add: large_block.simps [of ps m e p L t])

lemma large_block_cong:
  assumes "m' (t + 8 * idx ps L p) = m (t + 8 * idx ps L p)"
    and "\<And>q. entry_decode (m (t + 8 * idx ps L p)) L = Some (Table q) \<Longrightarrow>
      large_block ps m' e p (Suc L) (ptr_from_phys q) = large_block ps m e p (Suc L) (ptr_from_phys q)"
  shows "large_block ps m' e p L t = large_block ps m e p L t"
  using assms by (subst (1 2) large_block.simps) (auto split: option.splits DecodedEntry.splits)

lemma large_block_frame:
  assumes "L \<le> 3" and "\<And>x. x \<in> foot ps m L t \<Longrightarrow> m' x = m x"
  shows "large_block ps m' e p L t = large_block ps m e p L t"
  using assms
proof (induction "4 - L" arbitrary: L t)
  case (Suc n)
  have i: "idx ps L p < entries ps" using Suc.prems(1) by (rule idx_less)
  show ?case
  proof (rule large_block_cong)
    show "m' (t + 8 * idx ps L p) = m (t + 8 * idx ps L p)" using Suc.prems entry_in_table [OF i] by (simp add: foot_children)
    fix q assume q: "entry_decode (m (t + 8 * idx ps L p)) L = Some (Table q)"
    show "large_block ps m' e p (Suc L) (ptr_from_phys q) = large_block ps m e p (Suc L) (ptr_from_phys q)"
    proof (rule Suc.hyps)
      show "n = 4 - Suc L" "Suc L \<le> 3" using Suc q entry_decode_3 by (cases "L = 3"; auto)+
      show "m' x = m x" if "x \<in> foot ps m (Suc L) (ptr_from_phys q)" for x
        using that q i Suc.prems by (force simp: foot_children [of L] child_foot_def)
    qed
  qed
qed simp

section \<open>Changing one entry\<close>

lemma entry_ok_frame:
  assumes "entry_ok ps m L (m (t + 8 * i))" and "\<And>x. x \<in> child_foot ps m L t i \<Longrightarrow> m' x = m x"
  shows "entry_ok ps m' L (m (t + 8 * i))"
proof (cases "\<exists>q. entry_decode (m (t + 8 * i)) L = Some (Table q)")
  case True
  then obtain q where q: "entry_decode (m (t + 8 * i)) L = Some (Table q)" ..
  note sub = entry_sub_table [OF assms(1) q]
  have "wf_table ps m' (Suc L) (ptr_from_phys q)"
  proof (rule wf_table_frame)
    show "Suc L \<le> 3" using sub(1) by simp
    show "wf_table ps m (Suc L) (ptr_from_phys q)" by (rule sub(2))
    show "m' x = m x" if "x \<in> foot ps m (Suc L) (ptr_from_phys q)" for x
      using that assms(2) q by (simp add: child_foot_def)
  qed
  then show ?thesis using q sub(1) by (simp add: entry_ok_def)
next
  case False
  then show ?thesis using assms(1) by (auto simp: entry_ok_def split: option.splits DecodedEntry.splits)
qed

lemma update_entry:
  assumes wf: "wf_table ps m L t" and L: "L \<le> 3" and i: "i < entries ps"
    and same: "\<And>x. x \<in> foot ps m L t \<Longrightarrow> x \<notin> child_foot ps m L t i \<Longrightarrow> x \<noteq> t + 8 * i \<Longrightarrow> m' x = m x"
    and new: "entry_ok ps m' L (m' (t + 8 * i))"
    and sep: "child_foot ps m' L t i \<inter> table_bytes ps t = {}"
      "\<And>j. j < entries ps \<Longrightarrow> j \<noteq> i \<Longrightarrow> child_foot ps m' L t i \<inter> child_foot ps m L t j = {}"
  shows "wf_table ps m' L t"
    and "foot ps m' L t \<subseteq> foot ps m L t \<union> child_foot ps m' L t i"
    and "idx ps L p \<noteq> i \<Longrightarrow> translate ps m' p L t = translate ps m p L t"
    and "j < entries ps \<Longrightarrow> j \<noteq> i \<Longrightarrow> child_foot ps m' L t j = child_foot ps m L t j"
    and "idx ps L p \<noteq> i \<Longrightarrow> large_block ps m' e p L t = large_block ps m e p L t"
proof -
  note wfe = wf [unfolded wf_table_entries [of ps m L t]]
  have cell: "m' (t + 8 * j) = m (t + 8 * j)" if "j < entries ps" "j \<noteq> i" for j
    using that wfe i entry_in_table [OF that(1), of t] L by (intro same) (auto simp: foot_children)
  have kid: "m' x = m x" if "x \<in> child_foot ps m L t j" "j < entries ps" "j \<noteq> i" for x j
  proof (rule same)
    show "x \<in> foot ps m L t" using that L by (auto simp: foot_children)
    show "x \<notin> child_foot ps m L t i" using that wfe i by blast
    show "x \<noteq> t + 8 * i" using that wfe i entry_in_table [OF i, of t] by blast
  qed
  have cf: "child_foot ps m' L t j = child_foot ps m L t j" if "j < entries ps" "j \<noteq> i" for j
    using that L cell kid by (intro child_foot_frame) auto
  then show "j < entries ps \<Longrightarrow> j \<noteq> i \<Longrightarrow> child_foot ps m' L t j = child_foot ps m L t j" .
  have ok: "entry_ok ps m' L (m' (t + 8 * j))" if "j < entries ps" for j
  proof (cases "j = i")
    case False
    have "entry_ok ps m' L (m (t + 8 * j))"
      using that False wfe kid by (intro entry_ok_frame [of ps m L t j m']) blast+
    then show ?thesis using cell [OF that False] by simp
  qed (simp add: new)
  show "wf_table ps m' L t"
    unfolding wf_table_entries [of ps m' L t]
  proof (intro conjI allI impI)
    fix j k assume j: "j < entries ps" and k: "k < entries ps" "j \<noteq> k"
    show "child_foot ps m' L t j \<inter> child_foot ps m' L t k = {}"
      using j k wfe cf sep(2) by (cases "j = i"; cases "k = i") (auto simp: Int_commute)
  next
    fix j assume j: "j < entries ps"
    show "child_foot ps m' L t j \<inter> table_bytes ps t = {}"
      using j wfe cf sep(1) by (cases "j = i") auto
  qed (use wfe ok in auto)
  show "foot ps m' L t \<subseteq> foot ps m L t \<union> child_foot ps m' L t i"
  proof
    fix x assume "x \<in> foot ps m' L t"
    then consider "x \<in> table_bytes ps t" | k where "k < entries ps" "x \<in> child_foot ps m' L t k"
      using L by (auto simp: foot_children)
    then show "x \<in> foot ps m L t \<union> child_foot ps m' L t i"
      using L cf by cases (auto simp: foot_children)
  qed
  assume p: "idx ps L p \<noteq> i"
  let ?k = "idx ps L p"
  have k: "?k < entries ps" using L by (rule idx_less)
  show "large_block ps m' e p L t = large_block ps m e p L t"
  proof (rule large_block_cong [where m' = m' and m = m, OF cell [OF k p]])
    fix q assume q: "entry_decode (m (t + 8 * ?k)) L = Some (Table q)"
    show "large_block ps m' e p (Suc L) (ptr_from_phys q) = large_block ps m e p (Suc L) (ptr_from_phys q)"
    proof (rule large_block_frame)
      show "Suc L \<le> 3" using L q entry_decode_3 by (cases "L = 3") auto
      show "m' x = m x" if "x \<in> foot ps m (Suc L) (ptr_from_phys q)" for x
        using that q k p by (intro kid [of _ ?k]) (auto simp: child_foot_def)
    qed
  qed
  have "translate ps m' p (Suc L) (ptr_from_phys q) = translate ps m p (Suc L) (ptr_from_phys q)"
    if q: "entry_decode (m (t + 8 * ?k)) L = Some (Table q)" for q
  proof (rule translate_frame)
    show "Suc L \<le> 3" using L q entry_decode_3 by (cases "L = 3") auto
    show "m' x = m x" if "x \<in> foot ps m (Suc L) (ptr_from_phys q)" for x
      using that q k p by (intro kid [of _ ?k]) (auto simp: child_foot_def)
  qed
  then show "translate ps m' p L t = translate ps m p L t"
    using cell [OF k p] translate_at [OF L wf] translate_at [OF L \<open>wf_table ps m' L t\<close>]
    by (cases "entry_decode (m (t + 8 * ?k)) L") (auto split: DecodedEntry.splits)
qed

section \<open>What a walk does\<close>

text \<open>The effect of a walk below the table \<open>t\<close> of level \<open>L\<close>, which covers the low
  addresses \<open>x\<close> with \<open>x div table_span = c\<close>: the addresses from \<open>lo\<close> up to
  \<open>hi\<close> now translate to what \<open>N\<close> says (or, after an error, may still translate as
  before) and all the others translate as before.\<close>

definition effect :: "PageSize \<Rightarrow> (usize \<Rightarrow> paddr option) \<Rightarrow> usize \<Rightarrow> ptr \<Rightarrow> usize \<Rightarrow> usize \<Rightarrow> usize \<Rightarrow> bool \<Rightarrow>
    mem \<Rightarrow> mem \<Rightarrow> bool" where
  "effect ps N L t c lo hi ok m m' \<longleftrightarrow>
     (\<forall>p. low p div table_span ps L = c \<longrightarrow>
        (if lo \<le> low p \<and> low p < hi
         then translate ps m' p L t = Some (N (low p)) \<or>
              \<not> ok \<and> translate ps m' p L t = translate ps m p L t
         else translate ps m' p L t = translate ps m p L t))"

lemma effect_unchanged:
  assumes "\<And>p. translate ps m' p L t = translate ps m p L t" and "ok \<longrightarrow> hi \<le> lo"
  shows "effect ps N L t c lo hi ok m m'"
  using assms by (auto simp: effect_def)

lemma effect_trans:
  assumes "effect ps N L t c lo mid True m m1" and "effect ps N L t c mid hi ok m1 m2"
    and "lo \<le> mid" and "mid \<le> hi"
  shows "effect ps N L t c lo hi ok m m2"
  unfolding effect_def
proof (intro allI impI)
  fix p assume c: "low p div table_span ps L = c"
  let ?x = "low p"
  have 1: "if lo \<le> ?x \<and> ?x < mid then translate ps m1 p L t = Some (N ?x)
      else translate ps m1 p L t = translate ps m p L t"
    using assms(1) c unfolding effect_def by auto
  have 2: "if mid \<le> ?x \<and> ?x < hi
      then translate ps m2 p L t = Some (N ?x) \<or> \<not> ok \<and> translate ps m2 p L t = translate ps m1 p L t
      else translate ps m2 p L t = translate ps m1 p L t"
    using assms(2) c unfolding effect_def by blast
  show "if lo \<le> ?x \<and> ?x < hi
      then translate ps m2 p L t = Some (N ?x) \<or> \<not> ok \<and> translate ps m2 p L t = translate ps m p L t
      else translate ps m2 p L t = translate ps m p L t"
    using 1 2 assms(3,4) by (cases "?x < mid"; cases "lo \<le> ?x"; cases "?x < hi") auto
qed

lemma effect_fail:
  assumes "effect ps N L t c lo mid ok m m1" and "mid \<le> hi"
  shows "effect ps N L t c lo hi False m m1"
  unfolding effect_def
proof (intro allI impI)
  fix p assume c: "low p div table_span ps L = c"
  let ?x = "low p"
  have "if lo \<le> ?x \<and> ?x < mid
      then translate ps m1 p L t = Some (N ?x) \<or> \<not> ok \<and> translate ps m1 p L t = translate ps m p L t
      else translate ps m1 p L t = translate ps m p L t"
    using assms(1) c unfolding effect_def by blast
  then show "if lo \<le> ?x \<and> ?x < hi
      then translate ps m1 p L t = Some (N ?x) \<or> \<not> False \<and> translate ps m1 p L t = translate ps m p L t
      else translate ps m1 p L t = translate ps m p L t"
    using assms(2) by (auto split: if_splits)
qed

text \<open>What a walk keeps: the tables stay well-formed, grow only by pages taken from the pool (not at all when no tables are
  created), and nothing but the tables and the pool is written.  The same addresses are mapped by blocks larger than
  those of level \<open>e\<close>.\<close>

definition kept :: "('s \<Rightarrow> mem \<Rightarrow> usize set \<Rightarrow> bool) \<Rightarrow> ('s \<Rightarrow> PageSize) \<Rightarrow> PageSize \<Rightarrow> bool \<Rightarrow> usize \<Rightarrow> usize \<Rightarrow> ptr \<Rightarrow>
    's \<Rightarrow> mem \<Rightarrow> usize set \<Rightarrow> 's \<Rightarrow> mem \<Rightarrow> usize set \<Rightarrow> bool" where
  "kept pool psize ps cr e L t s m P s' m' P' \<longleftrightarrow>
     (cr \<or> s' = s \<and> P' = P) \<and> (\<forall>p. large_block ps m' e p L t = large_block ps m e p L t) \<and>
     pool s' m' P' \<and> P' \<subseteq> P \<and> psize s' = psize s \<and> wf_table ps m' L t \<and>
     foot ps m' L t \<subseteq> foot ps m L t \<union> (P - P') \<and>
     (\<forall>x. x \<notin> foot ps m L t \<union> P \<longrightarrow> m' x = m x)"

lemma kept_refl: "pool s m P \<Longrightarrow> wf_table ps m L t \<Longrightarrow> kept pool psize ps cr e L t s m P s m P"
  by (auto simp: kept_def)

lemma kept_trans:
  assumes "kept pool psize ps cr e L t s m P s1 m1 P1" and "kept pool psize ps cr e L t s1 m1 P1 s2 m2 P2"
  shows "kept pool psize ps cr e L t s m P s2 m2 P2"
proof -
  have f1: "foot ps m1 L t \<subseteq> foot ps m L t \<union> (P - P1)" and f2: "foot ps m2 L t \<subseteq> foot ps m1 L t \<union> (P1 - P2)"
    and P: "P1 \<subseteq> P" "P2 \<subseteq> P1"
    using assms by (auto simp: kept_def)
  have "m2 x = m x" if "x \<notin> foot ps m L t \<union> P" for x
  proof -
    have "x \<notin> foot ps m1 L t \<union> P1" using that f1 P by blast
    then show ?thesis using assms that by (simp add: kept_def)
  qed
  moreover have "foot ps m2 L t \<subseteq> foot ps m L t \<union> (P - P2)" using f1 f2 P by blast
  ultimately show ?thesis using assms P unfolding kept_def by auto
qed

lemma kept_disjoint:
  "kept pool psize ps cr e L t s m P s' m' P' \<Longrightarrow> foot ps m L t \<inter> P = {} \<Longrightarrow> foot ps m' L t \<inter> P' = {}"
  by (auto simp: kept_def)

text \<open>The callback: at the end level \<open>e\<close> it writes one entry, which maps the block according
  to \<open>g\<close>.\<close>

definition writes :: "PageSize \<Rightarrow> usize \<Rightarrow> (ptr \<Rightarrow> paddr \<Rightarrow> mem \<Rightarrow> ((PtError + unit) \<times> mem) panics) \<Rightarrow> paddr \<Rightarrow>
    (usize \<Rightarrow> paddr option) \<Rightarrow> bool" where
  "writes ps e f a g \<longleftrightarrow>
     (\<forall>x m. \<exists>v. f x a m = Some (Inr (), m(x := v)) \<and>
        (case entry_decode v e of
           Some Empty \<Rightarrow> (\<forall>q < entry_span ps e. g q = None)
         | Some (Block b) \<Rightarrow> offset_mask ps e \<noteq> None \<and> (\<forall>q < entry_span ps e. g q = Some (b + q))
         | Some (DecodedPage b) \<Rightarrow> offset_mask ps e \<noteq> None \<and> (\<forall>q < entry_span ps e. g q = Some (b + q))
         | _ \<Rightarrow> False))"

lemma span_block:
  fixes x y b :: nat
  assumes "0 < b" and "y mod b = 0"
  shows "y \<le> x \<and> x < y + b \<longleftrightarrow> x div b = y div b"
proof
  assume "x div b = y div b"
  then have "x = y + x mod b" using div_mult_mod_eq [of x b] div_mult_mod_eq [of y b] assms(2) by simp
  then show "y \<le> x \<and> x < y + b" using assms(1) by (metis le_add1 mod_less_divisor nat_add_left_cancel_less)
next
  assume "y \<le> x \<and> x < y + b"
  then obtain r where "x = y + r" "r < b" by (metis le_add_diff_inverse nat_add_left_cancel_less)
  then show "x div b = y div b" using assms by (simp add: div_add1_eq)
qed

lemma write_leaf:
  assumes wf: "wf_table ps m e t" and e: "e \<le> 3" and w: "writes ps e f a (\<lambda>q. N (y + q))"
    and y: "y mod entry_span ps e = 0" "y < 2 ^ 48"
  shows "\<exists>v. f (t + 8 * idx ps e y) a m = Some (Inr (), m(t + 8 * idx ps e y := v)) \<and>
    wf_table ps (m(t + 8 * idx ps e y := v)) e t \<and>
    foot ps (m(t + 8 * idx ps e y := v)) e t \<subseteq> foot ps m e t \<and>
    effect ps N e t (y div table_span ps e) y (y + entry_span ps e) True m (m(t + 8 * idx ps e y := v))"
proof -
  let ?i = "idx ps e y" and ?b = "entry_span ps e"
  have i: "?i < entries ps" using e by (rule idx_less)
  obtain v where v: "f (t + 8 * ?i) a m = Some (Inr (), m(t + 8 * ?i := v))"
    and D: "case entry_decode v e of
           Some Empty \<Rightarrow> (\<forall>q < ?b. N (y + q) = None)
         | Some (Block b) \<Rightarrow> offset_mask ps e \<noteq> None \<and> (\<forall>q < ?b. N (y + q) = Some (b + q))
         | Some (DecodedPage b) \<Rightarrow> offset_mask ps e \<noteq> None \<and> (\<forall>q < ?b. N (y + q) = Some (b + q))
         | _ \<Rightarrow> False"
    using w unfolding writes_def by blast
  let ?m = "m(t + 8 * ?i := v)"
  have ok: "entry_ok ps ?m e (?m (t + 8 * ?i))" and nochild: "child_foot ps ?m e t ?i = {}"
    using D by (auto simp: entry_ok_def child_foot_def split: option.splits DecodedEntry.splits)
  note upd = update_entry [OF wf e i, of ?m, OF _ ok]
  have wf': "wf_table ps ?m e t" by (rule upd(1)) (auto simp: nochild)
  have ft: "foot ps ?m e t \<subseteq> foot ps m e t" using upd(2) nochild by auto
  have other: "translate ps ?m p e t = translate ps m p e t" if "idx ps e p \<noteq> ?i" for p
    using upd(3) that nochild by auto
  have "effect ps N e t (y div table_span ps e) y (y + ?b) True m ?m"
    unfolding effect_def
  proof (intro allI impI)
    fix p assume c: "low p div table_span ps e = y div table_span ps e"
    let ?x = "low p"
    have same: "idx ps e p = ?i \<longleftrightarrow> y \<le> ?x \<and> ?x < y + ?b"
      using idx_eq_iff [OF e c] span_block [OF span_pos(1) y(1), of ?x] idx_low [of ps e p] by simp
    show "if y \<le> ?x \<and> ?x < y + ?b
        then translate ps ?m p e t = Some (N ?x) \<or> \<not> True \<and> translate ps ?m p e t = translate ps m p e t
        else translate ps ?m p e t = translate ps m p e t"
    proof (cases "y \<le> ?x \<and> ?x < y + ?b")
      case True
      then have ie: "idx ps e p = ?i" using same by simp
      obtain q where q: "?x = y + q" "q < ?b" using True by (metis le_add_diff_inverse nat_add_left_cancel_less)
      have "?b dvd 2 ^ 48" using table_dvd [of ps "Suc e"] by simp
      then have "p mod ?b = ?x mod ?b" by (simp add: low_mod)
      also have "\<dots> = q" using q y(1) by (simp add: mod_add_eq [symmetric] mod_add_left_eq [symmetric])
      finally have "p mod ?b = q" .
      then have "translate ps ?m p e t = Some (N ?x)"
        using translate_at [OF e wf', of p] ie D q
        by (auto split: option.splits DecodedEntry.splits)
      then show ?thesis using True by simp
    next
      case False
      then show ?thesis using same other by auto
    qed
  qed
  then show ?thesis using v wf' ft by blast
qed

lemma low_le_max: "2 ^ 48 \<le> usize_max"
  by (simp add: usize_max_def)

lemma add_in_span:
  fixes y z T :: nat
  assumes "y mod T + z < T"
  shows "(y + z) div T = y div T" and "(y + z) mod T = y mod T + z"
proof -
  have "y + z = (y mod T + z) + T * (y div T)" by simp
  then have "(y + z) div T = (y mod T + z + T * (y div T)) div T"
    and "(y + z) mod T = (y mod T + z + T * (y div T)) mod T" by (simp_all only:)
  then show "(y + z) div T = y div T" "(y + z) mod T = y mod T + z"
    using assms by (simp_all only: div_mult_self2 mod_mult_self2 div_less mod_less)
qed

lemma idx_advance:
  assumes "y mod table_span ps e + j * entry_span ps e < table_span ps e"
  shows "idx ps e (y + j * entry_span ps e) = idx ps e y + j"
  using add_in_span(2) [OF assms] by (simp add: idx_def)

lemma leaf_addresses:
  assumes "wf_table ps m e t" and "i < entries ps"
  shows "add_p t (8 * i) = Some (t + 8 * i)" and "t + 8 * i \<noteq> 0" and "t + 8 * i \<in> foot ps m e t"
proof -
  have "t + 8 * i \<in> table_bytes ps t" using assms(2) by (rule entry_in_table)
  moreover have "table_ok ps t" using assms(1) by (subst (asm) wf_table_entries) blast
  ultimately show "add_p t (8 * i) = Some (t + 8 * i)" "t + 8 * i \<noteq> 0" "t + 8 * i \<in> foot ps m e t"
    by (auto simp: table_ok_def table_bytes_def usize_max_def foot.simps [of ps m e t])
qed

lemma for_each_leaf_spec:
  assumes "wf_table ps m e t" and e: "e \<le> 3" and bs: "block_size_in_bytes w = entry_span ps e"
    and y: "y mod entry_span ps e = 0" and c: "c = y div table_span ps e"
    and room: "y mod table_span ps e + count * entry_span ps e \<le> table_span ps e" "y + count * entry_span ps e \<le> 2 ^ 48"
    and phys: "phys + count * entry_span ps e \<le> 2 ^ 48" and "j \<le> count"
    and w: "\<forall>j < count. writes ps e f (phys + j * entry_span ps e) (\<lambda>q. N (y + j * entry_span ps e + q))"
  shows "\<exists>m'. for_each_leaf f w t (idx ps e y) phys [j..<count] s m = Some (Inr (), s, m') \<and>
    wf_table ps m' e t \<and> foot ps m' e t \<subseteq> foot ps m e t \<and> (\<forall>x. x \<notin> foot ps m e t \<longrightarrow> m' x = m x) \<and>
    effect ps N e t c (y + j * entry_span ps e) (y + count * entry_span ps e) True m m'"
  using assms(1) \<open>j \<le> count\<close>
proof (induction "count - j" arbitrary: j m)
  case 0
  then show ?case by (auto intro!: effect_unchanged)
next
  case (Suc n)
  let ?b = "entry_span ps e" and ?y = "y + j * entry_span ps e" and ?i = "idx ps e y + j"
  have j: "j < count" using Suc.hyps(2) by simp
  then have "Suc j * ?b \<le> count * ?b" by (intro mult_le_mono1) simp
  then have jb: "j * ?b + ?b \<le> count * ?b" by simp
  then have lt: "y mod table_span ps e + j * ?b < table_span ps e" using room(1) span_pos(1) [of ps e] by linarith
  have adv: "idx ps e ?y = ?i" "?y div table_span ps e = c"
    using idx_advance [OF lt] add_in_span(1) [OF lt] c by simp_all
  have i: "?i < entries ps" using adv(1) idx_less [OF e, of ps ?y] by simp
  have lim: "?y < 2 ^ 48" "phys + j * ?b \<le> usize_max" "j * ?b \<le> usize_max"
    using room(2) phys jb span_pos(1) [of ps e] low_le_max by linarith+
  have "?y mod ?b = 0" using y by simp
  from write_leaf [OF Suc.prems(1) e w [rule_format, OF j] this lim(1), unfolded adv]
  obtain v where v: "f (t + 8 * ?i) (phys + j * ?b) m = Some (Inr (), m(t + 8 * ?i := v))"
    "wf_table ps (m(t + 8 * ?i := v)) e t" "foot ps (m(t + 8 * ?i := v)) e t \<subseteq> foot ps m e t"
    "effect ps N e t c ?y (?y + ?b) True m (m(t + 8 * ?i := v))"
    by blast
  let ?m = "m(t + 8 * ?i := v)"
  have "n = count - Suc j" using Suc.hyps(2) by simp
  from Suc.hyps(1) [OF this v(2) Suc_leI [OF j]]
  obtain m' where m': "for_each_leaf f w t (idx ps e y) phys [Suc j..<count] s ?m = Some (Inr (), s, m')"
    "wf_table ps m' e t" "foot ps m' e t \<subseteq> foot ps ?m e t" "\<forall>x. x \<notin> foot ps ?m e t \<longrightarrow> m' x = ?m x"
    "effect ps N e t c (y + Suc j * ?b) (y + count * ?b) True ?m m'"
    by blast
  note ptr = leaf_addresses [OF Suc.prems(1) i]
  have "for_each_leaf f w t (idx ps e y) phys [j..<count] s m = Some (Inr (), s, m')"
    using j m'(1) v(1) lim(2,3) ptr(1) unfolding upt_conv_Cons [OF j]
    by (simp add: bs mul_p_def phys_byte_add_def add_p_def)
  moreover have "\<forall>x. x \<notin> foot ps m e t \<longrightarrow> m' x = m x" using m'(4) v(3) ptr(3) by auto
  moreover have "effect ps N e t c ?y (y + count * ?b) True m m'"
    using jb by (intro effect_trans [OF v(4)]) (use m'(5) in \<open>simp_all add: algebra_simps\<close>)
  ultimately show ?case using m'(2,3) v(3) by blast
qed

text \<open>A walk in a sub-table, seen from the table above it.\<close>

lemma lift_child:
  assumes wf: "wf_table ps m L t" and L: "L < 3" and i: "i = idx ps L z"
    and q: "entry_decode (m (t + 8 * i)) L = Some (Table q)" and ct: "ct = ptr_from_phys q"
    and dj: "foot ps m L t \<inter> P = {}" and k: "kept pool psize ps cr e (Suc L) ct s m P s' m' P'"
    and eff: "effect ps N (Suc L) ct (z div entry_span ps L) z (z + len) ok m m'"
    and room: "z mod entry_span ps L + len \<le> entry_span ps L" and Le: "L < e"
  shows "kept pool psize ps cr e L t s m P s' m' P'"
    and "effect ps N L t (z div table_span ps L) z (z + len) ok m m'"
    and "entry_decode (m' (t + 8 * i)) L = Some (Table q)"
proof -
  have L3: "L \<le> 3" and ie: "i < entries ps" using L i idx_less [of L ps z] by auto
  note wfe = wf [unfolded wf_table_entries [of ps m L t]]
  have cf: "child_foot ps m L t i = foot ps m (Suc L) ct" using q ct by (simp add: child_foot_def)
  have fr: "m' x = m x" if "x \<in> foot ps m L t" "x \<notin> foot ps m (Suc L) ct" for x
    using k that dj unfolding kept_def by blast
  have cell: "t + 8 * i \<in> table_bytes ps t" using ie by (rule entry_in_table)
  have "m' (t + 8 * i) = m (t + 8 * i)"
    using cell wfe ie cf L3 by (intro fr) (auto simp: foot_children)
  then show q': "entry_decode (m' (t + 8 * i)) L = Some (Table q)" using q by simp
  have cf': "child_foot ps m' L t i = foot ps m' (Suc L) ct" using q' ct by (simp add: child_foot_def)
  have sub: "foot ps m' (Suc L) ct \<subseteq> child_foot ps m L t i \<union> (P - P')" and wfc: "wf_table ps m' (Suc L) ct"
    using k cf unfolding kept_def by auto
  have ok: "entry_ok ps m' L (m' (t + 8 * i))" using q' ct wfc L by (simp add: entry_ok_def)
  have tb: "table_bytes ps t \<subseteq> foot ps m L t" using L3 by (simp add: foot_children)
  have s1: "child_foot ps m' L t i \<inter> table_bytes ps t = {}" using sub cf' wfe ie tb dj by blast
  have s2: "child_foot ps m' L t i \<inter> child_foot ps m L t j = {}" if "j < entries ps" "j \<noteq> i" for j
  proof -
    have "child_foot ps m L t j \<subseteq> foot ps m L t" using that L3 by (auto simp: foot_children)
    moreover have "child_foot ps m L t i \<inter> child_foot ps m L t j = {}" using wfe ie that by blast
    ultimately show ?thesis using sub cf' dj by blast
  qed
  have same: "m' x = m x" if "x \<in> foot ps m L t" "x \<notin> child_foot ps m L t i" "x \<noteq> t + 8 * i" for x
    using that fr cf by simp
  have wf': "wf_table ps m' L t" by (rule update_entry(1) [OF wf L3 ie _ ok s1]) (use same s2 in blast)+
  have ft: "foot ps m' L t \<subseteq> foot ps m L t \<union> child_foot ps m' L t i"
    by (rule update_entry(2) [OF wf L3 ie _ ok s1]) (use same s2 in blast)+
  have other: "translate ps m' p L t = translate ps m p L t" if "idx ps L p \<noteq> i" for p
    by (rule update_entry(3) [OF wf L3 ie _ ok s1 _ that]) (use same s2 in blast)+
  have cfs: "foot ps m (Suc L) ct \<subseteq> foot ps m L t" using cf ie L3 by (auto simp: foot_children)
  have lb: "large_block ps m' e p L t = large_block ps m e p L t" for p
  proof (cases "idx ps L p = i")
    case True
    then show ?thesis using large_block_table [of m t ps L p q e] large_block_table [of m' t ps L p q e] q q' ct Le k
      unfolding kept_def by simp
  next
    case False
    show ?thesis by (rule update_entry(5) [OF wf L3 ie _ ok s1 _ False]) (use same s2 in blast)+
  qed
  show "kept pool psize ps cr e L t s m P s' m' P'"
    using k wf' ft sub cf' cfs cf lb unfolding kept_def by blast
  show "effect ps N L t (z div table_span ps L) z (z + len) ok m m'"
    unfolding effect_def
  proof (intro allI impI)
    fix p assume c: "low p div table_span ps L = z div table_span ps L"
    show "if z \<le> low p \<and> low p < z + len
        then translate ps m' p L t = Some (N (low p)) \<or> \<not> ok \<and> translate ps m' p L t = translate ps m p L t
        else translate ps m' p L t = translate ps m p L t"
    proof (cases "idx ps L p = i")
      case True
      then have "low p div entry_span ps L = z div entry_span ps L"
        using idx_eq_iff [OF L3 c] i idx_low [of ps L p] by simp
      then have "if z \<le> low p \<and> low p < z + len
          then translate ps m' p (Suc L) ct = Some (N (low p)) \<or>
            \<not> ok \<and> translate ps m' p (Suc L) ct = translate ps m p (Suc L) ct
          else translate ps m' p (Suc L) ct = translate ps m p (Suc L) ct"
        using eff unfolding effect_def by simp
      moreover have "translate ps m p L t = translate ps m p (Suc L) ct"
        "translate ps m' p L t = translate ps m' p (Suc L) ct"
        using translate_at [OF L3 wf, of p] translate_at [OF L3 wf', of p] True q q' ct by simp_all
      ultimately show ?thesis by (simp only:)
    next
      case False
      have "\<not> (z \<le> low p \<and> low p < z + len)"
      proof
        assume r: "z \<le> low p \<and> low p < z + len"
        then have "z mod entry_span ps L + (low p - z) < entry_span ps L" using room by linarith
        then have "(z + (low p - z)) div entry_span ps L = z div entry_span ps L" by (rule add_in_span(1))
        then have "idx ps L (low p) = idx ps L z" using r idx_eq_iff [OF L3 c] by simp
        then show False using False i idx_low [of ps L p] by simp
      qed
      then show ?thesis using other [OF False] by auto
    qed
  qed
qed

section \<open>Which requests the walker serves\<close>

text \<open>The entries of level \<open>L\<close> that a run of \<open>n\<close> blocks at \<open>y\<close> touches: either
  the run lies in one of them, or it starts at a boundary, or the next level is the end level.
  The number of blocks that the code reckons for one entry must be right for a run that goes on to
  the next one.\<close>

definition run_ok :: "PageSize \<Rightarrow> usize \<Rightarrow> usize \<Rightarrow> usize \<Rightarrow> usize \<Rightarrow> bool" where
  "run_ok ps e L y n \<longleftrightarrow>
     (\<exists>ppe. pages_per_entry L ps = Some ppe \<and>
        (let per = ppe div (entry_span ps e div page_bytes ps); b = entry_span ps e in
         (y mod entry_span ps L + n * b \<le> entry_span ps L \<and> n + idx ps (Suc L) y \<le> per) \<or>
         (per * b = entry_span ps L \<and> (Suc L = e \<or> y mod entry_span ps L = 0))))"

lemma blocks_per_entry:
  assumes "1 \<le> L" and "L < e" and "e \<le> 3" and "pages_per_entry L ps = Some ppe"
  shows "ppe div (entry_span ps e div page_bytes ps) * entry_span ps e = entry_span ps L"
proof -
  from assms consider "L = 1" "e = 2" | "L = 1" "e = 3" | "L = 2" "e = 3" by linarith
  then show ?thesis
    using assms(4) by cases (cases ps, auto simp: pages_per_entry_def entry_span_def)+
qed

lemma pages_per_entry_some: "L < 3 \<Longrightarrow> \<exists>ppe. pages_per_entry L ps = Some ppe"
  by (cases ps) (auto simp: pages_per_entry_def)

lemma run_ok_aligned:
  assumes "z mod entry_span ps L = 0" and "L < L'" and "L' < e" and "e \<le> 3"
  shows "run_ok ps e L' z n"
proof -
  have "entry_span ps L' dvd entry_span ps L" using assms(2) by (intro entry_span_dvd) simp
  then have "z mod entry_span ps L' = 0" using assms(1) by (meson dvd_trans mod_eq_0_iff_dvd)
  moreover obtain ppe where "pages_per_entry L' ps = Some ppe"
    using pages_per_entry_some assms by (meson less_le_trans)
  ultimately show ?thesis
    using blocks_per_entry [of L' e ps ppe] assms unfolding run_ok_def Let_def by auto
qed

text \<open>One round of the loop at level \<open>L\<close>, standing at \<open>z\<close> with \<open>k\<close> blocks to go.\<close>

lemma walk_round:
  assumes "pages_per_entry L ps = Some ppe" and per: "per = ppe div (entry_span ps e div page_bytes ps)"
    and L: "L < e" "e \<le> 3" and z: "z mod entry_span ps e = 0" and k: "0 < k"
    and run: "(z mod entry_span ps L + k * entry_span ps e \<le> entry_span ps L \<and> k + idx ps (Suc L) z \<le> per) \<or>
       (per * entry_span ps e = entry_span ps L \<and> (Suc L = e \<or> z mod entry_span ps L = 0))"
  shows "idx ps (Suc L) z < per"
    and "z mod entry_span ps L + min k (per - idx ps (Suc L) z) * entry_span ps e \<le> entry_span ps L"
    and "min k (per - idx ps (Suc L) z) < k \<Longrightarrow>
      per * entry_span ps e = entry_span ps L \<and>
      (z + min k (per - idx ps (Suc L) z) * entry_span ps e) mod entry_span ps L = 0"
proof -
  let ?b = "entry_span ps e" and ?sp = "entry_span ps L" and ?i = "idx ps (Suc L) z"
  have "?i < per \<and> z mod ?sp + min k (per - ?i) * ?b \<le> ?sp \<and>
      (min k (per - ?i) < k \<longrightarrow> per * ?b = ?sp \<and> (z + min k (per - ?i) * ?b) mod ?sp = 0)"
    using run
  proof
    assume "z mod ?sp + k * ?b \<le> ?sp \<and> k + ?i \<le> per"
    moreover from this have "min k (per - ?i) = k" by (auto simp: min_def)
    ultimately show ?thesis using k by auto
  next
    assume r: "per * ?b = ?sp \<and> (Suc L = e \<or> z mod ?sp = 0)"
    have "?b dvd ?sp" using L by (intro entry_span_dvd) simp
    then have "z mod ?sp mod ?b = 0" using z by (simp add: mod_mod_cancel)
    then have o: "z mod ?sp = ?i * ?b"
      using r by (auto simp: idx_def)
    have "?i * ?b < per * ?b" using r o mod_less_divisor [of ?sp z] by simp
    then have i: "?i < per" by simp
    have "?i * ?b + (per - ?i) * ?b = ?sp" using i r by (simp add: add_mult_distrib [symmetric])
    moreover have "min k (per - ?i) * ?b \<le> (per - ?i) * ?b" by (intro mult_le_mono1) simp
    ultimately have le: "z mod ?sp + min k (per - ?i) * ?b \<le> ?sp" using o by linarith
    have "(z + min k (per - ?i) * ?b) mod ?sp = 0" if "min k (per - ?i) < k"
    proof -
      have "min k (per - ?i) = per - ?i" using that by simp
      then have "z mod ?sp + min k (per - ?i) * ?b = ?sp"
        using \<open>?i * ?b + (per - ?i) * ?b = ?sp\<close> o by simp
      then have "(z mod ?sp + min k (per - ?i) * ?b) mod ?sp = 0" by simp
      then show ?thesis by (simp add: mod_add_left_eq)
    qed
    with i le r show ?thesis by (intro conjI impI) simp_all
  qed
  then show "?i < per" "z mod ?sp + min k (per - ?i) * ?b \<le> ?sp"
    "min k (per - ?i) < k \<Longrightarrow> per * ?b = ?sp \<and> (z + min k (per - ?i) * ?b) mod ?sp = 0"
    by blast+
qed

definition walk_pre :: "('s \<Rightarrow> mem \<Rightarrow> usize set \<Rightarrow> bool) \<Rightarrow> ('s \<Rightarrow> PageSize) \<Rightarrow> PageSize \<Rightarrow> usize \<Rightarrow>
    (ptr \<Rightarrow> paddr \<Rightarrow> mem \<Rightarrow> ((PtError + unit) \<times> mem) panics) \<Rightarrow> (usize \<Rightarrow> paddr option) \<Rightarrow>
    usize \<Rightarrow> ptr \<Rightarrow> 's \<Rightarrow> mem \<Rightarrow> usize set \<Rightarrow> usize \<Rightarrow> paddr \<Rightarrow> usize \<Rightarrow> bool" where
  "walk_pre pool psize ps e f N L t s m P y phys n \<longleftrightarrow>
     (let b = entry_span ps e in
      pool s m P \<and> psize s = ps \<and> wf_table ps m L t \<and> foot ps m L t \<inter> P = {} \<and>
      0 < n \<and> y mod b = 0 \<and> y mod table_span ps L + n * b \<le> table_span ps L \<and>
      y + n * b \<le> 2 ^ 48 \<and> phys + n * b \<le> 2 ^ 48 \<and>
      (\<forall>L'. L \<le> L' \<and> L' < e \<longrightarrow> run_ok ps e L' y n) \<and>
      (\<forall>j < n. writes ps e f (phys + j * b) (\<lambda>q. N (y + j * b + q))))"

text \<open>The errors of a walk from \<open>lo\<close> to \<open>hi\<close>, with \<open>P'\<close> the free memory afterwards: the allocator is out of memory, which is
  so only when tables are created and no free memory is left; or the reported address is one of the range, with the tag \<open>tag\<close>, that
  a block larger than the wanted ones mapped before, or (only when tables are not created) one that was not mapped at all.\<close>

definition error_ok :: "PageSize \<Rightarrow> vaddr \<Rightarrow> bool \<Rightarrow> usize \<Rightarrow> usize \<Rightarrow> ptr \<Rightarrow> usize \<Rightarrow> usize \<Rightarrow> usize \<Rightarrow> mem \<Rightarrow> usize set \<Rightarrow> PtError + unit \<Rightarrow> bool" where
  "error_ok ps tag create e L t c lo hi m P' r \<longleftrightarrow>
     (\<forall>err. r = Inl err \<longrightarrow>
        (create \<and> err = Allocator OutOfMemory \<and> P' = {}) \<or>
        (\<exists>a. a = tag + low a \<and> lo \<le> low a \<and> low a < hi \<and> low a div table_span ps L = c \<and>
           (err = AlreadyMapped a \<and> (\<exists>b. translate ps m a L t = Some (Some b)) \<and> large_block ps m e a L t \<or>
            \<not> create \<and> err = NotMapped a \<and> translate ps m a L t = Some None)))"

lemma error_ok_mono:
  assumes "error_ok ps tag create e L t c lo hi m P' r" and "lo' \<le> lo" and "hi \<le> hi'"
    and "\<And>a. lo \<le> low a \<Longrightarrow> low a < hi \<Longrightarrow> low a div table_span ps L = c \<Longrightarrow> translate ps m' a L t = translate ps m a L t"
    and "\<And>a. large_block ps m e a L t \<Longrightarrow> large_block ps m' e a L t"
  shows "error_ok ps tag create e L t c lo' hi' m' P' r"
  unfolding error_ok_def
proof (intro allI impI)
  fix err assume "r = Inl err"
  with assms(1) consider "create \<and> err = Allocator OutOfMemory \<and> P' = {}"
    | a where "a = tag + low a" "lo \<le> low a" "low a < hi" "low a div table_span ps L = c"
        "err = AlreadyMapped a \<and> (\<exists>b. translate ps m a L t = Some (Some b)) \<and> large_block ps m e a L t \<or>
         \<not> create \<and> err = NotMapped a \<and> translate ps m a L t = Some None"
    unfolding error_ok_def by blast
  then show "(create \<and> err = Allocator OutOfMemory \<and> P' = {}) \<or>
      (\<exists>a. a = tag + low a \<and> lo' \<le> low a \<and> low a < hi' \<and> low a div table_span ps L = c \<and>
         (err = AlreadyMapped a \<and> (\<exists>b. translate ps m' a L t = Some (Some b)) \<and> large_block ps m' e a L t \<or>
          \<not> create \<and> err = NotMapped a \<and> translate ps m' a L t = Some None))"
  proof cases
    case 2
    then have "lo' \<le> low a" "low a < hi'" "translate ps m' a L t = translate ps m a L t" using assms by auto
    with 2 assms(5) show ?thesis by auto
  qed blast
qed

definition walk_post :: "('s \<Rightarrow> mem \<Rightarrow> usize set \<Rightarrow> bool) \<Rightarrow> ('s \<Rightarrow> PageSize) \<Rightarrow> PageSize \<Rightarrow> vaddr \<Rightarrow> bool \<Rightarrow> usize \<Rightarrow>
    (usize \<Rightarrow> paddr option) \<Rightarrow> usize \<Rightarrow> ptr \<Rightarrow> 's \<Rightarrow> mem \<Rightarrow> usize set \<Rightarrow> usize \<Rightarrow> usize \<Rightarrow>
    ('s, unit) pt_result \<Rightarrow> bool" where
  "walk_post pool psize ps tag cr e N L t s m P y n R \<longleftrightarrow>
     (\<exists>r s' m' P'. R = Some (r, s', m') \<and> kept pool psize ps cr e L t s m P s' m' P' \<and>
        effect ps N L t (y div table_span ps L) y (y + n * entry_span ps e) (r = Inr ()) m m' \<and>
        error_ok ps tag cr e L t (y div table_span ps L) y (y + n * entry_span ps e) m P' r)"

definition walk_ok :: "('s \<Rightarrow> mem \<Rightarrow> usize set \<Rightarrow> bool) \<Rightarrow> ('s \<Rightarrow> PageSize) \<Rightarrow> PageSize \<Rightarrow> bool \<Rightarrow> usize \<Rightarrow>
    (ptr \<Rightarrow> paddr \<Rightarrow> mem \<Rightarrow> ((PtError + unit) \<times> mem) panics) \<Rightarrow> (usize \<Rightarrow> paddr option) \<Rightarrow> vaddr \<Rightarrow> usize \<Rightarrow>
    (ptr \<Rightarrow> vaddr \<Rightarrow> paddr \<Rightarrow> usize \<Rightarrow> 's \<Rightarrow> mem \<Rightarrow> ('s, unit) pt_result) \<Rightarrow> bool" where
  "walk_ok pool psize ps cr e f N tag L walk \<longleftrightarrow>
     (\<forall>t s m P y phys n. walk_pre pool psize ps e f N L t s m P y phys n \<longrightarrow>
        walk_post pool psize ps tag cr e N L t s m P y n (walk t (tag + y) phys n s m))"

lemma low_tag: "tag mod 2 ^ 48 = 0 \<Longrightarrow> z < 2 ^ 48 \<Longrightarrow> low (tag + z) = z"
  unfolding low_def by (metis add_0 mod_add_left_eq mod_less)

lemma lift_error:
  assumes wf: "wf_table ps m L t" and L: "L < 3" and i: "i = idx ps L z"
    and q: "entry_decode (m (t + 8 * i)) L = Some (Table q)" and ct: "ct = ptr_from_phys q"
    and err: "error_ok ps tag cr e (Suc L) ct (z div entry_span ps L) z (z + len) m P' r"
    and room: "z mod entry_span ps L + len \<le> entry_span ps L" and Le: "L < e"
  shows "error_ok ps tag cr e L t (z div table_span ps L) z (z + len) m P' r"
proof -
  have L3: "L \<le> 3" using L by simp
  have "translate ps m a L t = translate ps m a (Suc L) ct \<and> large_block ps m e a L t = large_block ps m e a (Suc L) ct \<and>
      low a div table_span ps L = z div table_span ps L"
    if "low a div entry_span ps L = z div entry_span ps L" for a
  proof -
    obtain c where c: "table_span ps L = entry_span ps L * c" using span_dvd_table [OF L3] by blast
    have T: "low a div table_span ps L = z div table_span ps L" unfolding c using that by (simp add: div_mult2_eq)
    then have "idx ps L a = i" using idx_eq_iff [OF L3 T] that i idx_low [of ps L a] by simp
    then show ?thesis using T translate_at [OF L3 wf, of a] large_block_table [of m t ps L a q e] q ct Le by simp
  qed
  then show ?thesis using err unfolding error_ok_def table_span_Suc by fastforce
qed

text \<open>The pre-condition of the sub-walk of one round, and of the rest of the loop.\<close>

lemma round_geometry:
  assumes "walk_pre pool psize ps e f N L t s m P z phys k" and L: "L < e" "e \<le> 3"
    and "pages_per_entry L ps = Some ppe" and "per = ppe div (entry_span ps e div page_bytes ps)"
    and a: "a = min k (per - idx ps (Suc L) z)"
  shows "idx ps (Suc L) z < per" and "0 < a" and "a \<le> k"
    and "z mod entry_span ps L + a * entry_span ps e \<le> entry_span ps L"
    and "\<forall>L'. Suc L \<le> L' \<and> L' < e \<longrightarrow> run_ok ps e L' z a"
    and "a < k \<Longrightarrow> (\<forall>L'. L \<le> L' \<and> L' < e \<longrightarrow> run_ok ps e L' (z + a * entry_span ps e) (k - a))"
    and "a < k \<Longrightarrow> idx ps L (z + a * entry_span ps e) = idx ps L z + 1"
proof -
  let ?b = "entry_span ps e" and ?sp = "entry_span ps L"
  have z: "z mod ?b = 0" "0 < k" and T: "z mod table_span ps L + k * ?b \<le> table_span ps L"
    and runs: "\<forall>L'. L \<le> L' \<and> L' < e \<longrightarrow> run_ok ps e L' z k"
    using assms(1) by (auto simp: walk_pre_def Let_def)
  have run: "(z mod ?sp + k * ?b \<le> ?sp \<and> k + idx ps (Suc L) z \<le> per) \<or>
       (per * ?b = ?sp \<and> (Suc L = e \<or> z mod ?sp = 0))"
    using runs L assms(4,5) unfolding run_ok_def Let_def by fastforce
  note rd = walk_round [OF assms(4,5) L z run, folded a]
  show "idx ps (Suc L) z < per" by (rule rd(1))
  then show a0: "0 < a" and "a \<le> k" using a z(2) by auto
  show le: "z mod ?sp + a * ?b \<le> ?sp" by (rule rd(2))
  show "\<forall>L'. Suc L \<le> L' \<and> L' < e \<longrightarrow> run_ok ps e L' z a"
  proof (intro allI impI)
    fix L' assume L': "Suc L \<le> L' \<and> L' < e"
    show "run_ok ps e L' z a"
    proof (cases "z mod ?sp + k * ?b \<le> ?sp \<and> k + idx ps (Suc L) z \<le> per")
      case True
      then have "a = k" using a by (auto simp: min_def)
      then show ?thesis using runs L' by auto
    next
      case False
      then have "z mod ?sp = 0" using run L' by auto
      then show ?thesis using L' L by (intro run_ok_aligned) auto
    qed
  qed
  assume ak: "a < k"
  let ?z = "z + a * ?b"
  have al: "per * ?b = ?sp" "?z mod ?sp = 0" using rd(3) ak by auto
  show "\<forall>L'. L \<le> L' \<and> L' < e \<longrightarrow> run_ok ps e L' ?z (k - a)"
  proof (intro allI impI)
    fix L' assume L': "L \<le> L' \<and> L' < e"
    show "run_ok ps e L' ?z (k - a)"
    proof (cases "L' = L")
      case True
      then show ?thesis using al assms(4,5) unfolding run_ok_def Let_def by auto
    next
      case False
      then show ?thesis using L' L al by (intro run_ok_aligned) auto
    qed
  qed
  have "a * ?b < k * ?b" using ak by simp
  then have "z mod table_span ps L + a * ?b < table_span ps L" using T by linarith
  then have m: "?z mod table_span ps L = z mod table_span ps L + a * ?b" by (rule add_in_span(2))
  have o: "z mod table_span ps L mod ?sp = z mod ?sp"
    using span_dvd_table [of L ps] L by (simp add: mod_mod_cancel)
  have "0 < a * ?b" using a0 by simp
  then have "?sp = z mod ?sp + a * ?b"
    using al(2) le by (metis add_in_span(2) add_gr_0 le_neq_implies_less less_numeral_extra(3))
  then have "z mod table_span ps L + a * ?b = z mod table_span ps L div ?sp * ?sp + ?sp"
    using o div_mult_mod_eq [of "z mod table_span ps L" ?sp] by linarith
  then show "idx ps L ?z = idx ps L z + 1" unfolding idx_def m by simp
qed

section \<open>The walker meets its specification\<close>

lemma zero_table:
  assumes "L \<le> 3" and "table_ok ps t" and "\<forall>x \<in> table_bytes ps t. m x = 0"
  shows "wf_table ps m L t" and "foot ps m L t = table_bytes ps t" and "translate ps m p L t = Some None"
    and "\<not> large_block ps m e p L t"
proof -
  have z: "m (t + 8 * i) = 0" if "i < entries ps" for i using assms(3) entry_in_table [OF that] by blast
  have cf: "child_foot ps m L t i = {}" if "i < entries ps" for i using z [OF that] by (simp add: child_foot_def)
  show wf: "wf_table ps m L t" unfolding wf_table_entries [of ps m L t] using assms(2) z cf by (simp add: entry_ok_def)
  show "foot ps m L t = table_bytes ps t" using assms(1) cf by (simp add: foot_children)
  show "translate ps m p L t = Some None"
    using translate_at [OF assms(1) wf] z [OF idx_less [OF assms(1)]] by simp
  show "\<not> large_block ps m e p L t" using z [OF idx_less [OF assms(1)]] by (intro large_block_empty) simp
qed

text \<open>The end level of a block size, where the page size has it.\<close>

definition block_level :: "MapBlockSize \<Rightarrow> PageSize \<Rightarrow> usize option" where
  "block_level sz ps =
     (case sz of Page \<Rightarrow> Some 3 | SmallBlock \<Rightarrow> Some 2 | LargeBlock \<Rightarrow> if ps = FourKiB then Some 1 else None)"

lemma block_level_facts:
  assumes "block_level sz ps = Some e"
  shows "e \<le> 3" and "length_in_pages sz ps = Some (entry_span ps e div page_bytes ps)"
    and "entry_span ps e div page_bytes ps * page_bytes ps = entry_span ps e"
    and "mul_p (page_bytes ps) (entry_span ps e div page_bytes ps) = Some (entry_span ps e)"
    and "(case sz of Page \<Rightarrow> Some 3 | SmallBlock \<Rightarrow> Some 2 | LargeBlock \<Rightarrow> if ps = FourKiB then Some 1 else None) = Some e"
    and "offset_mask ps e \<noteq> None" and "4096 dvd entry_span ps e" and "sz = Page \<longleftrightarrow> e = 3"
  using assms
  by (cases sz; cases ps; auto simp: block_level_def length_in_pages_def entry_span_def mul_p_def usize_max_def
      offset_mask_def Let_def split: if_splits)+

lemma map_entry_writes:
  assumes e: "block_level sz ps = Some e" and a: "a mod entry_span ps e = 0" "a + entry_span ps e \<le> 2 ^ 48"
  shows "writes ps e (map_entry sz props) a (\<lambda>q. Some (a + q))"
proof -
  note lev = block_level_facts [OF e]
  have "a < 2 ^ 48" using a(2) span_pos(1) [of ps e] by linarith
  moreover have "a mod 4096 = 0" using a(1) lev(7) by (meson dvd_trans mod_eq_0_iff_dvd)
  ultimately have a': "a < 2 ^ 48" "a mod 4096 = 0" .
  show ?thesis
  proof (cases "sz = Page")
    case True
    then show ?thesis using entry_makers(2) [OF a'(2)] entry_decode_raw(2) [OF a'] lev(6,8)
      by (auto simp: writes_def map_entry_def)
  next
    case False
    then have "e \<le> 2" "(case sz of Page \<Rightarrow> for_page a props | _ \<Rightarrow> for_block a props) = for_block a props"
      using lev(1,8) by (auto split: MapBlockSize.splits)
    then show ?thesis using entry_makers(1) [OF a'(2)] entry_decode_raw(1) [OF a'] lev(6)
      by (auto simp: writes_def map_entry_def)
  qed
qed

lemma unmap_entry_writes: "writes ps e unmap_entry a (\<lambda>_. None)"
  unfolding writes_def by (intro allI exI [where x = 0]) (simp add: unmap_entry_def entry_empty_def)

lemma for_each_entry_step:
  assumes t: "pt_page_size t = ps" and e: "block_level sz ps = Some e" and n: "0 < n" "low v + n * entry_span ps e \<le> 2 ^ 48"
    and v: "v mod entry_span ps e = 0" "phys mod entry_span ps e = 0"
  shows "for_each_entry_of_size alloc t v phys n sz cr f s m =
    step alloc t \<lparr>end_level = e, block_size_in_bytes = entry_span ps e, block_size_in_pages = entry_span ps e div page_bytes ps,
      create_on_empty = cr\<rparr> f 0 (root t) v phys n s m"
proof -
  let ?b = "entry_span ps e"
  note lev = block_level_facts [OF e]
  have "n * (?b div page_bytes ps) * page_bytes ps = n * ?b" using lev(3) by simp
  moreover have "n * (?b div page_bytes ps) * 2 \<le> n * (?b div page_bytes ps) * page_bytes ps"
    by (intro mult_le_mono2) (cases ps; simp)
  moreover have "0 < n * (?b div page_bytes ps)" using n(1) lev(3) span_pos(1) [of ps e]
    by (metis mult_eq_0_iff neq0_conv)
  ultimately have "n * (?b div page_bytes ps) < 2 ^ 48" using n(2) by linarith
  moreover from this have "n * (?b div page_bytes ps) \<le> usize_max" using low_le_max by linarith
  moreover have nz: "?b \<noteq> 0" using span_pos(1) [of ps e] by linarith
  ultimately show ?thesis
    using n(1) v
    unfolding for_each_entry_of_size_def t lev(5) page_size_mul_def lev(2) bind.bind_lunit lev(4)
    by (simp add: is_aligned_to_def nz)
qed

definition tables_ok :: "PageTables \<Rightarrow> mem \<Rightarrow> bool" where
  "tables_ok t m \<longleftrightarrow>
     entries_per_page t = entries (pt_page_size t) \<and> wf_table (pt_page_size t) m 0 (root t)"

definition tables_foot :: "PageTables \<Rightarrow> mem \<Rightarrow> usize set" where
  "tables_foot t m = foot (pt_page_size t) m 0 (root t)"

context page_source
begin

lemma new_table_ok:
  assumes "p mod page_bytes ps = 0" and "p + page_bytes ps \<le> 2 ^ 48"
  shows "table_ok ps (ptr_from_phys p)" and "p < 2 ^ 48" and "p mod 4096 = 0"
    and "page_span ps p 1 = table_bytes ps (ptr_from_phys p)"
proof -
  have P: "0 < page_bytes ps" by (rule page_bytes_pos)
  then show p: "p < 2 ^ 48" using assms(2) by linarith
  have "4096 dvd page_bytes ps" by (cases ps) simp_all
  then show "p mod 4096 = 0" using assms(1) by (meson dvd_trans mod_eq_0_iff_dvd)
  have "page_bytes ps dvd 0xffff000000000000" by (cases ps) simp_all
  then show "table_ok ps (ptr_from_phys p)"
    using assms p by (simp add: table_ok_def ptr_from_phys_add mod_eq_0_iff_dvd)
  show "page_span ps p 1 = table_bytes ps (ptr_from_phys p)" by (simp add: page_span_def table_bytes_def)
qed

lemma next_table_spec:
  assumes pl: "pool s m P" and ps: "psize s = ps" "pt_page_size parent = ps" and wf: "wf_table ps m L t"
    and L: "L < 3" "L < e" and i: "i < entries ps" "i = idx ps L va" and dj: "foot ps m L t \<inter> P = {}"
    and cr: "create_on_empty w = cr"
  shows "\<exists>r s1 m1 P1. next_table_for_entry alloc parent w L va (t + 8 * i) s m = Some (r, s1, m1) \<and>
     kept pool psize ps cr e L t s m P s1 m1 P1 \<and> (\<forall>p. translate ps m1 p L t = translate ps m p L t) \<and>
     (\<forall>ct. r = Inr ct \<longrightarrow> (\<exists>q. entry_decode (m1 (t + 8 * i)) L = Some (Table q) \<and> ct = ptr_from_phys q)) \<and>
     (\<forall>err. r = Inl err \<longrightarrow> (cr \<and> err = Allocator OutOfMemory \<and> P1 = {}) \<or>
        err = AlreadyMapped va \<and> (\<exists>b. translate ps m va L t = Some (Some b)) \<and> large_block ps m e va L t \<or>
        \<not> cr \<and> err = NotMapped va \<and> translate ps m va L t = Some None)"
proof -
  have ok: "entry_ok ps m L (m (t + 8 * i))" using wf i(1) by (rule wf_entry_ok)
  have stay: "kept pool psize ps cr e L t s m P s m P" using pl wf by (rule kept_refl)
  obtain d where d: "entry_decode (m (t + 8 * i)) L = Some d" using ok by (auto simp: entry_ok_def split: option.splits)
  have "L \<le> 3" using L by simp
  note at = translate_at [OF this wf, of va, folded i(2)]
  have big: "large_block ps m e va L t" if "d = Block q \<or> d = DecodedPage q" for q
    using that d L(2) i(2) by (auto simp: large_block.simps [of ps m e va L t])
  show ?thesis
  proof (cases "d = Empty \<and> cr")
    case False
    show ?thesis
    proof (cases d)
      case Empty
      then show ?thesis using False d stay at cr by (auto simp: next_table_for_entry_def)
    qed (use d stay at big in \<open>auto simp: next_table_for_entry_def\<close>)
  next
    case new: True
    obtain r s1 m1 where z: "allocate_zeroed alloc (psize s) s m 1 = Some (r, s1, m1)"
      using zeroed_returns [OF pl] by blast
    show ?thesis
    proof (cases r)
      case (Inl er)
      have "s1 = s \<and> m1 = m" "P = {} \<and> er = OutOfMemory" using zeroed_fails [OF pl] zeroed_exhausted [OF pl] z Inl by blast+
      then show ?thesis using new d z Inl stay ps cr by (auto simp: next_table_for_entry_def)
    next
      case (Inr p)
      note z' = z [unfolded Inr]
      note zs = zeroed_succeeds [OF pl z', unfolded ps(1)]
      have page: "p mod page_bytes ps = 0" "p + page_bytes ps \<le> 2 ^ 48" using zs(1,2) by simp_all
      note nt = new_table_ok [OF page]
      obtain Q where Q: "Q \<subseteq> P" "table_bytes ps (ptr_from_phys p) \<subseteq> Q" "pool s1 m1 (P - Q)"
        using zs(4) nt(4) by auto
      obtain v where e: "for_table p = Some v" "entry_decode v L = Some (Table p)"
        using entry_decode_table [OF nt(2,3), of L] L by auto
      let ?x = "t + 8 * i" and ?t = "ptr_from_phys p"
      define m2 where "m2 = m1(?x := v)"
      have m2: "m2 ?x = v" "\<And>x. x \<noteq> ?x \<Longrightarrow> m2 x = m1 x" by (simp_all add: m2_def)
      have xf: "?x \<in> foot ps m L t" and xP: "?x \<notin> P"
        using leaf_addresses(3) [OF wf i(1)] dj by auto
      have zero: "\<forall>x \<in> table_bytes ps ?t. m2 x = 0"
      proof
        fix x assume x: "x \<in> table_bytes ps ?t"
        then have "x \<noteq> ?x" using Q xP by blast
        then show "m2 x = 0" using m2(2) zs(5) nt(4) x by simp
      qed
      have sL: "Suc L \<le> 3" and L3: "L \<le> 3" using L by auto
      note zt = zero_table [OF sL nt(1) zero]
      have same: "m2 x = m x" if "x \<in> foot ps m L t" "x \<noteq> ?x" for x
        using zs(6) [of x] that dj m2(2) [of x] by auto
      have cf: "child_foot ps m2 L t i = table_bytes ps ?t" using e zt(2) m2(1) by (simp add: child_foot_def)
      have tP: "table_bytes ps ?t \<inter> foot ps m L t = {}" using Q dj by blast
      have eok: "entry_ok ps m2 L (m2 ?x)" using e zt(1) L m2(1) by (simp add: entry_ok_def)
      have s1': "child_foot ps m2 L t i \<inter> table_bytes ps t = {}"
        using cf tP L3 by (auto simp: foot_children [of L])
      have s2': "child_foot ps m2 L t i \<inter> child_foot ps m L t j = {}" if "j < entries ps" "j \<noteq> i" for j
        using cf tP L3 that by (auto simp: foot_children [of L])
      have wf': "wf_table ps m2 L t"
        by (rule update_entry(1) [OF wf L3 i(1) _ eok s1']) (use same s2' in blast)+
      have ft: "foot ps m2 L t \<subseteq> foot ps m L t \<union> child_foot ps m2 L t i"
        by (rule update_entry(2) [OF wf L3 i(1) _ eok s1']) (use same s2' in blast)+
      have other: "translate ps m2 v L t = translate ps m v L t" if "idx ps L v \<noteq> i" for v
        by (rule update_entry(3) [OF wf L3 i(1) _ eok s1' _ that]) (use same s2' in blast)+
      have tr: "translate ps m2 v L t = translate ps m v L t" for v
        using other [of v] translate_at [OF L3 wf, of v] translate_at [OF L3 wf', of v] d new e(2) zt(3) m2(1)
        by (cases "idx ps L v = i") auto
      have lbo: "large_block ps m2 e v L t = large_block ps m e v L t" if "idx ps L v \<noteq> i" for v
        by (rule update_entry(5) [OF wf L3 i(1) _ eok s1' _ that]) (use same s2' in blast)+
      have lb: "large_block ps m2 e v L t = large_block ps m e v L t" for v
        using lbo [of v] large_block_table [of m2 t ps L v p e] large_block_empty [of m t ps L v e] d new e(2) zt(4) m2(1) L(2)
        by (cases "idx ps L v = i") auto
      have "pool s1 m2 (P - Q)" using xP by (intro pool_local [OF Q(3)] m2(2)) auto
      moreover have "m2 x = m x" if "x \<notin> foot ps m L t \<union> P" for x
      proof -
        have "x \<noteq> ?x" using that xf by blast
        then show ?thesis using that m2(2) zs(6) by simp
      qed
      moreover have "foot ps m2 L t \<subseteq> foot ps m L t \<union> (P - (P - Q))" using ft cf Q by blast
      ultimately have "kept pool psize ps cr e L t s m P s1 m2 (P - Q)"
        unfolding kept_def using wf' zs(3) ps(1) lb new by auto
      moreover have "next_table_for_entry alloc parent w L va ?x s m = Some (Inr ?t, s1, m2)"
        using new d z' e(1) ps cr by (simp add: next_table_for_entry_def m2_def)
      ultimately show ?thesis using tr e(2) m2(1) by auto
    qed
  qed
qed

lemma walk_entries_ok:
  assumes nx: "walk_ok pool psize ps cr e f N tag (Suc L) walk" and L: "L < e" "e \<le> 3"
    and w: "block_size_in_bytes w = entry_span ps e" "create_on_empty w = cr"
    and par: "pt_page_size parent = ps" "entries_per_page parent = entries ps"
    and tag: "tag mod 2 ^ 48 = 0" "tag + 2 ^ 48 \<le> 2 ^ 64"
    and ppe: "pages_per_entry L ps = Some ppe" and per: "per = ppe div (entry_span ps e div page_bytes ps)"
    and num: "num < count"
    and pre: "walk_pre pool psize ps e f N L t s m P (y + num * entry_span ps e) (phys + num * entry_span ps e) (count - num)"
  shows "walk_post pool psize ps tag cr e N L t s m P (y + num * entry_span ps e) (count - num)
     (walk_entries walk alloc parent w L t (tag + y) phys count per (idx ps L (y + num * entry_span ps e)) num s m)"
  using num pre
proof (induction "count - num" arbitrary: num s m P rule: less_induct)
  case less
  let ?b = "entry_span ps e"
  define z where "z = y + num * ?b"
  define k where "k = count - num"
  define i where "i = idx ps L z"
  define a where "a = min k (per - idx ps (Suc L) z)"
  note pre = less.prems(2) [folded z_def k_def]
  have p: "pool s m P" "psize s = ps" "wf_table ps m L t" "foot ps m L t \<inter> P = {}" "0 < k" "z mod ?b = 0"
      "z mod table_span ps L + k * ?b \<le> table_span ps L" "z + k * ?b \<le> 2 ^ 48" "phys + num * ?b + k * ?b \<le> 2 ^ 48"
      "\<forall>j < k. writes ps e f (phys + num * ?b + j * ?b) (\<lambda>q. N (z + j * ?b + q))"
    using pre by (auto simp: walk_pre_def Let_def)
  note geo = round_geometry [OF pre L ppe per a_def]
  have L3: "L < 3" "L \<le> 3" "Suc L \<le> 3" using L by auto
  have i: "i < entries ps" using idx_less [OF L3(2)] by (simp add: i_def)
  have bk: "0 < k * ?b" using p(5) by simp
  have low: "z < 2 ^ 48" "num * ?b \<le> usize_max" "tag + z \<le> usize_max" "phys + num * ?b \<le> usize_max"
    using p(8,9) bk tag(2) low_le_max unfolding z_def usize_max_def by linarith+
  have ix: "index_for_level (tag + z) (Suc L) ps = Some (idx ps (Suc L) z)"
    using index_for_level_idx [OF L3(3)] idx_low [of ps "Suc L" "tag + z"] low_tag [OF tag(1) low(1)] by simp
  have lowz: "low (tag + z) = z" using low_tag [OF tag(1) low(1)] .
  then have iv: "i = idx ps L (tag + z)" using idx_low [of ps L "tag + z"] by (simp add: i_def)
  obtain r s1 m1 P1 where nt: "next_table_for_entry alloc parent w L (tag + z) (t + 8 * i) s m = Some (r, s1, m1)"
    "kept pool psize ps cr e L t s m P s1 m1 P1" "\<forall>p. translate ps m1 p L t = translate ps m p L t"
    "\<forall>ct. r = Inr ct \<longrightarrow> (\<exists>q. entry_decode (m1 (t + 8 * i)) L = Some (Table q) \<and> ct = ptr_from_phys q)"
    "\<forall>err. r = Inl err \<longrightarrow> (cr \<and> err = Allocator OutOfMemory \<and> P1 = {}) \<or>
        err = AlreadyMapped (tag + z) \<and> (\<exists>b. translate ps m (tag + z) L t = Some (Some b)) \<and> large_block ps m e (tag + z) L t \<or>
        \<not> cr \<and> err = NotMapped (tag + z) \<and> translate ps m (tag + z) L t = Some None"
    using next_table_spec [OF p(1,2) par(1) p(3) L3(1) L(1) i iv p(4) w(2)] by blast
  let ?loop = "walk_entries walk alloc parent w L t (tag + y) phys count per i num s m"
  have run: "?loop = and_then (Some (r, s1, m1)) (\<lambda>ct s m.
      and_then (walk ct (tag + z) (phys + num * ?b) a s m) (\<lambda>_ s m.
        walk_entries walk alloc parent w L t (tag + y) phys count per (i + 1) (num + a) s m))"
  proof -
    note addr = leaf_addresses [OF p(3) i]
    have "add_p (tag + y) (num * ?b) = Some (tag + z)" using low(3) by (simp add: z_def add.assoc)
    moreover have nz: "min (count - num) (per - idx ps (Suc L) z) \<noteq> 0" using geo(2) by (simp add: a_def k_def)
    ultimately show ?thesis
      using less.prems(1) i addr(1,2) low(2,4) nt(1) ix less_imp_le [OF geo(1)]
      by (simp add: walk_entries.simps [of walk alloc parent w L t "tag + y" phys count per i num]
          par w mul_p_def virt_byte_add_def phys_byte_add_def add_p_def sub_p_def a_def k_def Let_def nz)
  qed
  show ?case
  proof (cases r)
    case (Inl err)
    have "?loop = Some (Inl err, s1, m1)" using run Inl by (simp add: and_then_def)
    moreover have "effect ps N L t (z div table_span ps L) z (z + k * ?b) False m m1"
      using nt(3) by (intro effect_unchanged) auto
    moreover have "error_ok ps tag cr e L t (z div table_span ps L) z (z + k * ?b) m P1 (Inl err)"
      using nt(5) Inl lowz bk unfolding error_ok_def by auto
    ultimately show ?thesis using nt(2) unfolding walk_post_def z_def k_def i_def by auto
  next
    case (Inr ct)
    then obtain q where q: "entry_decode (m1 (t + 8 * i)) L = Some (Table q)" "ct = ptr_from_phys q" using nt(4) by blast
    have k1: "pool s1 m1 P1" "psize s1 = ps" "wf_table ps m1 L t" and dj1: "foot ps m1 L t \<inter> P1 = {}"
      using nt(2) p(2) kept_disjoint [OF nt(2) p(4)] by (auto simp: kept_def)
    have wc: "wf_table ps m1 (Suc L) ct" using entry_sub_table(2) [OF wf_entry_ok [OF k1(3) i] q(1)] q(2) by simp
    have "foot ps m1 (Suc L) ct \<subseteq> foot ps m1 L t"
      using q i L3(2) by (auto simp: foot_children [of L] child_foot_def)
    then have djc: "foot ps m1 (Suc L) ct \<inter> P1 = {}" using dj1 by blast
    have ab: "a * ?b \<le> k * ?b" using geo(3) by simp
    have fit: "z + a * ?b \<le> 2 ^ 48" "phys + num * ?b + a * ?b \<le> 2 ^ 48" using p(8,9) ab by linarith+
    have "walk_pre pool psize ps e f N (Suc L) ct s1 m1 P1 z (phys + num * ?b) a"
      unfolding walk_pre_def Let_def
      using k1(1,2) wc djc geo(2,4,5) p(6,10) fit geo(3) by auto
    from nx [unfolded walk_ok_def, rule_format, OF this]
    obtain r2 s2 m2 P2 where sub: "walk ct (tag + z) (phys + num * ?b) a s1 m1 = Some (r2, s2, m2)"
      "kept pool psize ps cr e (Suc L) ct s1 m1 P1 s2 m2 P2"
      "effect ps N (Suc L) ct (z div entry_span ps L) z (z + a * ?b) (r2 = Inr ()) m1 m2"
      "error_ok ps tag cr e (Suc L) ct (z div entry_span ps L) z (z + a * ?b) m1 P2 r2"
      unfolding walk_post_def by auto
    note up = lift_child [OF k1(3) L3(1) i_def q dj1 sub(2,3) geo(4) L(1)]
    have kk: "kept pool psize ps cr e L t s m P s2 m2 P2" using kept_trans [OF nt(2) up(1)] .
    have "effect ps N L t (z div table_span ps L) z z True m m1" using nt(3) by (intro effect_unchanged) auto
    then have ee: "effect ps N L t (z div table_span ps L) z (z + a * ?b) (r2 = Inr ()) m m2"
      using up(2) by (rule effect_trans) auto
    have go: "?loop = and_then (Some (r2, s2, m2)) (\<lambda>_ s m.
        walk_entries walk alloc parent w L t (tag + y) phys count per (i + 1) (num + a) s m)"
      using run Inr sub(1) by (simp add: and_then_def)
    show ?thesis
    proof (cases r2)
      case (Inl err)
      have "?loop = Some (Inl err, s2, m2)" using go Inl by (simp add: and_then_def)
      moreover have "effect ps N L t (z div table_span ps L) z (z + k * ?b) False m m2"
        using ab by (intro effect_fail [OF ee]) simp
      moreover have "error_ok ps tag cr e L t (z div table_span ps L) z (z + k * ?b) m P2 r2"
        by (rule error_ok_mono [OF lift_error [OF k1(3) L3(1) i_def q sub(4) geo(4) L(1)]]) (use ab nt(2,3) in \<open>simp_all add: kept_def\<close>)
      ultimately show ?thesis using kk Inl unfolding walk_post_def z_def k_def i_def by auto
    next
      case r2: (Inr u)
      then have ok: "r2 = Inr ()" by simp
      show ?thesis
      proof (cases "a = k")
        case True
        then have "num + a = count" using less.prems(1) by (simp add: k_def)
        then have "?loop = Some (Inr (), s2, m2)"
          using go ok by (simp add: and_then_def walk_entries.simps [of walk alloc parent w L t "tag + y" phys count])
        then show ?thesis using kk ee True ok unfolding walk_post_def error_ok_def z_def k_def i_def by auto
      next
        case False
        then have ak: "a < k" using geo(3) by simp
        let ?z = "z + a * ?b" and ?n = "num + a"
        have zz: "y + ?n * ?b = ?z" "phys + ?n * ?b = phys + num * ?b + a * ?b" "count - ?n = k - a"
          by (simp_all add: z_def k_def algebra_simps)
        have k2: "pool s2 m2 P2" "psize s2 = ps" "wf_table ps m2 L t" and dj2: "foot ps m2 L t \<inter> P2 = {}"
          using kk p(2) kept_disjoint [OF kk p(4)] by (auto simp: kept_def)
        have split: "a * ?b + (k - a) * ?b = k * ?b" using geo(3) by (simp add: add_mult_distrib [symmetric])
        have "0 < (k - a) * ?b" using ak by simp
        then have in_T: "z mod table_span ps L + a * ?b < table_span ps L" using p(7) split by linarith
        note same = add_in_span [OF in_T]
        have "writes ps e f (phys + num * ?b + a * ?b + j * ?b) (\<lambda>q. N (?z + j * ?b + q))" if "j < k - a" for j
          using p(10) [rule_format, of "a + j"] that by (simp add: algebra_simps)
        moreover have "?z mod table_span ps L + (k - a) * ?b \<le> table_span ps L" using same(2) p(7) split by linarith
        moreover have "?z + (k - a) * ?b \<le> 2 ^ 48" "phys + num * ?b + a * ?b + (k - a) * ?b \<le> 2 ^ 48"
          using p(8,9) split by linarith+
        moreover have "?z mod ?b = 0" using p(6) by simp
        ultimately have "walk_pre pool psize ps e f N L t s2 m2 P2 ?z (phys + num * ?b + a * ?b) (k - a)"
          unfolding walk_pre_def Let_def using k2 dj2 ak geo(6) by auto
        moreover have "k - a < count - num" "?n < count" using less.prems(1) geo(2) ak by (auto simp: k_def)
        ultimately have "walk_post pool psize ps tag cr e N L t s2 m2 P2 ?z (k - a)
            (walk_entries walk alloc parent w L t (tag + y) phys count per (idx ps L ?z) ?n s2 m2)"
          using less.hyps [of ?n s2 m2 P2, unfolded zz] by blast
        then obtain r3 s3 m3 P3 where
          l: "walk_entries walk alloc parent w L t (tag + y) phys count per (i + 1) ?n s2 m2 = Some (r3, s3, m3)"
          "kept pool psize ps cr e L t s2 m2 P2 s3 m3 P3"
          "effect ps N L t (z div table_span ps L) ?z (?z + (k - a) * ?b) (r3 = Inr ()) m2 m3"
          "error_ok ps tag cr e L t (z div table_span ps L) ?z (?z + (k - a) * ?b) m2 P3 r3"
          unfolding walk_post_def using geo(7) [OF ak] same(1) by (auto simp: i_def)
        have "effect ps N L t (z div table_span ps L) z (z + k * ?b) (r3 = Inr ()) m m3"
          using effect_trans [OF ee [unfolded ok, simplified] l(3)] split geo(3) by (simp add: add.assoc)
        moreover have "large_block ps m2 e p L t = large_block ps m e p L t" for p using kk by (simp add: kept_def)
        then have "error_ok ps tag cr e L t (z div table_span ps L) z (z + k * ?b) m P3 r3"
          by (intro error_ok_mono [OF l(4)]) (use split ee in \<open>auto simp: effect_def\<close>)
        moreover have "?loop = Some (r3, s3, m3)" using go ok l(1) by (simp add: and_then_def)
        ultimately show ?thesis
          using kept_trans [OF kk l(2)] unfolding walk_post_def z_def k_def i_def by auto
      qed
    qed
  qed
qed

lemma step_ok:
  assumes L: "L \<le> e" "e \<le> 3" and w: "end_level w = e" "block_size_in_bytes w = entry_span ps e"
      "create_on_empty w = cr" "block_size_in_pages w = entry_span ps e div page_bytes ps"
    and par: "pt_page_size parent = ps" "entries_per_page parent = entries ps"
    and tag: "tag mod 2 ^ 48 = 0" "tag + 2 ^ 48 \<le> 2 ^ 64"
  shows "walk_ok pool psize ps cr e f N tag L (step alloc parent w f L)"
  using L(1)
proof (induction "e - L" arbitrary: L)
  case 0
  then have Le: "L = e" by simp
  show ?case
    unfolding walk_ok_def
  proof (intro allI impI)
    fix t s m P y phys n
    assume pre: "walk_pre pool psize ps e f N L t s m P y phys n"
    let ?b = "entry_span ps e"
    have p: "pool s m P" "psize s = ps" "wf_table ps m e t" "0 < n" "y mod ?b = 0"
        "y mod table_span ps e + n * ?b \<le> table_span ps e" "y + n * ?b \<le> 2 ^ 48" "phys + n * ?b \<le> 2 ^ 48"
        "\<forall>j < n. writes ps e f (phys + j * ?b) (\<lambda>q. N (y + j * ?b + q))"
      using pre by (auto simp: walk_pre_def Let_def Le)
    have "0 < n * ?b" using p(4) by simp
    then have y: "y < 2 ^ 48" using p(7) by linarith
    have ix: "index_for_level (tag + y) e ps = Some (idx ps e y)"
      using index_for_level_idx [OF L(2)] idx_low [of ps e "tag + y"] low_tag [OF tag(1) y] by simp
    have "(n - 1) * ?b < n * ?b" using p(4) by simp
    then have "y mod table_span ps e + (n - 1) * ?b < table_span ps e" using p(6) by linarith
    then have "idx ps e y + (n - 1) < entries ps" using idx_advance idx_less [OF L(2)] by metis
    then have room: "idx ps e y + n \<le> entries ps" "idx ps e y + n \<le> usize_max"
      using p(4) by (auto simp: entries_def usize_max_def intro: le_trans [where j = "entries ps"]) (cases ps, auto)
    obtain m' where l: "for_each_leaf f w t (idx ps e y) phys [0..<n] s m = Some (Inr (), s, m')"
      "wf_table ps m' e t" "foot ps m' e t \<subseteq> foot ps m e t" "\<forall>x. x \<notin> foot ps m e t \<longrightarrow> m' x = m x"
      "effect ps N e t (y div table_span ps e) (y + 0 * ?b) (y + n * ?b) True m m'"
      using for_each_leaf_spec [OF p(3) L(2) w(2) p(5) refl p(6,7,8) le0 p(9), where s = s] by blast
    have "pool s m' P"
      using pre l(4) by (intro pool_local [OF p(1)]) (auto simp: walk_pre_def Let_def Le)
    then have "kept pool psize ps cr e e t s m P s m' P" using l(2,3,4) by (auto simp: kept_def large_block_end)
    moreover have "step alloc parent w f e t (tag + y) phys n s m = Some (Inr (), s, m')"
      using p(4) ix room l(1) by (simp add: step.simps [of alloc parent w f e] w par add_p_def)
    ultimately show "walk_post pool psize ps tag cr e N L t s m P y n (step alloc parent w f L t (tag + y) phys n s m)"
      using l(5) unfolding walk_post_def error_ok_def Le by auto
  qed
next
  case (Suc d)
  then have Le: "L < e" by simp
  then have L3: "L \<le> 3" "L < 3" using L(2) by auto
  obtain ppe where ppe: "pages_per_entry L ps = Some ppe" using pages_per_entry_some [OF L3(2)] by blast
  have nx: "walk_ok pool psize ps cr e f N tag (Suc L) (step alloc parent w f (Suc L))"
    using Suc by (intro Suc.hyps) auto
  show ?case
    unfolding walk_ok_def
  proof (intro allI impI)
    fix t s m P y phys n
    assume pre: "walk_pre pool psize ps e f N L t s m P y phys n"
    let ?b = "entry_span ps e"
    have n: "0 < n" "y + n * ?b \<le> 2 ^ 48" using pre by (auto simp: walk_pre_def Let_def)
    then have "0 < n * ?b" by simp
    then have y: "y < 2 ^ 48" using n by linarith
    have ix: "index_for_level (tag + y) L ps = Some (idx ps L y)"
      using index_for_level_idx [OF L3(1)] idx_low [of ps L "tag + y"] low_tag [OF tag(1) y] by simp
    have "step alloc parent w f L t (tag + y) phys n s m =
        walk_entries (step alloc parent w f (Suc L)) alloc parent w L t (tag + y) phys n
          (ppe div (?b div page_bytes ps)) (idx ps L y) 0 s m"
      using n(1) ix Le by (simp add: step.simps [of alloc parent w f L] w par ppe)
    then show "walk_post pool psize ps tag cr e N L t s m P y n (step alloc parent w f L t (tag + y) phys n s m)"
      using walk_entries_ok [OF nx Le L(2) w(2,3) par tag ppe refl n(1), of t s m P y phys] pre by simp
  qed
qed

lemma for_each_entry_ok:
  assumes pl: "pool s m P" "psize s = ps" and t: "tables_ok t m" "pt_page_size t = ps"
    and dj: "foot ps m 0 (root t) \<inter> P = {}" and e: "block_level sz ps = Some e"
    and n: "0 < n" "low v + n * entry_span ps e \<le> 2 ^ 48" "phys + n * entry_span ps e \<le> 2 ^ 48"
    and v: "v \<le> usize_max" "v mod entry_span ps e = 0" "phys mod entry_span ps e = 0"
    and run: "\<forall>L < e. run_ok ps e L (low v) n"
    and w: "\<forall>j < n. writes ps e f (phys + j * entry_span ps e) (\<lambda>q. N (low v + j * entry_span ps e + q))"
    and tag_def: "tag = v - low v"
  shows "walk_post pool psize ps tag cr e N 0 (root t) s m P (low v) n
    (for_each_entry_of_size alloc t v phys n sz cr f s m)"
proof -
  let ?b = "entry_span ps e"
  note lev = block_level_facts [OF e]
  have lv: "low v \<le> v" by (simp add: low_def)
  have tv: "tag + low v = v" using lv by (simp add: tag_def)
  have tm: "tag mod 2 ^ 48 = 0" unfolding tag_def low_def by (simp add: minus_mod_eq_mult_div)
  have "tag \<le> usize_max" using v(1) by (simp add: tag_def)
  moreover obtain c where "tag = 2 ^ 48 * c" using tm by (metis mod_eq_0_iff_dvd dvdE)
  ultimately have tmax: "tag + 2 ^ 48 \<le> 2 ^ 64" by (simp add: usize_max_def)
  have bd: "?b dvd 2 ^ 48" using table_dvd [of ps "Suc e"] by simp
  then have "low v mod ?b = 0" using v(2) low_mod [of ?b v] by simp
  then have "walk_pre pool psize ps e f N 0 (root t) s m P (low v) phys n"
    unfolding walk_pre_def Let_def
    using pl t dj n run w by (auto simp: tables_ok_def low_def table_span_def)
  moreover have "walk_ok pool psize ps cr e f N tag 0
      (step alloc t \<lparr>end_level = e, block_size_in_bytes = ?b, block_size_in_pages = ?b div page_bytes ps, create_on_empty = cr\<rparr> f 0)"
    using lev(1) t tm tmax by (intro step_ok) (auto simp: tables_ok_def)
  ultimately have "walk_post pool psize ps tag cr e N 0 (root t) s m P (low v) n
      (step alloc t \<lparr>end_level = e, block_size_in_bytes = ?b, block_size_in_pages = ?b div page_bytes ps, create_on_empty = cr\<rparr> f 0
        (root t) v phys n s m)"
    unfolding walk_ok_def using tv by metis
  moreover have "for_each_entry_of_size alloc t v phys n sz cr f s m =
      step alloc t \<lparr>end_level = e, block_size_in_bytes = ?b, block_size_in_pages = ?b div page_bytes ps, create_on_empty = cr\<rparr> f 0
        (root t) v phys n s m"
    by (rule for_each_entry_step [OF t(2) e n(1,2) v(2,3)])
  ultimately show ?thesis by simp
qed

end

section \<open>Properties\<close>

text \<open>The same for whole tables, with the errors in terms of the addresses of the run.\<close>

definition map_error_ok :: "PageTables \<Rightarrow> bool \<Rightarrow> usize \<Rightarrow> vaddr \<Rightarrow> usize \<Rightarrow> mem \<Rightarrow> usize set \<Rightarrow> PtError \<Rightarrow> bool" where
  "map_error_ok t create e v len m P' err \<longleftrightarrow>
     (create \<and> err = Allocator OutOfMemory \<and> P' = {}) \<or>
     (\<exists>a. v \<le> a \<and> a < v + len \<and>
        (err = AlreadyMapped a \<and> (\<exists>q. physical_address_of t m a = Some (Some q)) \<and> large_block (pt_page_size t) m e a 0 (root t) \<or>
         \<not> create \<and> err = NotMapped a \<and> physical_address_of t m a = Some None))"

lemma same_tag:
  assumes "v \<le> usize_max" and "a = v - low v + low a"
  shows "is_in_kernel_space a = is_in_kernel_space v"
proof -
  obtain k where k: "v - low v = 2 ^ 48 * k" unfolding low_def by (metis dvdE dvd_minus_mod)
  have lv: "low v \<le> v" by (simp add: low_def)
  then have v: "v = 2 ^ 48 * k + low v" using k by linarith
  have "2 ^ 48 * k \<le> usize_max" using v assms(1) by linarith
  then have k': "k \<le> 0xffff" by (simp add: usize_max_def)
  have a: "a = 2 ^ 48 * k + low a" using assms(2) k by simp
  have "a \<le> usize_max" using a k' low_less [of a] by (simp add: usize_max_def)
  moreover have "0xffff000000000000 \<le> 2 ^ 48 * k + x \<longleftrightarrow> k = 0xffff" if "x < 2 ^ 48" for x using that k' by auto
  ultimately show ?thesis using a v low_less assms(1) by (metis in_kernel_space_iff)
qed

lemma walk_post_tables:
  assumes "walk_post pool psize ps (v - low v) cr e N 0 (root t) s m P (low v) n R" and "pt_page_size t = ps"
    and "foot ps m 0 (root t) \<inter> P = {}" and "tables_ok t m" and "low v + n * entry_span ps e \<le> 2 ^ 48"
    and "v \<le> usize_max" and "is_in_kernel_space v = high_tag t"
  shows "\<exists>r s' m' P'. R = Some (r, s', m') \<and> pool s' m' P' \<and> P' \<subseteq> P \<and> tables_ok t m' \<and>
    tables_foot t m' \<inter> P' = {} \<and> (\<forall>x. x \<notin> tables_foot t m \<union> P \<longrightarrow> m' x = m x) \<and>
    (\<forall>p. is_in_kernel_space p = high_tag t \<longrightarrow>
       (if low v \<le> low p \<and> low p < low v + n * entry_span ps e
        then physical_address_of t m' p = Some (N (low p)) \<or>
             r \<noteq> Inr () \<and> physical_address_of t m' p = physical_address_of t m p
        else physical_address_of t m' p = physical_address_of t m p)) \<and>
    (\<forall>err. r = Inl err \<longrightarrow> map_error_ok t cr e v (n * entry_span ps e) m P' err) \<and> (cr \<or> s' = s \<and> P' = P)"
proof -
  let ?tag = "v - low v"
  obtain r s' m' P' where R: "R = Some (r, s', m')" and k: "kept pool psize ps cr e 0 (root t) s m P s' m' P'"
    and eff: "effect ps N 0 (root t) (low v div table_span ps 0) (low v) (low v + n * entry_span ps e) (r = Inr ()) m m'"
    and err: "error_ok ps ?tag cr e 0 (root t) (low v div table_span ps 0) (low v) (low v + n * entry_span ps e) m P' r"
    using assms(1) unfolding walk_post_def by blast
  have c0: "low x div table_span ps 0 = 0" for x by (simp add: table_span_def low_def)
  have "pool s' m' P'" "P' \<subseteq> P" "tables_ok t m'" "\<forall>x. x \<notin> tables_foot t m \<union> P \<longrightarrow> m' x = m x" "cr \<or> s' = s \<and> P' = P"
    using k assms(2,4) by (auto simp: kept_def tables_ok_def tables_foot_def)
  moreover have "tables_foot t m' \<inter> P' = {}"
    using kept_disjoint [OF k assms(3)] assms(2) by (simp add: tables_foot_def)
  moreover have "\<forall>p. is_in_kernel_space p = high_tag t \<longrightarrow>
       (if low v \<le> low p \<and> low p < low v + n * entry_span ps e
        then physical_address_of t m' p = Some (N (low p)) \<or>
             r \<noteq> Inr () \<and> physical_address_of t m' p = physical_address_of t m p
        else physical_address_of t m' p = physical_address_of t m p)"
    using eff unfolding effect_def c0 by (simp add: physical_address_of_def assms(2))
  moreover have "map_error_ok t cr e v (n * entry_span ps e) m P' x" if "r = Inl x" for x
  proof -
    have lv: "low v \<le> v" by (simp add: low_def)
    have run: "v \<le> a \<and> a < v + n * entry_span ps e \<and> physical_address_of t m a = translate ps m a 0 (root t)"
      if "a = ?tag + low a" "low v \<le> low a" "low a < low v + n * entry_span ps e" for a
      using that lv same_tag [OF assms(6) that(1)] assms(2,7) unfolding physical_address_of_def by auto
    show ?thesis using err that run unfolding error_ok_def map_error_ok_def assms(2) by metis
  qed
  ultimately show ?thesis using R by blast
qed

text \<open>Mapping 1 GiB blocks whose level 1 table exists: nothing is allocated and nothing fails, whatever
  the entries held.\<close>

lemma step_large_blocks:
  assumes t: "pt_page_size t = FourKiB" "entries_per_page t = 512" "wf_table FourKiB m 1 ct"
    and w: "end_level w = 1" "block_size_in_bytes w = 2 ^ 30"
    and n: "0 < n" "low v mod 2 ^ 39 + n * 2 ^ 30 \<le> 2 ^ 39" "phys + n * 2 ^ 30 \<le> 2 ^ 48" "low v + n * 2 ^ 30 \<le> 2 ^ 48"
    and v: "low v mod 2 ^ 30 = 0" "phys mod 2 ^ 30 = 0"
  obtains m' where "step alloc t w (map_entry LargeBlock props) 1 ct v phys n s m = Some (Inr (), s, m')"
    "\<forall>x. x \<notin> foot FourKiB m 1 ct \<longrightarrow> m' x = m x" "wf_table FourKiB m' 1 ct" "foot FourKiB m' 1 ct \<subseteq> foot FourKiB m 1 ct"
    "idx FourKiB 1 v + n \<le> 512"
proof -
  let ?ps = FourKiB and ?b = "2 ^ 30 :: usize" and ?f = "map_entry LargeBlock props" and ?i = "idx FourKiB 1 v"
  have b: "entry_span ?ps 1 = ?b" "table_span ?ps 1 = 2 ^ 39" "block_level LargeBlock ?ps = Some 1"
    by (simp_all add: entry_span_def table_span_def block_level_def)
  have wr: "\<forall>j < n. writes ?ps 1 ?f (phys + j * ?b) (\<lambda>x. Some (phys + (low v + j * ?b + x - low v)))"
  proof (intro allI impI)
    fix j assume "j < n"
    then have "Suc j * ?b \<le> n * ?b" by (intro mult_le_mono1) simp
    then have "phys + j * ?b + ?b \<le> 2 ^ 48" using n(3) by simp
    moreover have "(phys + j * ?b) mod ?b = 0" using v(2) by simp
    ultimately have "writes ?ps 1 ?f (phys + j * ?b) (\<lambda>x. Some (phys + j * ?b + x))"
      by (intro map_entry_writes) (simp_all only: b)
    then show "writes ?ps 1 ?f (phys + j * ?b) (\<lambda>x. Some (phys + (low v + j * ?b + x - low v)))" by (simp add: add.assoc)
  qed
  obtain m' where m': "for_each_leaf ?f w ct ?i phys [0..<n] s m = Some (Inr (), s, m')" "\<forall>x. x \<notin> foot ?ps m 1 ct \<longrightarrow> m' x = m x"
    "wf_table ?ps m' 1 ct" "foot ?ps m' 1 ct \<subseteq> foot ?ps m 1 ct"
    using for_each_leaf_spec [OF t(3), of w "low v" "low v div 2 ^ 39" n phys 0 ?f "\<lambda>x. Some (phys + (x - low v))" s] b n v wr w
    by (auto simp: idx_low)
  have "?i = low v mod 2 ^ 39 div ?b" using idx_low [of ?ps 1 v] unfolding idx_def b by simp
  moreover have "?b dvd low v mod 2 ^ 39" using v(1) by (simp add: mod_mod_cancel mod_eq_0_iff_dvd dvd_mod_iff)
  ultimately have "low v mod 2 ^ 39 = ?i * ?b" by simp
  then have room: "?i + n \<le> 512" using n(2) by simp
  have "step alloc t w ?f 1 ct v phys n s m = Some (Inr (), s, m')"
    using n(1) room m'(1) index_for_level_idx [of 1 v ?ps] by (simp add: step.simps [of alloc t w ?f "Suc 0"] w t add_p_def usize_max_def)
  then show thesis using that m'(2-4) room by blast
qed

lemma map_large_blocks:
  assumes t: "pt_page_size t = FourKiB" "tables_ok t m" and q: "entry_decode (m (root t + 8 * idx FourKiB 0 v)) 0 = Some (Table q)"
    and n: "0 < n" "low v mod 2 ^ 39 + n * 2 ^ 30 \<le> 2 ^ 39" "phys + n * 2 ^ 30 \<le> 2 ^ 48" "low v + n * 2 ^ 30 \<le> 2 ^ 48"
    and v: "v \<le> usize_max" "v mod 2 ^ 30 = 0" "phys mod 2 ^ 30 = 0" "is_in_kernel_space v = high_tag t"
  obtains m' where "pt_map alloc t v phys n LargeBlock props s m = Some (Inr (), s, m')"
    "\<forall>x. x \<notin> foot FourKiB m 1 (ptr_from_phys q) \<longrightarrow> m' x = m x" "wf_table FourKiB m' 1 (ptr_from_phys q)"
    "foot FourKiB m' 1 (ptr_from_phys q) \<subseteq> foot FourKiB m 1 (ptr_from_phys q)"
proof -
  let ?ps = FourKiB and ?f = "map_entry LargeBlock props" and ?i = "idx FourKiB 1 v" and ?ct = "ptr_from_phys q"
  define w where "w = \<lparr>end_level = 1, block_size_in_bytes = 2 ^ 30, block_size_in_pages = 2 ^ 30 div 4096, create_on_empty = True\<rparr>"
  have w: "end_level w = 1" "block_size_in_bytes w = 2 ^ 30" "block_size_in_pages w = 262144" "create_on_empty w" by (simp_all add: w_def)
  have b: "entry_span ?ps 1 = 2 ^ 30" "block_level LargeBlock ?ps = Some 1" by (simp_all add: entry_span_def block_level_def)
  have ent: "entries_per_page t = 512" and wf: "wf_table ?ps m 0 (root t)" using t by (simp_all add: tables_ok_def entries_def)
  have i0: "idx ?ps 0 v < 512" "?i < 512" using idx_less [of 0 ?ps v] idx_less [of 1 ?ps v] by (simp_all add: entries_def)
  have wf1: "wf_table ?ps m 1 ?ct"
    using wf_entry_ok [OF wf, of "idx ?ps 0 v"] i0 q by (simp add: entries_def entry_ok_def)
  have "low v mod 2 ^ 30 = 0" using low_mod [of "2 ^ 30" v] v(2) by simp
  from step_large_blocks [OF t(1) ent wf1 w(1,2) n this v(3), of alloc props s]
  obtain m' where m': "step alloc t w ?f 1 ?ct v phys n s m = Some (Inr (), s, m')" "\<forall>x. x \<notin> foot ?ps m 1 ?ct \<longrightarrow> m' x = m x"
    "wf_table ?ps m' 1 ?ct" "foot ?ps m' 1 ?ct \<subseteq> foot ?ps m 1 ?ct" "?i + n \<le> 512"
    by blast
  have "walk_entries (step alloc t w ?f (Suc 0)) alloc t w 0 (root t) v phys n 512 (idx ?ps 0 v + 1) n s m' = Some (Inr (), s, m')"
    by (simp add: walk_entries.simps [of _ alloc t w 0 "root t" v phys n 512 _ n])
  moreover have "next_table_for_entry alloc t w 0 v (root t + 8 * idx ?ps 0 v) s m = Some (Inr ?ct, s, m)"
    by (simp add: next_table_for_entry_def q)
  moreover have "min n (512 - ?i) = n" using m'(5) by simp
  moreover have "phys \<le> usize_max" using n(3) low_le_max by linarith
  ultimately have "walk_entries (step alloc t w ?f (Suc 0)) alloc t w 0 (root t) v phys n 512 (idx ?ps 0 v) 0 s m = Some (Inr (), s, m')"
    using n(1) v(1) i0 leaf_addresses [OF wf, of "idx ?ps 0 v"] index_for_level_idx [of 1 v ?ps] m'(1)
    by (simp add: walk_entries.simps [of _ alloc t w 0 "root t" v phys n 512 "idx ?ps 0 v" 0] ent t(1) entries_def and_then_def
        virt_byte_add_def phys_byte_add_def add_p_def mul_p_def sub_p_def Let_def)
  then have "step alloc t w ?f 0 (root t) v phys n s m = Some (Inr (), s, m')"
    using n(1) index_for_level_idx [of 0 v ?ps] by (simp add: step.simps [of alloc t w ?f 0] w t(1) pages_per_entry_def)
  moreover have "pt_map alloc t v phys n LargeBlock props s m = step alloc t w ?f 0 (root t) v phys n s m"
    using for_each_entry_step [OF t(1) b(2) n(1), unfolded b(1), OF n(4) v(2,3), of alloc True ?f s m] v(4) by (simp add: pt_map_def w_def)
  ultimately show thesis using that m'(2-4) by simp
qed

lemma pt_map_spec:
  assumes "buddy_pool s m P" and "page_size s = pt_page_size t" and "tables_ok t m"
    and "tables_foot t m \<inter> P = {}" and "block_level sz (pt_page_size t) = Some e"
    and "b = entry_span (pt_page_size t) e" and "0 < n" and "low v + n * b \<le> 2 ^ 48" and "phys + n * b \<le> 2 ^ 48"
    and "v \<le> usize_max" and "v mod b = 0" and "phys mod b = 0" and "is_in_kernel_space v = high_tag t"
    and "\<forall>L < e. run_ok (pt_page_size t) e L (low v) n"
  shows "\<exists>r s' m' P'. pt_map buddy_allocate t v phys n sz props s m = Some (r, s', m') \<and>
    buddy_pool s' m' P' \<and> P' \<subseteq> P \<and> tables_ok t m' \<and> tables_foot t m' \<inter> P' = {} \<and>
    (\<forall>x. x \<notin> tables_foot t m \<union> P \<longrightarrow> m' x = m x) \<and>
    (\<forall>p. is_in_kernel_space p = high_tag t \<longrightarrow>
       (if low v \<le> low p \<and> low p < low v + n * b
        then physical_address_of t m' p = Some (Some (phys + (low p - low v))) \<or>
             r \<noteq> Inr () \<and> physical_address_of t m' p = physical_address_of t m p
        else physical_address_of t m' p = physical_address_of t m p)) \<and>
    (\<forall>err. r = Inl err \<longrightarrow> map_error_ok t True e v (n * b) m P' err)"
proof -
  let ?ps = "pt_page_size t" and ?N = "\<lambda>x. Some (phys + (x - low v))"
  have w: "writes ?ps e (map_entry sz props) (phys + j * b) (\<lambda>q. ?N (low v + j * b + q))" if "j < n" for j
  proof -
    have "Suc j * b \<le> n * b" using that by (intro mult_le_mono1) simp
    then have "phys + j * b + b \<le> 2 ^ 48" using assms(9) by simp
    moreover have "(phys + j * b) mod b = 0" using assms(12) by simp
    ultimately have "writes ?ps e (map_entry sz props) (phys + j * b) (\<lambda>q. Some (phys + j * b + q))"
      using assms(5,6) by (intro map_entry_writes) auto
    then show ?thesis by (simp add: add.assoc)
  qed
  have dj: "foot ?ps m 0 (root t) \<inter> P = {}" using assms(4) by (simp add: tables_foot_def)
  have "walk_post buddy_pool page_size ?ps (v - low v) True e ?N 0 (root t) s m P (low v) n
      (for_each_entry_of_size buddy_allocate t v phys n sz True (map_entry sz props) s m)"
    using w by (intro buddy.for_each_entry_ok [OF assms(1,2,3) refl dj assms(5) assms(7-12,14) [unfolded assms(6)] _ refl])
      (simp add: assms(6))
  moreover have "pt_map buddy_allocate t v phys n sz props s m =
      for_each_entry_of_size buddy_allocate t v phys n sz True (map_entry sz props) s m"
    using assms(13) by (simp add: pt_map_def)
  ultimately show ?thesis
    using walk_post_tables [of buddy_pool page_size ?ps v True e ?N t s m P n, OF _ refl dj assms(3) _ assms(10,13)] assms(6,8)
    by simp
qed


lemma pt_unmap_spec:
  assumes "buddy_pool s m P" and "page_size s = pt_page_size t" and "tables_ok t m"
    and "tables_foot t m \<inter> P = {}" and "block_level sz (pt_page_size t) = Some e"
    and "b = entry_span (pt_page_size t) e" and "0 < n" and "low v + n * b \<le> 2 ^ 48"
    and "v \<le> usize_max" and "v mod b = 0" and "is_in_kernel_space v = high_tag t"
    and "\<forall>L < e. run_ok (pt_page_size t) e L (low v) n"
  shows "\<exists>r m'. pt_unmap buddy_allocate t v n sz s m = Some (r, s, m') \<and>
    buddy_pool s m' P \<and> tables_ok t m' \<and> tables_foot t m' \<inter> P = {} \<and>
    (\<forall>x. x \<notin> tables_foot t m \<union> P \<longrightarrow> m' x = m x) \<and>
    (\<forall>p. is_in_kernel_space p = high_tag t \<longrightarrow>
       (if low v \<le> low p \<and> low p < low v + n * b
        then physical_address_of t m' p = Some None \<or>
             r \<noteq> Inr () \<and> physical_address_of t m' p = physical_address_of t m p
        else physical_address_of t m' p = physical_address_of t m p)) \<and>
    (\<forall>err. r = Inl err \<longrightarrow> map_error_ok t False e v (n * b) m P err)"
proof -
  let ?ps = "pt_page_size t" and ?N = "\<lambda>x :: usize. None :: paddr option"
  have dj: "foot ?ps m 0 (root t) \<inter> P = {}" using assms(4) by (simp add: tables_foot_def)
  have "0 + n * b \<le> 2 ^ 48" using assms(8) by simp
  then have "walk_post buddy_pool page_size ?ps (v - low v) False e ?N 0 (root t) s m P (low v) n
      (for_each_entry_of_size buddy_allocate t v 0 n sz False unmap_entry s m)"
    using buddy.for_each_entry_ok [OF assms(1,2,3) refl dj assms(5,7), of v 0 unmap_entry ?N "v - low v" False]
      assms(6-12) unmap_entry_writes by simp
  moreover have "pt_unmap buddy_allocate t v n sz s m =
      for_each_entry_of_size buddy_allocate t v 0 n sz False unmap_entry s m"
    using assms(11) by (simp add: pt_unmap_def)
  ultimately show ?thesis
    using walk_post_tables [of buddy_pool page_size ?ps v False e ?N t s m P n, OF _ refl dj assms(3) _ assms(9,11)] assms(6,8)
    by simp
qed

text \<open>C7: \<^verbatim>\<open>PageTables::unmap\<close> under the same conditions: it always returns and neither takes nor frees memory.  After success no
  address of the run has a translation; every other address translates as before, also after an error, and an error names an
  address of the run that was not mapped, or that a larger block mapped.\<close>

theorem pt_unmap_correct:
  assumes "buddy_pool s m P" and "page_size s = pt_page_size t" and "tables_ok t m"
    and "tables_foot t m \<inter> P = {}" and "block_level sz (pt_page_size t) = Some e"
    and "b = entry_span (pt_page_size t) e" and "0 < n" and "low v + n * b \<le> 2 ^ 48"
    and "v \<le> usize_max" and "v mod b = 0" and "is_in_kernel_space v = high_tag t"
    and "\<forall>L < e. run_ok (pt_page_size t) e L (low v) n"
  shows "\<exists>r m'. pt_unmap buddy_allocate t v n sz s m = Some (r, s, m') \<and>
    buddy_pool s m' P \<and> tables_ok t m' \<and> tables_foot t m' \<inter> P = {} \<and>
    (\<forall>x. x \<notin> tables_foot t m \<union> P \<longrightarrow> m' x = m x) \<and>
    (\<forall>p. is_in_kernel_space p = high_tag t \<longrightarrow>
       (if low v \<le> low p \<and> low p < low v + n * b
        then physical_address_of t m' p = Some None \<or>
             r \<noteq> Inr () \<and> physical_address_of t m' p = physical_address_of t m p
        else physical_address_of t m' p = physical_address_of t m p)) \<and>
    (\<forall>err. r = Inl err \<longrightarrow> map_error_ok t False e v (n * b) m P err)"
  using assms by (rule pt_unmap_spec)

text \<open>\<^verbatim>\<open>PageTables::empty\<close> either reports the error of the allocator, with nothing changed, or
  returns well-formed tables, in a page taken from the free memory, in which no address has a
  translation.\<close>

lemma pt_empty_correct:
  assumes "buddy_pool s m P" and "ps = page_size s"
  shows "case pt_empty buddy_allocate ps s m of
      None \<Rightarrow> False
    | Some (Inl err, s', m') \<Rightarrow> s' = s \<and> m' = m
    | Some (Inr t, s', m') \<Rightarrow> pt_page_size t = ps \<and> \<not> high_tag t \<and> tables_ok t m' \<and>
        (\<exists>P' \<subseteq> P. buddy_pool s' m' P' \<and> tables_foot t m' \<subseteq> P - P') \<and>
        (\<forall>x. x \<notin> P \<longrightarrow> m' x = m x) \<and> (\<forall>p. physical_address_of t m' p = Some None)"
proof -
  obtain r s' m' where z: "allocate_zeroed buddy_allocate ps s m 1 = Some (r, s', m')"
    using buddy.zeroed_returns [OF assms(1)] assms(2) by blast
  show ?thesis
  proof (cases r)
    case (Inl e)
    then show ?thesis
      using z buddy.zeroed_fails [OF assms(1), of 1 e s' m'] assms(2) by (simp add: pt_empty_def and_then_def)
  next
    case (Inr p)
    note zs = buddy.zeroed_succeeds [OF assms(1) z [unfolded Inr assms(2)], folded assms(2)]
    have page: "p mod page_bytes ps = 0" "p + page_bytes ps \<le> 2 ^ 48" using zs(1,2) by simp_all
    note nt = buddy.new_table_ok [OF page]
    let ?t = "\<lparr>entries_per_page = page_bytes ps div 8, root = ptr_from_phys p, pt_page_size = ps, high_tag = False\<rparr>"
    have "page_bytes ps \<noteq> 0" by (cases ps) simp_all
    then have "from_existing ps p False = Some ?t"
      using nt(1) by (auto simp: from_existing_def is_aligned_to_def table_ok_def Let_def)
    then have e: "pt_empty buddy_allocate ps s m = Some (Inr ?t, s', m')"
      using z Inr by (simp add: pt_empty_def and_then_def)
    have "\<forall>x \<in> table_bytes ps (ptr_from_phys p). m' x = 0" using zs(5) nt(4) by simp
    note zt = zero_table [OF le0 nt(1) this]
    obtain Q where Q: "Q \<subseteq> P" "page_span ps p 1 \<subseteq> Q" "buddy_pool s' m' (P - Q)" using zs(4) by blast
    then have "P - Q \<subseteq> P \<and> buddy_pool s' m' (P - Q) \<and> tables_foot ?t m' \<subseteq> P - (P - Q)"
      using zt(2) nt(4) by (auto simp: tables_foot_def)
    then have "\<exists>P' \<subseteq> P. buddy_pool s' m' P' \<and> tables_foot ?t m' \<subseteq> P - P'" by blast
    moreover have "tables_ok ?t m'" using zt(1) by (simp add: tables_ok_def entries_def)
    ultimately show ?thesis using e zs(6) zt(3) by (simp add: physical_address_of_def)
  qed
qed

text \<open>A walk that succeeds.\<close>

lemma and_then_Inr:
  assumes "and_then r k = Some (Inr x, s, m)"
  obtains y s1 m1 where "r = Some (Inr y, s1, m1)" and "k y s1 m1 = Some (Inr x, s, m)"
proof -
  from assms obtain res s1 m1 where r: "r = Some (res, s1, m1)" by (auto simp: and_then_def bind_eq_Some_conv)
  then show thesis using assms that by (cases res) (auto simp: and_then_def)
qed

lemma walk_entries_first:
  assumes "walk_entries walk alloc parent w L t vs phys count per index num s m = Some (Inr (), s', m')"
    and "num < count"
    and "index_for_level (vs + num * block_size_in_bytes w) (Suc L) (pt_page_size parent) = Some nx"
  shows "index < entries_per_page parent \<and> nx \<le> per \<and> (\<exists>next_table s1 m1 s2 m2.
    walk next_table (vs + num * block_size_in_bytes w) (phys + num * block_size_in_bytes w)
      (min (count - num) (per - nx)) s1 m1 = Some (Inr (), s2, m2) \<and>
    walk_entries walk alloc parent w L t vs phys count per (index + 1) (num + min (count - num) (per - nx)) s2 m2 =
      Some (Inr (), s', m'))"
proof -
  let ?o = "num * block_size_in_bytes w"
  have "index < entries_per_page parent" and "virt_byte_add vs ?o = Some (vs + ?o)"
    and r: "and_then (next_table_for_entry alloc parent w L (vs + ?o) (t + 8 * index) s m) (\<lambda>next_table s m. do {
          start_at_next_level \<leftarrow> index_for_level (vs + ?o) (L + 1) (pt_page_size parent);
          room \<leftarrow> sub_p per start_at_next_level;
          let actual_blocks = min (count - num) room;
          next_ps \<leftarrow> phys_byte_add phys ?o;
          if actual_blocks = 0 then panic
          else and_then (walk next_table (vs + ?o) next_ps actual_blocks s m) (\<lambda>_ s m.
            walk_entries walk alloc parent w L t vs phys count per (index + 1) (num + actual_blocks) s m)
        }) = Some (Inr (), s', m')"
    using assms by (auto simp: walk_entries.simps [of walk alloc parent w L t vs phys count per index num]
        virt_byte_add_def bind_eq_Some_conv split: if_splits)
  from r obtain ct s1 m1 where "do {
          start_at_next_level \<leftarrow> index_for_level (vs + ?o) (L + 1) (pt_page_size parent);
          room \<leftarrow> sub_p per start_at_next_level;
          let actual_blocks = min (count - num) room;
          next_ps \<leftarrow> phys_byte_add phys ?o;
          if actual_blocks = 0 then panic
          else and_then (walk ct (vs + ?o) next_ps actual_blocks s1 m1) (\<lambda>_ s m.
            walk_entries walk alloc parent w L t vs phys count per (index + 1) (num + actual_blocks) s m)
        } = Some (Inr (), s', m')"
    by (elim and_then_Inr) simp
  then have nx: "nx \<le> per"
    and a: "and_then (walk ct (vs + ?o) (phys + ?o) (min (count - num) (per - nx)) s1 m1) (\<lambda>_ s m.
            walk_entries walk alloc parent w L t vs phys count per (index + 1) (num + min (count - num) (per - nx)) s m) =
          Some (Inr (), s', m')"
    using assms(3) by (auto simp: bind_eq_Some_conv phys_byte_add_def Let_def split: if_splits)
  from a obtain u s2 m2 where "walk ct (vs + ?o) (phys + ?o) (min (count - num) (per - nx)) s1 m1 = Some (Inr u, s2, m2)"
    and "walk_entries walk alloc parent w L t vs phys count per (index + 1) (num + min (count - num) (per - nx)) s2 m2 =
          Some (Inr (), s', m')"
    by (rule and_then_Inr)
  moreover have "u = ()" by simp
  ultimately show ?thesis using \<open>index < entries_per_page parent\<close> nx by blast
qed

lemma step_first:
  assumes "step alloc parent w f L t vs phys n s m = Some (Inr (), s', m')" and "L < end_level w" and "L \<le> 2"
    and "pages_per_entry L (pt_page_size parent) = Some ppe"
  shows "0 < n \<and> walk_entries (step alloc parent w f (Suc L)) alloc parent w L t vs phys n
      (ppe div block_size_in_pages w) (idx (pt_page_size parent) L vs) 0 s m = Some (Inr (), s', m')"
  using assms index_for_level_idx [of L vs "pt_page_size parent"]
  by (auto simp: step.simps [of alloc parent w f L] split: if_splits)

lemma map_pages_across_gigabyte_no_success:
  assumes "pt_page_size t = FourKiB" and "entries_per_page t = 512" and "v mod 2 ^ 30 = 2 ^ 30 - 0x1000"
    and "2 \<le> n" and "n < 2 ^ 48"
  shows "pt_map alloc t v phys n Page props s m \<noteq> Some (Inr (), s', m')"
proof
  assume ok: "pt_map alloc t v phys n Page props s m = Some (Inr (), s', m')"
  define w where "w = \<lparr>end_level = 3, block_size_in_bytes = 0x1000, block_size_in_pages = 1, create_on_empty = True\<rparr>"
  have w: "end_level w = 3" "block_size_in_bytes w = 0x1000" "block_size_in_pages w = 1" by (simp_all add: w_def)
  let ?f = "map_entry Page props"
  have s0: "step alloc t w ?f 0 (root t) v phys n s m = Some (Inr (), s', m')"
    using ok assms(1,4) by (auto simp: pt_map_def for_each_entry_of_size_def length_in_pages_def page_size_mul_def
        is_aligned_to_def mul_p_def w_def usize_max_def split: if_splits)
  have i1: "idx FourKiB 1 v < 512" using idx_less [of 1 FourKiB v] by (simp add: entries_def)
  have v30: "v mod 1073741824 = 1073737728" using assms(3) by simp
  have "v mod 2097152 = v mod 1073741824 mod 2097152" by (simp add: mod_mod_cancel)
  then have i2: "idx FourKiB 2 v = 511" and i3: "idx FourKiB 3 v = 511"
    using v30 by (simp_all add: idx_def table_span_def entry_span_def)
  have l: "0 < n" using assms(4) by simp
  have ix: "index_for_level (v + 0 * block_size_in_bytes w) (Suc L) (pt_page_size t) = Some (idx FourKiB (Suc L) v)"
    if "L \<le> 2" for L using index_for_level_idx [of "Suc L" v FourKiB] that assms(1) by simp
  have "walk_entries (step alloc t w ?f (Suc 0)) alloc t w 0 (root t) v phys n
      (512 * 512 * 512) (idx FourKiB 0 v) 0 s m = Some (Inr (), s', m')"
    using step_first [OF s0, of "512 * 512 * 512"] by (simp add: w assms(1) pages_per_entry_def)
  note wf1 = walk_entries_first [OF this l ix, simplified]
  define c1 where "c1 = min n (512 * 512 * 512 - idx FourKiB (Suc 0) v)"
  have c1: "2 \<le> c1" using i1 assms(4) by (simp add: c1_def)
  obtain t1 s1 m1 s1' m1' where s1: "step alloc t w ?f (Suc 0) t1 v phys c1 s1 m1 = Some (Inr (), s1', m1')"
    using wf1 unfolding c1_def by auto
  have "walk_entries (step alloc t w ?f (Suc (Suc 0))) alloc t w (Suc 0) t1 v phys c1
      (512 * 512) (idx FourKiB 1 v) 0 s1 m1 = Some (Inr (), s1', m1')"
    using step_first [OF s1, of "512 * 512"] by (simp add: w assms(1) pages_per_entry_def)
  note wf2 = walk_entries_first [OF this less_le_trans [OF _ c1] ix, simplified]
  define c2 where "c2 = min c1 (512 * 512 - idx FourKiB (Suc (Suc 0)) v)"
  have c2: "2 \<le> c2" using i2 c1 by (simp add: c2_def numeral_2_eq_2)
  obtain t2 s2 m2 s2' m2' where s2: "step alloc t w ?f (Suc (Suc 0)) t2 v phys c2 s2 m2 = Some (Inr (), s2', m2')"
    using wf2 unfolding c2_def by auto
  have "walk_entries (step alloc t w ?f (Suc (Suc (Suc 0)))) alloc t w (Suc (Suc 0)) t2 v phys c2 512 511 0 s2 m2 =
      Some (Inr (), s2', m2')"
    using step_first [OF s2, of 512] i2 by (simp add: w assms(1) pages_per_entry_def numeral_2_eq_2)
  note wf3 = walk_entries_first [OF this less_le_trans [OF _ c2] ix, simplified]
  have "min c2 (512 - idx FourKiB (Suc (Suc (Suc 0))) v) = 1" using i3 c2 by (simp add: numeral_3_eq_3)
  with wf3 obtain s3 m3 where
    "walk_entries (step alloc t w ?f (Suc (Suc (Suc 0)))) alloc t w (Suc (Suc 0)) t2 v phys c2 512 512 1 s3 m3 = Some (Inr (), s2', m2')"
    by auto
  then show False using c2 assms(2)
    by (simp add: walk_entries.simps [of _ alloc t w _ t2 v phys c2 512 512 "Suc 0"])
qed

text \<open>A walk over entries whose first table exists and whose sub-walk panics.\<close>

lemma walk_entries_panics:
  assumes "num < count" and "index < entries_per_page parent" and "virt_byte_add vs (num * block_size_in_bytes w) = Some v"
    and "phys_byte_add phys (num * block_size_in_bytes w) = Some p" and "num * block_size_in_bytes w \<le> usize_max" and "t + 8 * index \<le> usize_max" "t \<noteq> 0"
    and "entry_decode (m (t + 8 * index)) L = Some (Table q)" and "index_for_level v (Suc L) (pt_page_size parent) = Some nx" and "nx < per"
    and "walk (ptr_from_phys q) v p (min (count - num) (per - nx)) s m = None"
  shows "walk_entries walk alloc parent w L t vs phys count per index num s m = None"
  using assms by (simp add: walk_entries.simps [of walk alloc parent w L t vs phys count per index num] next_table_for_entry_def and_then_def
      mul_p_def add_p_def sub_p_def Let_def)

lemma map_pages_across_gigabyte_panics:
  assumes t: "pt_page_size t = FourKiB" "tables_ok t m" and v: "v mod 2 ^ 30 = 2 ^ 30 - 0x1000" "v \<le> usize_max"
      "is_in_kernel_space v = high_tag t" "low v + n * 0x1000 \<le> 2 ^ 48"
    and n: "2 \<le> n" and phys: "phys mod 0x1000 = 0" "phys + n * 0x1000 \<le> 2 ^ 48"
    and q0: "entry_decode (m (root t + 8 * idx FourKiB 0 v)) 0 = Some (Table q0)"
    and q1: "entry_decode (m (ptr_from_phys q0 + 8 * idx FourKiB 1 v)) 1 = Some (Table q1)"
    and q2: "entry_decode (m (ptr_from_phys q1 + 8 * idx FourKiB 2 v)) 2 = Some (Table q2)"
  shows "pt_map alloc t v phys n Page props s m = None"
proof -
  define w where "w = \<lparr>end_level = 3, block_size_in_bytes = 0x1000, block_size_in_pages = 1, create_on_empty = True\<rparr>"
  have w: "end_level w = 3" "block_size_in_bytes w = 0x1000" "block_size_in_pages w = 1" by (simp_all add: w_def)
  let ?f = "map_entry Page props" and ?t1 = "ptr_from_phys q0" and ?t2 = "ptr_from_phys q1" and ?t3 = "ptr_from_phys q2"
  have ent: "entries_per_page t = 512" "entries FourKiB = 512" and wf0: "wf_table FourKiB m 0 (root t)"
    using t by (simp_all add: tables_ok_def entries_def)
  have i: "idx FourKiB L v < 512" if "L \<le> 3" for L using idx_less [OF that, of FourKiB v] ent by simp
  have wf: "wf_table FourKiB m 1 ?t1" "wf_table FourKiB m 2 ?t2" "wf_table FourKiB m 3 ?t3"
  proof -
    show 1: "wf_table FourKiB m 1 ?t1" using entry_sub_table(2) [OF wf_entry_ok [OF wf0] q0] i [of 0] ent by simp
    have "entry_decode (m (?t1 + 8 * idx FourKiB 1 v)) (Suc 0) = Some (Table q1)" using q1 by simp
    then show 2: "wf_table FourKiB m 2 ?t2"
      using entry_sub_table(2) [OF wf_entry_ok [OF 1, of "idx FourKiB 1 v"], of q1] i [of 1] ent by (simp add: numeral_2_eq_2)
    show "wf_table FourKiB m 3 ?t3"
      using entry_sub_table(2) [OF wf_entry_ok [OF 2, of "idx FourKiB 2 v"] q2] i [of 2] ent by (simp add: numeral_3_eq_3)
  qed
  have v30: "v mod 1073741824 = 1073737728" using v(1) by simp
  have "v mod 2097152 = v mod 1073741824 mod 2097152" by (simp add: mod_mod_cancel)
  then have i2: "idx FourKiB 2 v = 511" and i3: "idx FourKiB 3 v = 511"
    using v30 by (simp_all add: idx_def table_span_def entry_span_def)
  have ix: "index_for_level v L FourKiB = Some (idx FourKiB L v)" if "L \<le> 3" for L using index_for_level_idx [OF that] .
  have vm: "virt_byte_add v 0 = Some v" "phys_byte_add phys 0 = Some phys"
    using v(2) phys(2) low_le_max by (simp_all add: virt_byte_add_def phys_byte_add_def add_p_def)
  have ptr: "t' + 8 * idx FourKiB L v \<le> usize_max \<and> t' \<noteq> 0" if "wf_table FourKiB m L t'" "L \<le> 3" for L t'
    using leaf_addresses(1) [OF that(1), of "idx FourKiB L v"] leaf_addresses(2) [OF that(1), of 0] i [OF that(2)] ent
    by (auto simp: add_p_def split: if_splits)
  have "phys < 2 ^ 48" using n phys(2) by linarith
  then obtain m' where s3: "step alloc t w ?f 3 ?t3 v phys 1 s m = Some (Inr (), s, m')"
    using ix [of 3] i3 ptr [OF wf(3)] entry_makers(2) [of phys props] phys(1)
    by (simp add: step.simps [of alloc t w ?f 3] w t(1) ent add_p_def mul_p_def phys_byte_add_def map_entry_def usize_max_def)
  have p2: "walk_entries (step alloc t w ?f 3) alloc t w 2 ?t2 v phys c 512 511 0 s m = None" if c: "2 \<le> c" for c
  proof -
    have "walk_entries (step alloc t w ?f 3) alloc t w 2 ?t2 v phys c 512 512 1 s m' = None"
      using c ent by (simp add: walk_entries.simps [of _ alloc t w _ ?t2 v phys c 512 512 "Suc 0"])
    moreover have "min c (Suc 0) = 1" using c by simp
    ultimately show ?thesis using c q2 i2 i3 ix [of 3] ptr [OF wf(2)] s3 vm ent
      by (simp add: walk_entries.simps [of _ alloc t w 2 ?t2 v phys c 512 511 0] next_table_for_entry_def and_then_def w t(1)
          mul_p_def add_p_def sub_p_def Let_def)
  qed
  have s2: "step alloc t w ?f 2 ?t2 v phys c s m = None" if "2 \<le> c" for c
    using p2 [OF that] that ix [of 2] i2 by (simp add: step.simps [of alloc t w ?f 2] w t(1) pages_per_entry_def)
  have p1: "walk_entries (step alloc t w ?f 2) alloc t w 1 ?t1 v phys c (512 * 512) (idx FourKiB 1 v) 0 s m = None" if c: "2 \<le> c" for c
  proof (rule walk_entries_panics [where q = q1 and nx = 511 and v = v and p = phys])
    show "step alloc t w ?f 2 (ptr_from_phys q1) v phys (min (c - 0) (512 * 512 - 511)) s m = None" using c by (intro s2) simp
  qed (use c q1 i [of 1] ix [of 2] i2 ptr [OF wf(1)] vm ent in \<open>simp_all add: t(1) numeral_2_eq_2 [symmetric]\<close>)
  have s1: "step alloc t w ?f 1 ?t1 v phys c s m = None" if "2 \<le> c" for c
    using p1 [OF that] that ix [of 1] by (simp add: step.simps [of alloc t w ?f "Suc 0"] w t(1) pages_per_entry_def numeral_2_eq_2)
  have p0: "walk_entries (step alloc t w ?f 1) alloc t w 0 (root t) v phys n (512 * 512 * 512) (idx FourKiB 0 v) 0 s m = None"
  proof (rule walk_entries_panics [where q = q0 and nx = "idx FourKiB 1 v" and v = v and p = phys])
    show "step alloc t w ?f 1 (ptr_from_phys q0) v phys (min (n - 0) (512 * 512 * 512 - idx FourKiB 1 v)) s m = None"
      using n i [of 1] by (intro s1) simp
  qed (use n q0 i [of 0] i [of 1] ix [of 1] ptr [OF wf0] vm ent in \<open>simp_all add: t(1)\<close>)
  then have s0: "step alloc t w ?f 0 (root t) v phys n s m = None"
    using n ix [of 0] by (simp add: step.simps [of alloc t w ?f 0] w t(1) pages_per_entry_def)
  have b: "block_level Page FourKiB = Some 3" "entry_span FourKiB 3 = 0x1000" "0 < n" "v mod 0x1000 = 0"
  proof -
    have "v mod 0x1000 = v mod 1073741824 mod 0x1000" by (simp add: mod_mod_cancel)
    then show "v mod 0x1000 = 0" using v30 by simp
  qed (use n in \<open>simp_all add: block_level_def entry_span_def\<close>)
  show ?thesis
    using for_each_entry_step [OF t(1) b(1,3), unfolded b(2), OF v(4) b(4) phys(1), of alloc True ?f s m] s0 v(3)
    by (simp add: pt_map_def w_def)
qed

text \<open>C25: mapping at least two 4 KiB pages that start on the last page before a 1 GiB boundary
  never succeeds, whatever the tables and the allocator hold: the walker hands all of them to
  the level 2 table before the boundary.  When the tables down to that page exist, so that nothing has to be
  allocated, the call panics.\<close>

theorem map_pages_across_gigabyte_fails:
  assumes "pt_page_size t = FourKiB" and "tables_ok t m" and "v mod 2 ^ 30 = 2 ^ 30 - 0x1000" and "v \<le> usize_max"
    and "is_in_kernel_space v = high_tag t" and "low v + n * 0x1000 \<le> 2 ^ 48" and "2 \<le> n"
    and "phys mod 0x1000 = 0" and "phys + n * 0x1000 \<le> 2 ^ 48"
  shows "(\<forall>s' m'. pt_map alloc t v phys n Page props s m \<noteq> Some (Inr (), s', m')) \<and>
    ((\<exists>q0 q1 q2. entry_decode (m (root t + 8 * idx FourKiB 0 v)) 0 = Some (Table q0) \<and>
        entry_decode (m (ptr_from_phys q0 + 8 * idx FourKiB 1 v)) 1 = Some (Table q1) \<and>
        entry_decode (m (ptr_from_phys q1 + 8 * idx FourKiB 2 v)) 2 = Some (Table q2)) \<longrightarrow>
      pt_map alloc t v phys n Page props s m = None)"
proof -
  have "entries_per_page t = 512" "n < 2 ^ 48" using assms(1,2,6,7) by (simp_all add: tables_ok_def entries_def)
  then show ?thesis
    using map_pages_across_gigabyte_no_success [OF assms(1) _ assms(3,7), where alloc = alloc and s = s]
      map_pages_across_gigabyte_panics [OF assms(1-9), where alloc = alloc and s = s] by blast
qed

section \<open>Concrete tables\<close>

text \<open>A table with one entry, which refers to a well-formed table.\<close>

lemma one_entry_table:
  assumes "L < 3" and "table_ok ps t" and "i < entries ps" and "entry_decode (m (t + 8 * i)) L = Some (Table q)"
    and "wf_table ps m (Suc L) (ptr_from_phys q)" and "\<forall>j < entries ps. j \<noteq> i \<longrightarrow> m (t + 8 * j) = 0"
    and "foot ps m (Suc L) (ptr_from_phys q) \<inter> table_bytes ps t = {}"
  shows "wf_table ps m L t" and "foot ps m L t = table_bytes ps t \<union> foot ps m (Suc L) (ptr_from_phys q)"
proof -
  have cf: "child_foot ps m L t j = (if j = i then foot ps m (Suc L) (ptr_from_phys q) else {})" if "j < entries ps" for j
    using that assms(4,6) by (simp add: child_foot_def)
  have "entry_ok ps m L (m (t + 8 * j))" if "j < entries ps" for j
    using that assms(1,4,5,6) by (cases "j = i") (simp_all add: entry_ok_def)
  then show "wf_table ps m L t" unfolding wf_table_entries [of ps m L t] using assms(2,7) cf by auto
  show "foot ps m L t = table_bytes ps t \<union> foot ps m (Suc L) (ptr_from_phys q)"
    using assms(1,3) cf by (auto simp: foot_children)
qed

text \<open>Empty tables with their root in the first page of the arena of four pages, whose second
  page is free.\<close>

definition tables4 :: PageTables where
  "tables4 = \<lparr>entries_per_page = 512, root = 0xffff000000000000, pt_page_size = FourKiB, high_tag = False\<rparr>"

lemma pool4: "buddy_pool (arena4 [0xffff000000001000, 0, 0]) (\<lambda>_. 0) {0xffff000000001000 ..< 0xffff000000002000}"
  unfolding buddy_pool_def
  using arena4_page [of "0xffff000000001000"] by (intro exI conjI) (auto simp: arena4_def free_bytes_def blocks_three span_def)

lemma tables4_ok: "tables_ok tables4 (\<lambda>_. 0)" and tables4_foot: "tables_foot tables4 (\<lambda>_. 0) = {0xffff000000000000 ..< 0xffff000000001000}"
  using zero_table(1,2) [of 0 FourKiB "0xffff000000000000" "\<lambda>_. 0"]
  by (simp_all add: tables_ok_def tables_foot_def tables4_def entries_def table_ok_def table_bytes_def)

lemma run4: "\<forall>L < 1. run_ok FourKiB 1 L y n"
  by (simp add: run_ok_def pages_per_entry_def entry_span_def Let_def)

lemma user4: "\<not> is_in_kernel_space 0x40000000"
  by (simp add: in_kernel_space_iff usize_max_def)

text \<open>Mapping a block in these tables, which takes the free page for a level 1 table.\<close>

abbreviation props4 :: MemoryProperties where
  "props4 \<equiv> \<lparr>kind = Normal, user_space_access = True, writable = True, executable = False, shareability = Global\<rparr>"

lemma tables4_sel: "entries_per_page tables4 = 512" "root tables4 = 0xffff000000000000" "pt_page_size tables4 = FourKiB" "\<not> high_tag tables4"
  by (simp_all add: tables4_def)

lemma alloc4: "\<exists>s'. allocate_zeroed buddy_allocate FourKiB (arena4 [0xffff000000001000, 0, 0]) (\<lambda>_. 0) 1 = Some (Inr 0x1000, s', \<lambda>_. 0) \<and> page_size s' = FourKiB"
  by (simp add: allocate_zeroed_def buddy_allocate_def next_power_1 find_free.simps pop_free_def nth_p_def arena4_def next_block_def
   split_block_to_size.simps phys_from_ptr_def ilog2_power [of 0, simplified] page_size_mul_def mul_p_def usize_max_def write_zeroes_def fun_eq_iff)

lemma map4_succeeds:
  "\<exists>s' m'. pt_map buddy_allocate tables4 0x40000000 0x80000000 1 LargeBlock props4 (arena4 [0xffff000000001000, 0, 0]) (\<lambda>_. 0) =
     Some (Inr (), s', m') \<and> page_size s' = FourKiB"
proof -
  let ?w = "\<lparr>end_level = 1, block_size_in_bytes = 2 ^ 30, block_size_in_pages = 2 ^ 30 div 4096, create_on_empty = True\<rparr>"
  let ?f = "map_entry LargeBlock props4"
  have "pt_map buddy_allocate tables4 0x40000000 0x80000000 1 LargeBlock props4 (arena4 [0xffff000000001000, 0, 0]) (\<lambda>_. 0) =
      step buddy_allocate tables4 ?w ?f 0 (root tables4) 0x40000000 0x80000000 1 (arena4 [0xffff000000001000, 0, 0]) (\<lambda>_. 0)"
    using for_each_entry_step [of tables4 FourKiB LargeBlock 1 1 "0x40000000" "0x80000000"] user4
    by (simp add: pt_map_def tables4_sel block_level_def entry_span_def low_def)
  also have "\<exists>s' m'. \<dots> = Some (Inr (), s', m') \<and> page_size s' = FourKiB"
  proof -
    have ix: "index_for_level 0x40000000 0 FourKiB = Some 0" "index_for_level 0x40000000 (Suc 0) FourKiB = Some 1"
      by (simp_all add: index_for_level_idx idx_def table_span_def entry_span_def)
    obtain e where e: "for_table 0x1000 = Some e" using entry_decode_table [of "0x1000"] by auto
    have f: "for_block 0x80000000 props4 = Some (raw_entry 1 0x80000000 props4)" by (rule entry_makers(1)) simp
    obtain s' where "allocate_zeroed buddy_allocate FourKiB (arena4 [0xffff000000001000, 0, 0]) (\<lambda>_. 0) (Suc 0) = Some (Inr 0x1000, s', \<lambda>_. 0)"
      "page_size s' = FourKiB" using alloc4 by auto
    then show ?thesis using ix e f
      by (simp add: step.simps tables4_sel pages_per_entry_def walk_entries.simps next_table_for_entry_def and_then_def
          mul_p_def add_p_def sub_p_def virt_byte_add_def phys_byte_add_def usize_max_def ptr_from_phys_add map_entry_def Let_def)
  qed
  finally show ?thesis .
qed

lemma hyps4:
  "page_size (arena4 [0xffff000000001000, 0, 0]) = pt_page_size tables4"
  "tables_foot tables4 (\<lambda>_. 0) \<inter> {0xffff000000001000 ..< 0xffff000000002000} = {}"
  "block_level LargeBlock (pt_page_size tables4) = Some 1" "2 ^ 30 = entry_span (pt_page_size tables4) 1" "0 < (1 :: nat)"
  "low 0x40000000 + 1 * 2 ^ 30 \<le> 2 ^ 48" "0x80000000 + 1 * 2 ^ 30 \<le> (2 ^ 48 :: nat)" "0x40000000 \<le> usize_max" "0x40000000 mod 2 ^ 30 = (0 :: nat)"
  "0x80000000 mod 2 ^ 30 = (0 :: nat)" "is_in_kernel_space 0x40000000 = high_tag tables4"
  "\<forall>L < 1. run_ok (pt_page_size tables4) 1 L (low 0x40000000) 1"
  using user4 run4 tables4_foot by (simp_all add: tables4_sel arena4_def block_level_def entry_span_def low_def usize_max_def)

text \<open>There are no blocks in a level 0 table.\<close>

lemma no_block_above_level1:
  assumes "tables_ok t m"
  shows "\<not> large_block (pt_page_size t) m 1 p 0 (root t)"
proof -
  let ?ps = "pt_page_size t"
  have "entry_ok ?ps m 0 (m (root t + 8 * idx ?ps 0 p))"
    using assms idx_less [of 0 ?ps p] by (intro wf_entry_ok) (simp_all add: tables_ok_def)
  moreover have "offset_mask ?ps 0 = None" by (cases ?ps) (simp_all add: offset_mask_def)
  ultimately show ?thesis
    by (auto simp: large_block.simps [of ?ps m "Suc 0" p 0] large_block_end entry_ok_def split: option.splits DecodedEntry.splits)
qed


theorem pt_unmap_correct_witness:
  "\<exists>s m m'. physical_address_of tables4 m 0x40001234 = Some (Some 0x80001234) \<and>
     pt_unmap buddy_allocate tables4 0x40000000 1 LargeBlock s m = Some (Inr (), s, m') \<and> physical_address_of tables4 m' 0x40001234 = Some None"
proof -
  obtain s m where ok: "pt_map buddy_allocate tables4 0x40000000 0x80000000 1 LargeBlock props4 (arena4 [0xffff000000001000, 0, 0]) (\<lambda>_. 0) =
      Some (Inr (), s, m)" "page_size s = FourKiB" using map4_succeeds by blast
  obtain r1 s1 m1 P where m1: "pt_map buddy_allocate tables4 0x40000000 0x80000000 1 LargeBlock props4 (arena4 [0xffff000000001000, 0, 0]) (\<lambda>_. 0) =
      Some (r1, s1, m1)" "buddy_pool s1 m1 P" "tables_ok tables4 m1" "tables_foot tables4 m1 \<inter> P = {}"
    "\<forall>p. is_in_kernel_space p = high_tag tables4 \<longrightarrow>
       (if low 0x40000000 \<le> low p \<and> low p < low 0x40000000 + 1 * 2 ^ 30
        then physical_address_of tables4 m1 p = Some (Some (0x80000000 + (low p - low 0x40000000))) \<or>
          r1 \<noteq> Inr () \<and> physical_address_of tables4 m1 p = physical_address_of tables4 (\<lambda>_. 0) p
        else physical_address_of tables4 m1 p = physical_address_of tables4 (\<lambda>_. 0) p)"
    using pt_map_spec [OF pool4 hyps4(1) tables4_ok hyps4(2-12), of props4] by blast
  have "r1 = Inr ()" "s1 = s" "m1 = m" using ok(1) m1(1) by simp_all
  note P = m1(2-5) [unfolded this]
  have ps: "page_size s = pt_page_size tables4" using ok(2) by (simp add: tables4_sel)
  obtain r m' where r: "pt_unmap buddy_allocate tables4 0x40000000 1 LargeBlock s m = Some (r, s, m')"
    "\<forall>p. is_in_kernel_space p = high_tag tables4 \<longrightarrow>
       (if low 0x40000000 \<le> low p \<and> low p < low 0x40000000 + 1 * 2 ^ 30
        then physical_address_of tables4 m' p = Some None \<or> r \<noteq> Inr () \<and> physical_address_of tables4 m' p = physical_address_of tables4 m p
        else physical_address_of tables4 m' p = physical_address_of tables4 m p)"
    "\<forall>err. r = Inl err \<longrightarrow> map_error_ok tables4 False 1 0x40000000 (1 * 2 ^ 30) m P err"
    using pt_unmap_correct [OF P(1) ps P(2,3) hyps4(3-6,8,9,11,12)] by blast
  have run: "\<not> is_in_kernel_space p \<and> physical_address_of tables4 m p = Some (Some (p + 0x40000000))" if "0x40000000 \<le> p" "p < 0x80000000" for p
  proof -
    have "\<not> is_in_kernel_space p" using that by (subst in_kernel_space_iff) (simp_all add: usize_max_def)
    then show ?thesis using P(4) [rule_format, of p] that by (simp add: tables4_sel low_def)
  qed
  have "r = Inr ()"
  proof (cases r)
    case (Inl err)
    then show ?thesis using r(3) run no_block_above_level1 [OF P(2)] by (auto simp: map_error_ok_def)
  qed simp
  then show ?thesis using r(1) r(2) [rule_format, of "0x40001234"] run [of "0x40001234"] by (intro exI [of _ s] exI [of _ m] exI [of _ m']) (simp add: tables4_sel low_def)
qed

text \<open>The same tables with a page table for the last 2 MiB of the first GiB.\<close>

definition deep4 :: mem where
  "deep4 = (\<lambda>_. 0)(0xffff000000000000 := 0x2003, 0xffff000000002000 := 0x3003, 0xffff000000003ff8 := 0x5003)"

lemma deep4_tables:
  "tables_ok tables4 deep4" "entry_decode (deep4 0xffff000000000000) 0 = Some (Table 0x2000)"
  "entry_decode (deep4 0xffff000000002000) 1 = Some (Table 0x3000)" "entry_decode (deep4 0xffff000000003ff8) 2 = Some (Table 0x5000)"
proof -
  have d: "entry_decode (deep4 0xffff000000000000) 0 = Some (Table 0x2000)"
    "entry_decode (deep4 0xffff000000002000) 1 = Some (Table 0x3000)" "entry_decode (deep4 0xffff000000003ff8) 2 = Some (Table 0x5000)"
    by (simp_all add: deep4_def entry_decode_def phys_from_usize_def Let_def)
  show "entry_decode (deep4 0xffff000000000000) 0 = Some (Table 0x2000)"
    "entry_decode (deep4 0xffff000000002000) 1 = Some (Table 0x3000)" "entry_decode (deep4 0xffff000000003ff8) 2 = Some (Table 0x5000)" by (fact d)+
  have p: "ptr_from_phys 0x2000 = 0xffff000000002000" "ptr_from_phys 0x3000 = 0xffff000000003000" "ptr_from_phys 0x5000 = 0xffff000000005000"
    by (simp_all add: ptr_from_phys_add)
  have ok: "table_ok FourKiB 0xffff000000000000" "table_ok FourKiB 0xffff000000002000" "table_ok FourKiB 0xffff000000003000"
    "table_ok FourKiB 0xffff000000005000" by (simp_all add: table_ok_def)
  have "\<forall>x \<in> table_bytes FourKiB 0xffff000000005000. deep4 x = 0" by (auto simp: deep4_def table_bytes_def)
  note t3 = zero_table(1,2) [OF order_refl ok(4) this]
  have z: "\<forall>j < 512. j \<noteq> 0 \<longrightarrow> deep4 (0xffff000000000000 + 8 * j) = 0" "\<forall>j < 512. j \<noteq> 0 \<longrightarrow> deep4 (0xffff000000002000 + 8 * j) = 0"
    "\<forall>j < 512. j \<noteq> 511 \<longrightarrow> deep4 (0xffff000000003000 + 8 * j) = 0" by (simp_all add: deep4_def)
  have dj: "table_bytes FourKiB 0xffff000000005000 \<inter> table_bytes FourKiB 0xffff000000003000 = {}"
    "(table_bytes FourKiB 0xffff000000003000 \<union> table_bytes FourKiB 0xffff000000005000) \<inter> table_bytes FourKiB 0xffff000000002000 = {}"
    "(table_bytes FourKiB 0xffff000000002000 \<union> (table_bytes FourKiB 0xffff000000003000 \<union> table_bytes FourKiB 0xffff000000005000)) \<inter>
      table_bytes FourKiB 0xffff000000000000 = {}" by (auto simp: table_bytes_def)
  have n: "Suc 2 = 3" "Suc 1 = 2" "Suc 0 = 1" "entries FourKiB = 512" by (simp_all add: entries_def)
  have l: "(2 :: nat) < 3" "(1 :: nat) < 3" "(0 :: nat) < 3" "(511 :: nat) < 512" "(0 :: nat) < 512"
    "0xffff000000003000 + 8 * 511 = (0xffff000000003ff8 :: nat)" "0xffff000000002000 + 8 * 0 = (0xffff000000002000 :: nat)"
    "0xffff000000000000 + 8 * 0 = (0xffff000000000000 :: nat)" by simp_all
  note t2 = one_entry_table [of 2 FourKiB "0xffff000000003000" 511 deep4 "0x5000", unfolded n p l(6) t3(2),
      OF l(1) ok(3) l(4) d(3) t3(1) z(3) dj(1)]
  note t1 = one_entry_table [of 1 FourKiB "0xffff000000002000" 0 deep4 "0x3000", unfolded n p l(7) t2(2),
      OF l(2) ok(2) l(5) d(2) t2(1) z(2) dj(2)]
  have "wf_table FourKiB deep4 0 0xffff000000000000"
    by (rule one_entry_table(1) [of 0 FourKiB "0xffff000000000000" 0 deep4 "0x2000", unfolded n p l(8) t1(2),
      OF l(3) ok(1) l(5) d(1) t1(1) z(1) dj(3)])
  then show "tables_ok tables4 deep4" by (simp add: tables_ok_def tables4_sel entries_def)
qed

theorem map_pages_across_gigabyte_fails_witness:
  "pt_map buddy_allocate tables4 0x3ffff000 0 2 Page props4 (arena4 [0xffff000000001000, 0, 0]) deep4 = None"
proof -
  have "\<not> is_in_kernel_space 0x3ffff000" by (simp add: in_kernel_space_iff usize_max_def)
  moreover have "ptr_from_phys 0x2000 = 0xffff000000002000" "ptr_from_phys 0x3000 = 0xffff000000003000" by (simp_all add: ptr_from_phys_add)
  ultimately show ?thesis
    using map_pages_across_gigabyte_fails [of tables4 deep4 "0x3ffff000" 2 0 buddy_allocate props4 "arena4 [0xffff000000001000, 0, 0]"] deep4_tables
    by (simp add: tables4_sel idx_def table_span_def entry_span_def low_def usize_max_def)
qed

lemma pt_empty_correct_example:
  "\<exists>r s' m'. pt_empty buddy_allocate FourKiB (arena4 [0xffff000000001000, 0, 0]) (\<lambda>_. 0) = Some (r, s', m') \<and>
     m' 0xffff000000003000 = 0"
proof -
  have "FourKiB = page_size (arena4 [0xffff000000001000, 0, 0])" by (simp add: arena4_def)
  note c = pt_empty_correct [OF pool4 this]
  show ?thesis
  proof (cases "pt_empty buddy_allocate FourKiB (arena4 [0xffff000000001000, 0, 0]) (\<lambda>_. 0)")
    case (Some x)
    obtain r s' m' where x: "x = (r, s', m')" by (cases x) auto
    show ?thesis using c Some x by (cases r) auto
  qed (use c in simp)
qed

end
