(* ===== verification/Start.thy ===== *)
theory Start
  imports Page_Map
begin

text \<open>
  The entry of the kernel, \<^verbatim>\<open>kernel/src/start.S\<close>: the first translation tables, in the section
  \<^verbatim>\<open>.data.boot\<close>, and the code that runs before \<^verbatim>\<open>kmain\<close> and \<^verbatim>\<open>secondary_core_kmain\<close>.  The labels are the
  fields of \<open>Symbols\<close>, with the addresses that \<^verbatim>\<open>link.ld\<close> gives them; the code runs at the physical addresses, so that
  \<^verbatim>\<open>adr\<close> yields the physical address of a label.  Memory is indexed by kernel addresses in the
  whole development, and so is the table that is written before the MMU is on.
\<close>

section \<open>Model\<close>

record Symbols =
  kernel_page_table_root :: ptr
  kernel_id_map_level1_table :: ptr
  stack_start :: ptr
  kmain_label :: ptr
  secondary_core_kmain_label :: ptr

record CoreRegs =
  x0 :: u64
  SP :: u64
  PC :: u64
  SCTLR_EL1 :: u64
  TTBR0_EL1 :: u64
  TTBR1_EL1 :: u64
  TCR_EL1 :: u64
  CPACR_EL1 :: u64

definition adr :: "ptr \<Rightarrow> u64" where
  "adr label = word_of_nat (phys_from_ptr label)"

definition movk :: "u64 \<Rightarrow> u64 \<Rightarrow> nat \<Rightarrow> u64" where
  "movk x imm lsl = (x AND NOT (push_bit lsl 0xffff)) OR push_bit lsl imm"

definition TCR_VALUE :: u64 where
  "TCR_VALUE = movk (movk 0x3510 0x8410 16) 0x0784 32"

text \<open>The section \<^verbatim>\<open>.data.boot\<close>.\<close>

definition root_data :: "u64 list" where
  "root_data = replicate 512 0"

definition level1_data :: "u64 list" where
  "level1_data = [0x00000000 OR push_bit 10 1 OR 1, 0x40000000 OR push_bit 10 1 OR 1, 0x80000000 OR push_bit 10 1 OR 1,
     0xc0000000 OR push_bit 10 1 OR 1] @ replicate 508 0"

definition data_boot :: "Symbols \<Rightarrow> mem \<Rightarrow> bool" where
  "data_boot sy m \<longleftrightarrow>
     kernel_page_table_root sy mod 4096 = 0 \<and> map (\<lambda>i. m (kernel_page_table_root sy + 8 * i)) [0..<512] = root_data \<and>
     kernel_id_map_level1_table sy mod 4096 = 0 \<and> map (\<lambda>i. m (kernel_id_map_level1_table sy + 8 * i)) [0..<512] = level1_data"

definition start :: "Symbols \<Rightarrow> CoreRegs \<Rightarrow> mem \<Rightarrow> CoreRegs \<times> mem" where
  "start sy r m = (
     let r = r\<lparr>SCTLR_EL1 := SCTLR_EL1 r AND NOT 1\<rparr>;
         x1 = adr (kernel_page_table_root sy);
         x2 = (adr (kernel_id_map_level1_table sy) AND NOT 0xfff) OR 3;
         m = m(ptr_from_phys (unat x1) := x2);
         r = r\<lparr>TTBR0_EL1 := x1, TTBR1_EL1 := x1\<rparr>;
         r = r\<lparr>TCR_EL1 := TCR_VALUE\<rparr>;
         r = r\<lparr>SCTLR_EL1 := SCTLR_EL1 r OR 1\<rparr>;
         r = r\<lparr>SP := movk (adr (stack_start sy)) 0xffff 48\<rparr>
     in (r\<lparr>PC := movk (adr (kmain_label sy)) 0xffff 48\<rparr>, m))"

definition secondary_core_start :: "Symbols \<Rightarrow> CoreRegs \<Rightarrow> CoreRegs" where
  "secondary_core_start sy r = (
     let r = r\<lparr>SP := x0 r\<rparr>;
         r = r\<lparr>CPACR_EL1 := 0x300000\<rparr>;
         root = adr (kernel_page_table_root sy);
         r = r\<lparr>TTBR0_EL1 := root, TTBR1_EL1 := root\<rparr>;
         r = r\<lparr>TCR_EL1 := TCR_VALUE\<rparr>;
         r = r\<lparr>SCTLR_EL1 := SCTLR_EL1 r OR 1, x0 := SCTLR_EL1 r OR 1\<rparr>
     in r\<lparr>PC := movk (adr (secondary_core_kmain_label sy)) 0xffff 48\<rparr>)"

section \<open>Addresses\<close>

lemma take_bit_self: "unat w < 2 ^ n \<Longrightarrow> take_bit n (w :: u64) = w"
  by (simp add: word_unat_eq_iff unsigned_take_bit_eq take_bit_nat_eq_self_iff)

lemma movk_kernel:
  assumes "0xffff000000000000 \<le> p" and "p \<le> usize_max"
  shows "movk (adr p) 0xffff 48 = word_of_nat p" and "unat (adr p) = phys_from_ptr p"
proof -
  let ?q = "phys_from_ptr p"
  have q: "?q < 2 ^ 48" by (simp add: phys_from_ptr_mod)
  then show u: "unat (adr p) = ?q" by (simp add: adr_def unat_of_nat)
  have f: "(0xffff :: u64) = mask 16" by (simp add: mask_eq_exp_minus_1)
  have "adr p AND NOT (push_bit 48 0xffff) = take_bit 48 (adr p)"
    unfolding f by (rule bit_word_eqI) (auto simp: bit_simps)
  also have "\<dots> = adr p"
    using q u by (intro take_bit_self) simp
  finally have "movk (adr p) 0xffff 48 = adr p OR 0xffff000000000000" by (simp add: movk_def)
  then have "unat (movk (adr p) 0xffff 48) = ?q OR 0xffff000000000000" using u by (simp add: unsigned_or_eq)
  also have "\<dots> = p" using ptr_phys_roundtrip [OF assms] by (simp add: ptr_from_phys_def)
  finally show "movk (adr p) 0xffff 48 = word_of_nat p" by (metis of_nat_unat ucast_id)
qed

lemma level0_entry:
  assumes "a < 2 ^ 48" and "a mod 4096 = 0"
  shows "for_table a = Some ((word_of_nat a AND NOT 0xfff) OR 3)"
proof -
  let ?w = "word_of_nat a :: u64"
  have "unat ?w = a" using assms(1) by (simp add: unat_of_nat)
  then have w: "?w = take_bit 48 ?w" using assms(1) take_bit_self [of ?w 48] by simp
  have f: "(0xfff :: u64) = mask 12" "(0x0000fffffffff000 :: u64) = push_bit 12 (mask 36)" by (simp_all add: mask_eq_exp_minus_1)
  have "take_bit 48 ?w AND NOT 0xfff = take_bit 48 ?w AND 0x0000fffffffff000"
    unfolding f by (rule bit_word_eqI) (auto simp: bit_simps)
  then have "?w AND NOT 0xfff = ?w AND 0x0000fffffffff000" using w by simp
  moreover have "a AND 0xfff = 0" using assms(2) take_bit_eq_mask [of 12 a] by (simp add: take_bit_eq_mod mask_eq_exp_minus_1)
  ultimately show ?thesis by (simp add: for_table_def ac_simps)
qed

section \<open>The first tables\<close>

text \<open>Tables with a single level 1 table \<open>l\<close>, for the first 512 GiB, that has no tables below it.\<close>

definition one_level1 :: "ptr \<Rightarrow> ptr \<Rightarrow> mem \<Rightarrow> bool" where
  "one_level1 r l m \<longleftrightarrow> table_ok FourKiB r \<and> r \<noteq> l \<and> for_table (phys_from_ptr l) = Some (m r) \<and>
     (\<forall>i. 0 < i \<and> i < 512 \<longrightarrow> m (r + 8 * i) = 0) \<and> wf_table FourKiB m 1 l \<and> foot FourKiB m 1 l = table_bytes FourKiB l"

definition kernel_pt :: "ptr \<Rightarrow> PageTables" where
  "kernel_pt r = \<lparr> entries_per_page = 512, root = r, pt_page_size = FourKiB, high_tag = True \<rparr>"

lemma kernel_pt_sel [simp]: "entries_per_page (kernel_pt r) = 512" "root (kernel_pt r) = r" "pt_page_size (kernel_pt r) = FourKiB"
  "high_tag (kernel_pt r)"
  by (simp_all add: kernel_pt_def)

lemma table_pages_disjoint:
  assumes "table_ok ps r" and "table_ok ps l" and "r \<noteq> l"
  shows "table_bytes ps r \<inter> table_bytes ps l = {}"
proof -
  have "r div page_bytes ps \<noteq> l div page_bytes ps"
    using assms unfolding table_ok_def by (metis div_mult_mod_eq)
  then show ?thesis using assms span_block [OF page_bytes_pos] unfolding table_bytes_def table_ok_def by fastforce
qed

lemma one_level1_tables:
  assumes "one_level1 r l m"
  shows "entry_decode (m r) 0 = Some (Table (phys_from_ptr l))" and "ptr_from_phys (phys_from_ptr l) = l"
    and "table_bytes FourKiB r \<inter> table_bytes FourKiB l = {}"
    and "tables_ok (kernel_pt r) m" and "tables_foot (kernel_pt r) m = table_bytes FourKiB r \<union> table_bytes FourKiB l"
proof -
  let ?q = "phys_from_ptr l" and ?ps = FourKiB
  have wf: "wf_table ?ps m 1 l" and f: "foot ?ps m 1 l = table_bytes ?ps l" and r: "table_ok ?ps r" "r \<noteq> l"
    and z: "\<forall>i. 0 < i \<and> i < 512 \<longrightarrow> m (r + 8 * i) = 0"
    using assms by (auto simp: one_level1_def)
  have l: "table_ok ?ps l" using wf by (subst (asm) wf_table_entries) blast
  then have l': "0xffff000000000000 \<le> l" "l \<le> usize_max" "l mod 4096 = 0" by (auto simp: table_ok_def usize_max_def)
  then show ptr: "ptr_from_phys ?q = l" by (intro ptr_phys_roundtrip)
  have "?q < 2 ^ 48" "?q mod 4096 = 0" using l'(3) by (simp_all add: phys_from_ptr_mod mod_mod_cancel)
  from entry_decode_table [OF this, of 0] show d: "entry_decode (m r) 0 = Some (Table ?q)"
    using assms by (auto simp: one_level1_def)
  show dj: "table_bytes ?ps r \<inter> table_bytes ?ps l = {}" by (rule table_pages_disjoint [OF r(1) l r(2)])
  have cf: "child_foot ?ps m 0 r i = (if i = 0 then table_bytes ?ps l else {})" if "i < 512" for i
    using that z d ptr f by (auto simp: child_foot_def)
  have ok: "entry_ok ?ps m 0 (m (r + 8 * i))" if "i < 512" for i
    using that z d ptr wf by (cases "i = 0") (auto simp: entry_ok_def)
  have "wf_table ?ps m 0 r"
    unfolding wf_table_entries [of ?ps m 0 r] using r(1) ok cf dj by (auto simp: entries_def)
  then show "tables_ok (kernel_pt r) m" by (simp add: tables_ok_def entries_def)
  have "(\<Union>i \<in> {..<512}. child_foot ?ps m 0 r i) = table_bytes ?ps l" using cf by (auto split: if_splits)
  then show "tables_foot (kernel_pt r) m = table_bytes ?ps r \<union> table_bytes ?ps l"
    unfolding tables_foot_def by (simp add: foot_children entries_def)
qed

lemma one_level1_frame:
  assumes "one_level1 r l m" and "\<forall>x \<in> table_bytes FourKiB r \<union> table_bytes FourKiB l. m' x = m x"
  shows "one_level1 r l m'"
proof -
  have o: "table_ok FourKiB r" "r \<noteq> l" "for_table (phys_from_ptr l) = Some (m r)" "\<forall>i. 0 < i \<and> i < 512 \<longrightarrow> m (r + 8 * i) = 0"
    "wf_table FourKiB m 1 l" "foot FourKiB m 1 l = table_bytes FourKiB l" using assms(1) by (auto simp: one_level1_def)
  have e: "m' (r + 8 * i) = m (r + 8 * i)" if "i < 512" for i
    using assms(2) entry_in_table [of i FourKiB r] that by (simp add: entries_def)
  have "wf_table FourKiB m' 1 l" "foot FourKiB m' 1 l = table_bytes FourKiB l"
    using wf_table_frame [of 1 FourKiB m l m'] foot_frame [of 1 FourKiB m l m'] o(5,6) assms(2) by simp_all
  then show ?thesis using o e [of 0] e by (simp add: one_level1_def)
qed

lemma level1_entry:
  assumes "data_boot sy m" and "i < 512"
  shows "m (kernel_id_map_level1_table sy + 8 * i) = level1_data ! i" and "m (kernel_page_table_root sy + 8 * i) = 0"
proof -
  have "map (\<lambda>i. m (kernel_id_map_level1_table sy + 8 * i)) [0..<512] ! i = level1_data ! i"
    "map (\<lambda>i. m (kernel_page_table_root sy + 8 * i)) [0..<512] ! i = root_data ! i"
    using assms(1) by (simp_all add: data_boot_def)
  then show "m (kernel_id_map_level1_table sy + 8 * i) = level1_data ! i" "m (kernel_page_table_root sy + 8 * i) = 0"
    using assms(2) by (simp_all add: root_data_def)
qed

text \<open>The entries of the level 1 table: four blocks of 1 GiB.\<close>

lemma level1_decode:
  "i < 512 \<Longrightarrow> entry_decode (level1_data ! i) 1 = (if i < 4 then Some (Block (i * 2 ^ 30)) else Some Empty)"
proof -
  assume i: "i < 512"
  consider "i = 0" | "i = 1" | "i = 2" | "i = 3" | "4 \<le> i" by linarith
  then show ?thesis
  proof cases
    case 5
    then have "level1_data ! i = 0" using i by (simp add: level1_data_def nth_append)
    then show ?thesis using 5 by simp
  qed (simp_all add: level1_data_def entry_decode_def phys_from_usize_def)
qed

definition symbols_ok :: "Symbols \<Rightarrow> bool" where
  "symbols_ok sy \<longleftrightarrow> table_ok FourKiB (kernel_page_table_root sy) \<and> table_ok FourKiB (kernel_id_map_level1_table sy) \<and>
     kernel_page_table_root sy \<noteq> kernel_id_map_level1_table sy"

lemma start_one_level1:
  assumes d: "data_boot sy m" and sy: "symbols_ok sy"
  shows "one_level1 (kernel_page_table_root sy) (kernel_id_map_level1_table sy) (snd (start sy r m))"
    and "i < 512 \<Longrightarrow> snd (start sy r m) (kernel_id_map_level1_table sy + 8 * i) = level1_data ! i"
proof -
  let ?r = "kernel_page_table_root sy" and ?l = "kernel_id_map_level1_table sy" and ?m = "snd (start sy r m)"
  have t: "table_ok FourKiB ?r" "table_ok FourKiB ?l" "?r \<noteq> ?l" using sy by (simp_all add: symbols_ok_def)
  have b: "0xffff000000000000 \<le> ?r" "?r \<le> usize_max" "?l mod 4096 = 0" using t by (simp_all add: table_ok_def usize_max_def)
  have "phys_from_ptr ?l < 2 ^ 48" "phys_from_ptr ?l mod 4096 = 0" using b(3) by (simp_all add: phys_from_ptr_mod mod_mod_cancel)
  note e = level0_entry [OF this]
  have m: "?m = m(?r := (adr ?l AND NOT 0xfff) OR 3)"
    using movk_kernel(2) [OF b(1,2)] ptr_phys_roundtrip [OF b(1,2)] by (simp add: start_def Let_def)
  have "?r \<in> table_bytes FourKiB ?r" using entry_in_table [of 0 FourKiB ?r] by (simp add: entries_def)
  then have ne: "?l + 8 * j \<noteq> ?r" if "j < 512" for j
    using that entry_in_table [of j FourKiB ?l] table_pages_disjoint [OF t] by (auto simp: entries_def)
  then show l: "?m (?l + 8 * i) = level1_data ! i" if "i < 512" for i using that level1_entry [OF d] by (simp add: m)
  have dec: "entry_decode (?m (?l + 8 * i)) 1 = (if i < 4 then Some (Block (i * 2 ^ 30)) else Some Empty)" if "i < 512" for i
    using that l level1_decode by simp
  have cf: "child_foot FourKiB ?m 1 ?l i = {}" if "i < 512" for i using dec [OF that] by (simp add: child_foot_def)
  have ok: "entry_ok FourKiB ?m 1 (?m (?l + 8 * i))" if "i < 512" for i
    using dec [OF that] by (simp add: entry_ok_def offset_mask_def)
  have "wf_table FourKiB ?m 1 ?l" unfolding wf_table_entries [of FourKiB ?m 1 ?l] using t(2) ok cf by (simp add: entries_def)
  moreover have "foot FourKiB ?m 1 ?l = table_bytes FourKiB ?l" using cf by (simp add: foot_children entries_def)
  moreover have "?m (?r + 8 * i) = 0" if "0 < i" "i < 512" for i using that level1_entry [OF d] by (simp add: m)
  ultimately show "one_level1 ?r ?l ?m" using t e by (simp add: one_level1_def m adr_def)
qed

lemma start_translate:
  assumes "data_boot sy m" and "symbols_ok sy" and "low p < 2 ^ 32"
  shows "translate FourKiB (snd (start sy r m)) p 0 (kernel_page_table_root sy) = Some (Some (low p))"
proof -
  let ?r = "kernel_page_table_root sy" and ?l = "kernel_id_map_level1_table sy" and ?m = "snd (start sy r m)"
  note o = start_one_level1 [OF assms(1,2), where r = r]
  note t = one_level1_tables [OF o(1)]
  have wf: "wf_table FourKiB ?m 0 ?r" "wf_table FourKiB ?m 1 ?l" using t(4) o(1) by (simp_all add: tables_ok_def one_level1_def)
  let ?i = "low p div 2 ^ 30"
  have i0: "idx FourKiB 0 p = 0" using assms(3) idx_low [of FourKiB 0 p] by (simp add: idx_def table_span_def entry_span_def)
  have i1: "idx FourKiB 1 p = ?i" using assms(3) idx_low [of FourKiB 1 p] by (simp add: idx_def table_span_def entry_span_def)
  have "?i < 4" using assms(3) by simp
  then have d: "entry_decode (?m (?l + 8 * ?i)) 1 = Some (Block (?i * 2 ^ 30))" using o(2) [of ?i] level1_decode [of ?i] by simp
  have "translate FourKiB ?m p 0 ?r = translate FourKiB ?m p 1 ?l" using translate_at [OF _ wf(1), of p] i0 t(1,2) by simp
  also have "\<dots> = Some (Some (?i * 2 ^ 30 + p mod 2 ^ 30))"
    using translate_at [OF _ wf(2), of p] i1 d by (simp add: entry_span_def)
  also have "?i * 2 ^ 30 + p mod 2 ^ 30 = low p" using low_mod [of "2 ^ 30" p] div_mult_mod_eq [of "low p" "2 ^ 30"] by (simp add: le_imp_power_dvd)
  finally show ?thesis .
qed

lemma TCR_fields:
  "take_bit 6 TCR_VALUE = 64 - 48" "take_bit 6 (drop_bit 16 TCR_VALUE) = 64 - 48" "take_bit 2 (drop_bit 14 TCR_VALUE) = 0"
  "take_bit 2 (drop_bit 30 TCR_VALUE) = 2"
proof -
  have v: "TCR_VALUE = 0x078484103510" by (simp add: TCR_VALUE_def movk_def)
  show "take_bit 6 TCR_VALUE = 64 - 48" "take_bit 6 (drop_bit 16 TCR_VALUE) = 64 - 48" "take_bit 2 (drop_bit 14 TCR_VALUE) = 0"
    "take_bit 2 (drop_bit 30 TCR_VALUE) = 2" unfolding v by simp_all
qed

text \<open>The other cores use the same tables and the stack that the power manager passes as context.\<close>

lemma secondary_core_start_correct:
  assumes "symbols_ok sy" and "0xffff000000000000 \<le> secondary_core_kmain_label sy" and "secondary_core_kmain_label sy \<le> usize_max"
  shows "SP (secondary_core_start sy r) = x0 r" and "PC (secondary_core_start sy r) = word_of_nat (secondary_core_kmain_label sy)"
    and "ptr_from_phys (unat (TTBR0_EL1 (secondary_core_start sy r))) = kernel_page_table_root sy"
    and "TTBR1_EL1 (secondary_core_start sy r) = TTBR0_EL1 (secondary_core_start sy r)" and "bit (SCTLR_EL1 (secondary_core_start sy r)) 0"
    and "TCR_EL1 (secondary_core_start sy r) = TCR_EL1 (fst (start sy r' m))"
proof -
  let ?r = "kernel_page_table_root sy"
  have "0xffff000000000000 \<le> ?r" "?r \<le> usize_max" using assms(1) by (simp_all add: symbols_ok_def table_ok_def usize_max_def)
  note b = movk_kernel(2) [OF this] ptr_phys_roundtrip [OF this]
  show "SP (secondary_core_start sy r) = x0 r" "PC (secondary_core_start sy r) = word_of_nat (secondary_core_kmain_label sy)"
    "ptr_from_phys (unat (TTBR0_EL1 (secondary_core_start sy r))) = ?r"
    "TTBR1_EL1 (secondary_core_start sy r) = TTBR0_EL1 (secondary_core_start sy r)" "bit (SCTLR_EL1 (secondary_core_start sy r)) 0"
    "TCR_EL1 (secondary_core_start sy r) = TCR_EL1 (fst (start sy r' m))"
    using b movk_kernel(1) [OF assms(2,3)] by (simp_all add: secondary_core_start_def start_def Let_def bit_or_iff)
qed

text \<open>C10: the entry of the kernel leaves well-formed translation tables.  The MMU is on, with pages of 4 KiB
  and 48 bit addresses in both halves of the address space; the physical addresses of the first 4 GiB, where the code
  runs, are mapped to themselves and the kernel addresses to the same memory; control is at
  \<^verbatim>\<open>kmain\<close>, on the stack of the image, with the pointer of the loader in \<^verbatim>\<open>x0\<close>.\<close>

theorem start_enters_kernel:
  assumes "data_boot sy m" and "symbols_ok sy" and "0xffff000000000000 \<le> stack_start sy" and "stack_start sy \<le> usize_max"
    and "0xffff000000000000 \<le> kmain_label sy" and "kmain_label sy \<le> usize_max" and "start sy r m = (r', m')"
  shows "tables_ok (kernel_pt (kernel_page_table_root sy)) m' \<and>
    (\<forall>z < 2 ^ 32. translate FourKiB m' z 0 (kernel_page_table_root sy) = Some (Some z) \<and>
      translate FourKiB m' (0xffff000000000000 + z) 0 (kernel_page_table_root sy) = Some (Some z)) \<and>
    ptr_from_phys (unat (TTBR0_EL1 r')) = kernel_page_table_root sy \<and> TTBR1_EL1 r' = TTBR0_EL1 r' \<and> bit (SCTLR_EL1 r') 0 \<and>
    take_bit 6 (TCR_EL1 r') = 64 - 48 \<and> take_bit 6 (drop_bit 16 (TCR_EL1 r')) = 64 - 48 \<and>
    take_bit 2 (drop_bit 14 (TCR_EL1 r')) = 0 \<and> take_bit 2 (drop_bit 30 (TCR_EL1 r')) = 2 \<and>
    SP r' = word_of_nat (stack_start sy) \<and> PC r' = word_of_nat (kmain_label sy) \<and> x0 r' = x0 r"
proof -
  let ?r = "kernel_page_table_root sy"
  have "table_ok FourKiB ?r" using assms(2) by (simp add: symbols_ok_def)
  then have b: "0xffff000000000000 \<le> ?r" "?r \<le> usize_max" by (simp_all add: table_ok_def usize_max_def)
  have m: "m' = snd (start sy r m)" using assms(7) by simp
  have "low z = z" "low (0xffff000000000000 + z) = z" if "z < 2 ^ 32" for z using that low_tag [of "0xffff000000000000" z] by (simp_all add: low_def)
  then have "\<forall>z < 2 ^ 32. translate FourKiB m' z 0 ?r = Some (Some z) \<and> translate FourKiB m' (0xffff000000000000 + z) 0 ?r = Some (Some z)"
    using start_translate [OF assms(1,2)] unfolding m by metis
  moreover have "tables_ok (kernel_pt ?r) m'" unfolding m by (rule one_level1_tables(4) [OF start_one_level1(1) [OF assms(1,2)]])
  ultimately show ?thesis
    using assms(7) TCR_fields movk_kernel(1) [OF assms(3,4)] movk_kernel(1) [OF assms(5,6)] movk_kernel(2) [OF b] ptr_phys_roundtrip [OF b]
    by (auto simp: start_def Let_def bit_or_iff)
qed

text \<open>An image at the address \<open>b\<close>, and the memory that holds it.  The link address is \<^verbatim>\<open>0xffff000041000000\<close>.\<close>

definition image_symbols :: "ptr \<Rightarrow> Symbols" where
  "image_symbols b = \<lparr> kernel_page_table_root = b + 0x2000, kernel_id_map_level1_table = b + 0x3000,
     stack_start = b + 0x600000, kmain_label = b + 0x1000, secondary_core_kmain_label = b + 0x1100 \<rparr>"

definition image_memory :: "ptr \<Rightarrow> mem" where
  "image_memory b a = (if b + 0x3000 \<le> a \<and> a < b + 0x4000 then level1_data ! ((a - (b + 0x3000)) div 8) else 0)"

lemma image_data:
  assumes "0xffff000000000000 \<le> b" and "b + 0x600000 \<le> usize_max" and "b mod 4096 = 0"
  shows "data_boot (image_symbols b) (image_memory b)" "symbols_ok (image_symbols b)"
proof -
  have "map (\<lambda>i. image_memory b (b + 0x3000 + 8 * i)) [0..<512] = map (nth level1_data) [0..<length level1_data]"
    by (simp add: image_memory_def level1_data_def)
  then have "map (\<lambda>i. image_memory b (b + 0x3000 + 8 * i)) [0..<512] = level1_data" by (simp add: map_nth)
  moreover have "map (\<lambda>i. image_memory b (b + 0x2000 + 8 * i)) [0..<512] = map (\<lambda>i. 0) [0..<512]"
    by (intro map_cong) (auto simp: image_memory_def)
  then have "map (\<lambda>i. image_memory b (b + 0x2000 + 8 * i)) [0..<512] = root_data" by (simp add: root_data_def map_replicate_const)
  moreover have al: "(b + 0x2000) mod 4096 = 0" "(b + 0x3000) mod 4096 = 0" using assms(3) by (simp_all add: mod_add_eq [symmetric])
  ultimately show "data_boot (image_symbols b) (image_memory b)" by (simp add: data_boot_def image_symbols_def)
  show "symbols_ok (image_symbols b)" using assms al by (simp add: symbols_ok_def image_symbols_def table_ok_def usize_max_def)
qed

theorem start_enters_kernel_witness:
  "\<exists>r' m'. start (image_symbols 0xffff000041000000)
      \<lparr> x0 = 0x44000000, SP = 0, PC = 0, SCTLR_EL1 = 0, TTBR0_EL1 = 0, TTBR1_EL1 = 0, TCR_EL1 = 0, CPACR_EL1 = 0 \<rparr>
      (image_memory 0xffff000041000000) = (r', m') \<and> PC r' = 0xffff000041001000 \<and> x0 r' = 0x44000000 \<and>
    translate FourKiB m' 0xffff000041001000 0 0xffff000041002000 = Some (Some 0x41001000)"
proof -
  let ?r = "\<lparr> x0 = 0x44000000, SP = 0, PC = 0, SCTLR_EL1 = 0, TTBR0_EL1 = 0, TTBR1_EL1 = 0, TCR_EL1 = 0, CPACR_EL1 = 0 \<rparr>"
  let ?s = "image_symbols 0xffff000041000000" and ?m = "image_memory 0xffff000041000000"
  obtain r' m' where e: "start ?s ?r ?m = (r', m')" by fastforce
  have k: "0xffff000000000000 \<le> stack_start ?s" "stack_start ?s \<le> usize_max" "0xffff000000000000 \<le> kmain_label ?s" "kmain_label ?s \<le> usize_max"
    by (simp_all add: image_symbols_def usize_max_def)
  have d: "data_boot ?s ?m" "symbols_ok ?s" by (rule image_data; simp add: usize_max_def)+
  note t = start_enters_kernel [OF d k e]
  from t have "\<forall>z < 2 ^ 32. translate FourKiB m' (0xffff000000000000 + z) 0 (kernel_page_table_root ?s) = Some (Some z)" by blast
  moreover have "(0x41001000 :: nat) < 2 ^ 32" by simp
  ultimately have "translate FourKiB m' (0xffff000000000000 + 0x41001000) 0 (kernel_page_table_root ?s) = Some (Some 0x41001000)"
    by blast
  then show ?thesis using t e by (simp add: image_symbols_def)
qed

end
