(* ===== verification/Subtract_Ranges.thy ===== *)
theory Subtract_Ranges
  imports Kernel_Prelude
begin

text \<open>
  The interval subtraction iterator of \<^verbatim>\<open>kernel_core/src/memory/subtract_ranges.rs\<close>.
  The boot code uses it to take the kernel image and the device tree blob out of the RAM
  range before RAM is given to the page allocator.  The state of the iterator is the record
  \<open>SubtractRanges\<close>; the inner iterator over the sub-ranges is the list of the items it
  still has to yield.
\<close>

section \<open>Model\<close>

record SubtractRanges =
  whole_start :: usize
  whole_end :: usize
  current_pos :: usize
  ranges :: "(usize \<times> usize) list"
  current_subrange :: "(usize \<times> usize) option"

definition subtract_ranges :: "usize \<times> usize \<Rightarrow> (usize \<times> usize) list \<Rightarrow> SubtractRanges" where
  "subtract_ranges whole rs =
     \<lparr> whole_start = fst whole,
       whole_end = saturating_add (fst whole) (snd whole),
       current_pos = fst whole,
       ranges = rs,
       current_subrange = None \<rparr>"

text \<open>The closure given to \<^verbatim>\<open>find_map\<close>, and \<^verbatim>\<open>find_map\<close> itself, which drops the
  items it skips from the inner iterator.\<close>

definition clip_subrange :: "usize \<Rightarrow> usize \<Rightarrow> usize \<Rightarrow> usize \<times> usize \<Rightarrow> (usize \<times> usize) option" where
  "clip_subrange ws we pos r =
     (let start = fst r;
          end = saturating_add start (snd r);
          sub_start = max start ws;
          sub_end = min end we
      in if sub_start \<ge> sub_end then None
         else if sub_end \<le> pos then None
         else Some (sub_start, sub_end))"

fun find_subrange ::
  "usize \<Rightarrow> usize \<Rightarrow> usize \<Rightarrow> (usize \<times> usize) list \<Rightarrow> (usize \<times> usize) option \<times> (usize \<times> usize) list" where
  "find_subrange ws we pos [] = (None, [])"
| "find_subrange ws we pos (r # rs) =
     (case clip_subrange ws we pos r of
        None \<Rightarrow> find_subrange ws we pos rs
      | Some s \<Rightarrow> (Some s, rs))"

definition load_subrange :: "SubtractRanges \<Rightarrow> SubtractRanges" where
  "load_subrange st =
     (case current_subrange st of
        Some _ \<Rightarrow> st
      | None \<Rightarrow>
          (case find_subrange (whole_start st) (whole_end st) (current_pos st) (ranges st) of
             (sub, rs) \<Rightarrow> st\<lparr>ranges := rs, current_subrange := sub\<rparr>))"

definition pending :: "SubtractRanges \<Rightarrow> nat" where
  "pending st = length (ranges st) + (if current_subrange st = None then 0 else 1)"

lemma find_subrange_length:
  "find_subrange ws we pos rs = (sub, rs') \<Longrightarrow>
     length rs' + (if sub = None then 0 else 1) \<le> length rs"
  by (induction rs) (auto split: option.splits if_splits)

lemma pending_load: "pending (load_subrange st) \<le> pending st"
  using find_subrange_length
  by (fastforce simp: pending_def load_subrange_def split: option.splits prod.splits)

function next_range :: "SubtractRanges \<Rightarrow> (usize \<times> usize) option \<times> SubtractRanges" where
  "next_range st =
     (if current_pos st < whole_end st then
        (let st1 = load_subrange st in
         case current_subrange st1 of
           Some (sub_start, sub_end) \<Rightarrow>
             if current_pos st1 < sub_start then
               (Some (current_pos st1, sub_start - current_pos st1),
                st1\<lparr>current_pos := sub_start\<rparr>)
             else next_range (st1\<lparr>current_pos := sub_end, current_subrange := None\<rparr>)
         | None \<Rightarrow>
             (let len = whole_end st1 - current_pos st1 in
              ((if len > 0 then Some (current_pos st1, len) else None),
               st1\<lparr>current_pos := whole_end st1\<rparr>)))
      else (None, st))"
  by pat_completeness auto
termination
proof (relation "measure pending")
  fix st st1 :: SubtractRanges and x p a b
  assume "st1 = load_subrange st" and sub: "current_subrange st1 = Some p" "(a, b) = p"
  then have "pending st1 \<le> pending st" by (simp add: pending_load)
  with sub show "(st1\<lparr>current_pos := b, current_subrange := None\<rparr>, st) \<in> measure pending"
    by (auto simp: pending_def)
qed auto

declare next_range.simps [simp del]

lemma whole_load [simp]:
  "whole_start (load_subrange st) = whole_start st"
  "whole_end (load_subrange st) = whole_end st"
  "current_pos (load_subrange st) = current_pos st"
  by (simp_all add: load_subrange_def split: option.splits prod.splits)

lemma next_range_progress:
  "next_range st = (Some r, st') \<Longrightarrow>
     pending st' < pending st \<or>
     pending st' = pending st \<and> whole_end st' - current_pos st' < whole_end st - current_pos st"
proof (induction st arbitrary: r st' rule: next_range.induct)
  case (1 st)
  have le: "pending (load_subrange st) \<le> pending st" by (rule pending_load)
  have pos: "current_pos st < whole_end st"
    using "1.prems" by (subst (asm) next_range.simps) (auto split: if_splits)
  show ?case
  proof (cases "current_subrange (load_subrange st)")
    case None
    with "1.prems" pos le show ?thesis
      by (subst (asm) next_range.simps) (auto simp: pending_def Let_def split: if_splits)
  next
    case (Some p)
    obtain a b where p: "p = (a, b)" by (cases p)
    show ?thesis
    proof (cases "current_pos st < a")
      case True
      with "1.prems" pos Some p le show ?thesis
        by (subst (asm) next_range.simps) (auto simp: pending_def Let_def split: if_splits)
    next
      case False
      let ?st = "(load_subrange st)\<lparr>current_pos := b, current_subrange := None\<rparr>"
      from False "1.prems" pos Some p have "next_range ?st = (Some r, st')"
        by (subst (asm) next_range.simps) (auto simp: Let_def)
      then have "pending st' \<le> pending ?st"
        using "1.IH" [OF pos refl Some p [symmetric]] False by fastforce
      moreover have "pending ?st < pending (load_subrange st)"
        using Some by (simp add: pending_def)
      ultimately show ?thesis using le by simp
    qed
  qed
qed

text \<open>Draining the iterator, as the \<^verbatim>\<open>for\<close> loop of \<^verbatim>\<open>memory::init\<close> does.\<close>

function collect_ranges :: "SubtractRanges \<Rightarrow> (usize \<times> usize) list" where
  "collect_ranges st =
     (case next_range st of
        (None, _) \<Rightarrow> []
      | (Some r, st') \<Rightarrow> r # collect_ranges st')"
  by pat_completeness auto
termination
  by (relation "measures [pending, \<lambda>st. whole_end st - current_pos st]")
    (auto dest!: next_range_progress [OF sym])

declare collect_ranges.simps [simp del]

section \<open>What is left to yield\<close>

definition addresses :: "(usize \<times> usize) list \<Rightarrow> usize set" where
  "addresses rs = (\<Union>r \<in> set rs. {fst r ..< saturating_add (fst r) (snd r)})"

definition subrange_set :: "(usize \<times> usize) option \<Rightarrow> usize set" where
  "subrange_set sub = (case sub of None \<Rightarrow> {} | Some (a, b) \<Rightarrow> {a ..< b})"

definition remaining :: "SubtractRanges \<Rightarrow> usize set" where
  "remaining st =
     {current_pos st ..< whole_end st} - subrange_set (current_subrange st) - addresses (ranges st)"

definition by_start :: "(usize \<times> usize) list \<Rightarrow> bool" where
  "by_start rs = sorted (map fst rs)"

definition loaded :: "usize \<Rightarrow> usize \<Rightarrow> usize \<Rightarrow> (usize \<times> usize) option \<Rightarrow> (usize \<times> usize) list \<Rightarrow> bool" where
  "loaded ws we pos sub rs \<longleftrightarrow>
     (case sub of
        None \<Rightarrow> True
      | Some (a, b) \<Rightarrow> ws \<le> a \<and> a < b \<and> b \<le> we \<and> pos < b \<and>
          (ws < a \<longrightarrow> (\<forall>r \<in> set rs. a \<le> fst r)))"

definition subranges_inv :: "SubtractRanges \<Rightarrow> bool" where
  "subranges_inv st \<longleftrightarrow>
     whole_start st \<le> current_pos st \<and> by_start (ranges st) \<and>
     loaded (whole_start st) (whole_end st) (current_pos st) (current_subrange st) (ranges st)"

lemma addresses_simps [simp]:
  "addresses [] = {}"
  "addresses (r # rs) = {fst r ..< saturating_add (fst r) (snd r)} \<union> addresses rs"
  by (auto simp: addresses_def)

lemma subrange_set_simps [simp]:
  "subrange_set None = {}"
  "subrange_set (Some (a, b)) = {a ..< b}"
  by (auto simp: subrange_set_def)

lemma clip_subrange_None:
  "clip_subrange ws we pos r = None \<Longrightarrow> ws \<le> pos \<Longrightarrow>
     {pos ..< we} \<inter> {fst r ..< saturating_add (fst r) (snd r)} = {}"
  by (auto simp: clip_subrange_def Let_def split: if_splits)

lemma clip_subrange_Some:
  "clip_subrange ws we pos r = Some (a, b) \<Longrightarrow> ws \<le> pos \<Longrightarrow>
     ws \<le> a \<and> a < b \<and> b \<le> we \<and> pos < b \<and> (ws < a \<longrightarrow> a = fst r) \<and>
     {pos ..< we} \<inter> {fst r ..< saturating_add (fst r) (snd r)} = {pos ..< we} \<inter> {a ..< b}"
  by (auto simp: clip_subrange_def Let_def max_def min_def split: if_splits)

lemma find_subrange_spec:
  assumes "find_subrange ws we pos rs = (sub, rs')" and "ws \<le> pos" and "by_start rs"
  shows "by_start rs' \<and> loaded ws we pos sub rs' \<and> (sub = None \<longrightarrow> rs' = []) \<and>
     {pos ..< we} - addresses rs = {pos ..< we} - subrange_set sub - addresses rs'"
  using assms
proof (induction rs)
  case Nil
  then show ?case by (simp add: by_start_def loaded_def)
next
  case (Cons r rs)
  have sorted: "by_start rs" and first: "\<forall>r' \<in> set rs. fst r \<le> fst r'"
    using Cons.prems(3) by (simp_all add: by_start_def)
  show ?case
  proof (cases "clip_subrange ws we pos r")
    case None
    with Cons.IH [OF _ Cons.prems(2) sorted] Cons.prems(1)
      clip_subrange_None [OF None Cons.prems(2)]
    show ?thesis by auto
  next
    case (Some p)
    obtain a b where p: "p = (a, b)" by (cases p)
    with Cons.prems(1) Some have "sub = Some (a, b)" "rs' = rs" by auto
    with clip_subrange_Some [OF Some [unfolded p] Cons.prems(2)] first sorted
    show ?thesis by (auto simp: loaded_def)
  qed
qed

lemma load_subrange_spec:
  assumes "subranges_inv st"
  shows "subranges_inv (load_subrange st)" and "remaining (load_subrange st) = remaining st"
    and "current_subrange (load_subrange st) = None \<Longrightarrow> ranges (load_subrange st) = []"
proof -
  obtain sub rs where f:
    "find_subrange (whole_start st) (whole_end st) (current_pos st) (ranges st) = (sub, rs)"
    by fastforce
  have *: "subranges_inv (load_subrange st) \<and> remaining (load_subrange st) = remaining st \<and>
     (current_subrange (load_subrange st) = None \<longrightarrow> ranges (load_subrange st) = [])"
  proof (cases "current_subrange st")
    case None
    with assms find_subrange_spec [OF f] f show ?thesis
      by (simp add: subranges_inv_def load_subrange_def remaining_def)
  next
    case (Some p)
    with assms show ?thesis by (simp add: load_subrange_def)
  qed
  then show "subranges_inv (load_subrange st)" and "remaining (load_subrange st) = remaining st"
    and "current_subrange (load_subrange st) = None \<Longrightarrow> ranges (load_subrange st) = []"
    by blast+
qed

definition yields :: "SubtractRanges \<Rightarrow> (usize \<times> usize) option \<Rightarrow> SubtractRanges \<Rightarrow> bool" where
  "yields st r st' \<longleftrightarrow>
     (case r of
        None \<Rightarrow> remaining st = {}
      | Some (a, l) \<Rightarrow> 0 < l \<and> a + l \<le> whole_end st \<and> a + l \<notin> remaining st' \<and>
          remaining st = {a ..< a + l} \<union> remaining st' \<and> remaining st' \<subseteq> {a + l ..})"

lemma next_range_spec:
  "subranges_inv st \<Longrightarrow> next_range st = (r, st') \<Longrightarrow>
     subranges_inv st' \<and> whole_end st' = whole_end st \<and> yields st r st'"
proof (induction st arbitrary: r st' rule: next_range.induct)
  case (1 st)
  let ?st = "load_subrange st"
  note inv = load_subrange_spec [OF "1.prems"(1)]
  show ?case
  proof (cases "current_pos st < whole_end st")
    case False
    with "1.prems" show ?thesis
      by (auto simp: next_range.simps [of st] yields_def remaining_def)
  next
    case pos: True
    show ?thesis
    proof (cases "current_subrange ?st")
      case None
      with pos inv "1.prems"(2) show ?thesis
        by (auto simp: next_range.simps [of st] Let_def subranges_inv_def loaded_def
            yields_def remaining_def)
    next
      case (Some p)
      obtain a b where p: "p = (a, b)" by (cases p)
      have ab: "whole_start st \<le> a" "a < b" "b \<le> whole_end st" "current_pos st < b"
        "whole_start st < a \<Longrightarrow> \<forall>r \<in> set (ranges ?st). a \<le> fst r" "by_start (ranges ?st)"
        "whole_start st \<le> current_pos st"
        using inv(1) Some p by (auto simp: subranges_inv_def loaded_def)
      show ?thesis
      proof (cases "current_pos st < a")
        case True
        with "1.prems"(2) pos Some p
        have r: "r = Some (current_pos st, a - current_pos st)" "st' = ?st\<lparr>current_pos := a\<rparr>"
          by (simp_all add: next_range.simps [of st] Let_def)
        from True ab have "\<forall>r \<in> set (ranges ?st). a \<le> fst r" by simp
        then have "addresses (ranges ?st) \<subseteq> {a ..}" by (auto simp: addresses_def)
        with True ab r Some p inv(2) [symmetric] show ?thesis
          by (auto simp: subranges_inv_def loaded_def yields_def remaining_def)
      next
        case False
        let ?st' = "?st\<lparr>current_pos := b, current_subrange := None\<rparr>"
        from False "1.prems"(2) pos Some p have "next_range ?st' = (r, st')"
          by (simp add: next_range.simps [of st] Let_def)
        moreover have inv': "subranges_inv ?st'" using ab by (auto simp: subranges_inv_def loaded_def)
        ultimately have "subranges_inv st' \<and> whole_end st' = whole_end ?st' \<and> yields ?st' r st'"
          using "1.IH" [OF pos refl Some p [symmetric] _ inv'] False by simp
        moreover have "{current_pos st ..< whole_end st} - {a ..< b} = {b ..< whole_end st}"
          using False ab by auto
        then have "remaining ?st' = remaining st"
          unfolding inv(2) [symmetric] using Some p by (simp add: remaining_def)
        ultimately show ?thesis by (simp add: yields_def split: option.splits prod.splits)
      qed
    qed
  qed
qed

lemma collect_ranges_spec:
  "subranges_inv st \<Longrightarrow>
     (\<Union>r \<in> set (collect_ranges st). {fst r ..< fst r + snd r}) = remaining st \<and>
     (\<forall>r \<in> set (collect_ranges st). 0 < snd r \<and> fst r + snd r \<le> whole_end st) \<and>
     sorted_wrt (\<lambda>r r'. fst r + snd r < fst r') (collect_ranges st)"
proof (induction st rule: collect_ranges.induct)
  case (1 st)
  obtain r st' where n: "next_range st = (r, st')" by fastforce
  note spec = next_range_spec [OF "1.prems" n]
  show ?case
  proof (cases r)
    case None
    with n spec show ?thesis by (simp add: collect_ranges.simps [of st] yields_def)
  next
    case (Some p)
    obtain a l where p: "p = (a, l)" by (cases p)
    let ?rest = "collect_ranges st'"
    have eq: "collect_ranges st = (a, l) # ?rest"
      using n Some p by (subst collect_ranges.simps) simp
    have IH: "(\<Union>r \<in> set ?rest. {fst r ..< fst r + snd r}) = remaining st'"
      "\<forall>r \<in> set ?rest. 0 < snd r \<and> fst r + snd r \<le> whole_end st'"
      "sorted_wrt (\<lambda>r r'. fst r + snd r < fst r') ?rest"
      using "1.IH" [OF n [symmetric] Some] spec by auto
    have "a + l < fst r" if "r \<in> set ?rest" for r
    proof -
      have "fst r \<in> remaining st'" using that IH(1,2) by fastforce
      with spec Some p show ?thesis by (auto simp: yields_def order.order_iff_strict)
    qed
    with IH spec Some p show ?thesis unfolding eq by (auto simp: yields_def)
  qed
qed

lemma subtract_ranges_inv: "by_start rs \<Longrightarrow> subranges_inv (subtract_ranges whole rs)"
  by (simp add: subranges_inv_def subtract_ranges_def loaded_def)

section \<open>Properties\<close>

section \<open>Termination\<close>

text \<open>The number of items that the iterator can still yield.\<close>

definition items_left :: "SubtractRanges \<Rightarrow> nat" where
  "items_left st = length (ranges st) + (case current_subrange st of Some (a, b) \<Rightarrow> if current_pos st < a then 1 else 0 | None \<Rightarrow> 0) +
     (if current_pos st < whole_end st then 1 else 0)"

lemma load_subrange_ranges:
  "current_subrange (load_subrange st) = None \<Longrightarrow> ranges (load_subrange st) = []"
  "current_subrange (load_subrange st) = Some s \<Longrightarrow>
     current_subrange st = Some s \<and> ranges (load_subrange st) = ranges st \<or> length (ranges (load_subrange st)) < length (ranges st) \<and> current_subrange st = None"
proof -
  have "find_subrange ws we pos rs = (None, rs') \<Longrightarrow> rs' = []" for ws we pos rs rs'
    by (induction rs) (auto split: option.splits)
  then show "current_subrange (load_subrange st) = None \<Longrightarrow> ranges (load_subrange st) = []"
    by (auto simp: load_subrange_def split: option.splits prod.splits)
  show "current_subrange st = Some s \<and> ranges (load_subrange st) = ranges st \<or> length (ranges (load_subrange st)) < length (ranges st) \<and> current_subrange st = None"
    if "current_subrange (load_subrange st) = Some s"
    using that find_subrange_length by (fastforce simp: load_subrange_def split: option.splits prod.splits)
qed

lemma next_range_items:
  "(case next_range st of (Some r, st') \<Rightarrow> items_left st' < items_left st | (None, st') \<Rightarrow> whole_end st' \<le> current_pos st')"
proof (induction st rule: next_range.induct)
  case (1 st)
  let ?l = "load_subrange st"
  consider (stop) "\<not> current_pos st < whole_end st" | (rest) "current_pos st < whole_end st" "current_subrange ?l = None"
    | (gap) a b where "current_pos st < whole_end st" "current_subrange ?l = Some (a, b)" "current_pos st < a"
    | (skip) a b where "current_pos st < whole_end st" "current_subrange ?l = Some (a, b)" "\<not> current_pos st < a"
    by (cases "current_subrange ?l") auto
  then show ?case
  proof cases
    case stop
    then show ?thesis by (subst next_range.simps) simp
  next
    case rest
    then show ?thesis using load_subrange_ranges(1) [of st] by (subst next_range.simps) (simp add: items_left_def Let_def)
  next
    case gap
    then show ?thesis using load_subrange_ranges(2) [OF gap(2)] by (subst next_range.simps) (auto simp: items_left_def Let_def)
  next
    case skip
    let ?s = "?l\<lparr>current_pos := b, current_subrange := None\<rparr>"
    have n: "next_range st = next_range ?s" using skip by (subst next_range.simps) (simp add: Let_def)
    have "items_left ?s \<le> items_left st" using load_subrange_ranges(2) [OF skip(2)] skip(1) by (auto simp: items_left_def)
    moreover have "case next_range ?s of (Some r, st') \<Rightarrow> items_left st' < items_left ?s | (None, st') \<Rightarrow> whole_end st' \<le> current_pos st'"
      using "1.IH" [of ?l "(a, b)" a b] skip by simp
    ultimately show ?thesis unfolding n by (auto split: prod.splits option.splits)
  qed
qed

lemma exhausted_stays: "whole_end st \<le> current_pos st \<Longrightarrow> ((\<lambda>st. snd (next_range st)) ^^ n) st = st \<and> next_range st = (None, st)"
  by (induction n) (simp_all add: next_range.simps)

text \<open>C21: the iterator comes to an end whatever the ranges are, sorted or not: after one more call than there are ranges it yields nothing
  any more.\<close>

theorem subtract_ranges_terminates:
  assumes "length rs < n"
  shows "fst (next_range (((\<lambda>st. snd (next_range st)) ^^ n) (subtract_ranges whole rs))) = None"
proof -
  have "fst (next_range (((\<lambda>st. snd (next_range st)) ^^ n) st)) = None" if "items_left st \<le> n" for st n
    using that
  proof (induction n arbitrary: st)
    case 0
    then show ?case using exhausted_stays [of st 0] by (simp add: items_left_def split: if_splits)
  next
    case (Suc n)
    obtain r st' where s: "next_range st = (r, st')" by fastforce
    have "fst (next_range (((\<lambda>st. snd (next_range st)) ^^ n) st')) = None"
      using next_range_items [of st] Suc exhausted_stays [of st' n] by (cases r) (simp_all add: s)
    then show ?case using s by (simp add: funpow_Suc_right del: funpow.simps)
  qed
  moreover have "items_left (subtract_ranges whole rs) \<le> n" using assms by (simp add: items_left_def subtract_ranges_def)
  ultimately show ?thesis .
qed

theorem subtract_ranges_terminates_witness:
  "fst (next_range (((\<lambda>st. snd (next_range st)) ^^ 3) (subtract_ranges (0, 100) [(50, 10), (20, 10)]))) = None"
  using subtract_ranges_terminates [of "[(50, 10), (20, 10)]" 3 "(0, 100)"] by simp

section \<open>Exactness\<close>

text \<open>C15: For sub-ranges ordered by start address, draining the iterator yields exactly the
  maximal gaps: together they cover every address of the whole range that lies in no
  sub-range and nothing else, none is empty, they come in ascending order and no two of them
  touch.  Overlapping sub-ranges are allowed, although the documentation excludes them.\<close>

theorem subtract_ranges_exact:
  assumes "by_start rs"
  shows "(\<Union>r \<in> set (collect_ranges (subtract_ranges (ws, wl) rs)). {fst r ..< fst r + snd r})
           = {ws ..< saturating_add ws wl} - addresses rs
         \<and> (\<forall>r \<in> set (collect_ranges (subtract_ranges (ws, wl) rs)). 0 < snd r)
         \<and> sorted_wrt (\<lambda>r r'. fst r + snd r < fst r') (collect_ranges (subtract_ranges (ws, wl) rs))"
  using collect_ranges_spec [OF subtract_ranges_inv [OF assms, of "(ws, wl)"]]
  by (simp add: remaining_def subtract_ranges_def)

theorem subtract_ranges_exact_witness:
  "by_start [(4352, 100), (4608, 200)] \<and>
   (\<Union>r \<in> set (collect_ranges (subtract_ranges (4096, 1000) [(4352, 100), (4608, 200)])).
      {fst r ..< fst r + snd r})
     = {4096 ..< saturating_add 4096 1000} - addresses [(4352, 100), (4608, 200)]"
proof -
  have h: "by_start [(4352, 100), (4608, 200)]" by (simp add: by_start_def)
  show ?thesis using h subtract_ranges_exact [OF h, of 4096 1000] by blast
qed

text \<open>The order of the sub-ranges matters.  \<^verbatim>\<open>memory::init\<close> passes the kernel image
  first and the device tree blob second, without sorting them.  When the blob lies below the
  image, the first region that is yielded runs from the start of RAM to the image and so
  contains every byte of the blob.\<close>

lemma unsorted_reserved_region_yielded:
  assumes "ws \<le> dt" and "0 < dt_len" and "dt + dt_len \<le> img" and "0 < img_len"
    and "img + img_len \<le> ws + wl" and "ws + wl \<le> usize_max"
  shows "fst (next_range (subtract_ranges (ws, wl) [(img, img_len), (dt, dt_len)]))
           = Some (ws, img - ws)
         \<and> {dt ..< dt + dt_len} \<subseteq> {ws ..< ws + (img - ws)}"
  using assms
  by (subst next_range.simps)
    (auto simp: subtract_ranges_def load_subrange_def clip_subrange_def saturating_add_def Let_def)

lemma unsorted_reserved_region_yielded_example:
  "fst (next_range (subtract_ranges (0x40000000, 0x10000000) [(0x41000000, 0x400000), (0x40000000, 0x2000)]))
     = Some (0x40000000, 0x1000000)
   \<and> {0x40000000 ..< 0x40002000} \<subseteq> {0x40000000 ..< (0x41000000 :: usize)}"
  using unsorted_reserved_region_yielded
    [of "0x40000000" "0x40000000" "0x2000" "0x41000000" "0x400000" "0x10000000"]
  by (simp add: usize_max_def)

end
