(* ===== verification/Heap.thy ===== *)
theory Heap
  imports Buddy
begin

text \<open>
  The kernel heap (\<^verbatim>\<open>kernel_core/src/memory/heap.rs\<close>): a first-fit free list in memory obtained
  from a page allocator.  The list is modelled as one core sees it when no other core works on it,
  so every compare-and-exchange succeeds the first time.  A header is two 64-bit cells:
  \<^verbatim>\<open>FreeHeader\<close> is \<^verbatim>\<open>size\<close> and \<^verbatim>\<open>next\<close>, \<^verbatim>\<open>AllocatedHeader\<close> is \<^verbatim>\<open>size\<close> and \<^verbatim>\<open>block\<close>.

  Allocation and release are verified against the contract \<open>page_source\<close> and then for the buddy
  allocator, for alignments up to that of two words; two theorems describe what goes wrong
  for larger alignments and for a block that is released twice.
\<close>

section \<open>Model\<close>

record Layout =
  l_size :: usize
  l_align :: usize

text \<open>\<open>page_allocator\<close> says whether the \<^verbatim>\<open>Once\<close> is set.\<close>

record HeapAllocator =
  page_allocator :: bool
  free_list :: ptr

definition heap_new :: HeapAllocator where
  "heap_new = \<lparr> page_allocator = True, free_list = 0 \<rparr>"

definition heap_new_uninit :: HeapAllocator where
  "heap_new_uninit = \<lparr> page_allocator = False, free_list = 0 \<rparr>"

definition heap_init :: "HeapAllocator \<Rightarrow> HeapAllocator" where
  "heap_init h = h\<lparr>page_allocator := True\<rparr>"

definition header_fst :: "mem \<Rightarrow> ptr \<Rightarrow> usize" where
  "header_fst m p = unat (m p)"

definition header_snd :: "mem \<Rightarrow> ptr \<Rightarrow> usize" where
  "header_snd m p = unat (m (p + 8))"

definition write_header :: "mem \<Rightarrow> ptr \<Rightarrow> usize \<Rightarrow> usize \<Rightarrow> mem" where
  "write_header m p a b = m(p := word_of_nat a, p + 8 := word_of_nat b)"

text \<open>The inner loop of \<^verbatim>\<open>try_remove_fit\<close>: the block found, with its predecessor and successor.\<close>

partial_function (option) find_fit :: "mem \<Rightarrow> usize \<Rightarrow> ptr option \<Rightarrow> ptr \<Rightarrow> (ptr option \<times> ptr \<times> ptr) option option" where
  "find_fit m desired_size prev current =
     (if current = 0 then Some None
      else let next_ptr = header_snd m current in
        if desired_size \<le> header_fst m current then Some (Some (prev, current, next_ptr))
        else find_fit m desired_size (Some current) next_ptr)"

definition try_remove_fit :: "HeapAllocator \<Rightarrow> mem \<Rightarrow> usize \<Rightarrow> (ptr option \<times> HeapAllocator \<times> mem) panics" where
  "try_remove_fit h m desired_size = do {
     r \<leftarrow> find_fit m desired_size None (free_list h);
     Some (case r of
         None \<Rightarrow> (None, h, m)
       | Some (Some prev, current, next_ptr) \<Rightarrow> (Some current, h, m(prev + 8 := word_of_nat next_ptr))
       | Some (None, current, next_ptr) \<Rightarrow> (Some current, h\<lparr>free_list := next_ptr\<rparr>, m))
   }"

definition push_free_block :: "HeapAllocator \<Rightarrow> mem \<Rightarrow> ptr \<Rightarrow> HeapAllocator \<times> mem" where
  "push_free_block h m block = (h\<lparr>free_list := block\<rparr>, m(block + 8 := word_of_nat (free_list h)))"

partial_function (option) is_free_from :: "mem \<Rightarrow> ptr \<Rightarrow> ptr \<Rightarrow> bool option" where
  "is_free_from m p cursor =
     (if cursor = 0 then Some False
      else if cursor \<le> p \<and> p < cursor + header_fst m cursor then Some True
      else is_free_from m p (header_snd m cursor))"

definition is_free :: "HeapAllocator \<Rightarrow> mem \<Rightarrow> ptr \<Rightarrow> bool panics" where
  "is_free h m p = is_free_from m p (free_list h)"

definition align_up :: "usize \<Rightarrow> usize \<Rightarrow> usize panics" where
  "align_up offset align = do {
     s \<leftarrow> add_p offset align;
     s \<leftarrow> sub_p s 1;
     low \<leftarrow> sub_p align 1;
     Some (unat ((word_of_nat s :: u64) AND NOT (word_of_nat low)))
   }"

definition header_padding_max :: "Layout \<Rightarrow> usize panics" where
  "header_padding_max layout =
     (if l_align layout \<le> 8 then Some 0
      else if l_align layout = 16 then Some 8
      else sub_p (l_align layout) 16)"

definition MIN_PAGE_ALLOCATION :: usize where
  "MIN_PAGE_ALLOCATION = 4"

definition div_ceil :: "usize \<Rightarrow> usize \<Rightarrow> usize" where
  "div_ceil a b = (if a mod b = 0 then a div b else a div b + 1)"

text \<open>The first half of \<^verbatim>\<open>alloc\<close>: the total size and the address of a block of at least the
  required size, or \<open>None\<close> where the code returns null.\<close>

definition heap_block ::
  "('s \<Rightarrow> mem \<Rightarrow> usize \<Rightarrow> ('s, paddr) alloc_result) \<Rightarrow> ('s \<Rightarrow> PageSize) \<Rightarrow> HeapAllocator \<Rightarrow> 's \<Rightarrow> mem \<Rightarrow> Layout \<Rightarrow> usize \<Rightarrow>
     ((usize \<times> ptr) option \<times> HeapAllocator \<times> 's \<times> mem) panics" where
  "heap_block allocate psize h s m layout required = do {
     (block, h, m) \<leftarrow> try_remove_fit h m required;
     case block of
       Some block \<Rightarrow> do {
         let block_size = header_fst m block;
         assert_p (required \<le> block_size);
         Some (Some (block_size, block), h, s, m)
       }
     | None \<Rightarrow>
         if \<not> page_allocator h then Some (None, h, s, m)
         else do {
           let page_count = max (div_ceil required (page_bytes (psize s))) MIN_PAGE_ALLOCATION;
           assert_p (l_align layout \<le> page_bytes (psize s));
           (r, s', m) \<leftarrow> allocate s m page_count;
           case r of
             Inl e \<Rightarrow> Some (None, h, s', m)
           | Inr pages \<Rightarrow> do {
               total_size \<leftarrow> page_size_mul (psize s) page_count;
               assert_p (ptr_from_phys pages \<noteq> 0);
               Some (Some (total_size, ptr_from_phys pages), h, s', m)
             }
         }
   }"

text \<open>The second half of \<^verbatim>\<open>alloc\<close>: give back what is not needed and write the header.\<close>

definition heap_place :: "HeapAllocator \<Rightarrow> mem \<Rightarrow> Layout \<Rightarrow> usize \<Rightarrow> usize \<Rightarrow> ptr \<Rightarrow> (ptr \<times> HeapAllocator \<times> mem) panics" where
  "heap_place h m layout padding_max total_block_size block = do {
     let padding_required = align_offset (block + 16) (l_align layout);
     assert_p (padding_required \<le> padding_max);
     n \<leftarrow> add_p 16 padding_required;
     actual_block_size \<leftarrow> add_p n (l_size layout);
     (h, m) \<leftarrow> (if 16 < saturating_sub total_block_size actual_block_size then do {
         rest_offset \<leftarrow> align_up actual_block_size 8;
         rest_size \<leftarrow> sub_p total_block_size rest_offset;
         Some (push_free_block h (write_header m (block + rest_offset) rest_size 0) (block + rest_offset))
       } else Some (h, m));
     let header = block + padding_required;
     Some (header + 16, h, write_header m header actual_block_size block)
   }"

definition heap_alloc ::
  "('s \<Rightarrow> mem \<Rightarrow> usize \<Rightarrow> ('s, paddr) alloc_result) \<Rightarrow> ('s \<Rightarrow> PageSize) \<Rightarrow> HeapAllocator \<Rightarrow> 's \<Rightarrow> mem \<Rightarrow> Layout \<Rightarrow>
     (ptr \<times> HeapAllocator \<times> 's \<times> mem) panics" where
  "heap_alloc allocate psize h s m layout = do {
     padding_max \<leftarrow> header_padding_max layout;
     n \<leftarrow> add_p 16 padding_max;
     required \<leftarrow> add_p n (l_size layout);
     (block, h, s, m) \<leftarrow> heap_block allocate psize h s m layout required;
     case block of
       None \<Rightarrow> Some (0, h, s, m)
     | Some (total_size, block) \<Rightarrow> do {
         (p, h, m) \<leftarrow> heap_place h m layout padding_max total_size block;
         Some (p, h, s, m)
       }
   }"

definition heap_dealloc :: "HeapAllocator \<Rightarrow> mem \<Rightarrow> ptr \<Rightarrow> Layout \<Rightarrow> (HeapAllocator \<times> mem) panics" where
  "heap_dealloc h m p layout =
     (if p = 0 then Some (h, m)
      else do {
        let header = p - 16;
        let block_claimed_size = header_fst m header;
        min_size \<leftarrow> add_p 16 (l_size layout);
        padding_max \<leftarrow> header_padding_max layout;
        max_size \<leftarrow> add_p padding_max min_size;
        assert_p (min_size \<le> block_claimed_size \<and> block_claimed_size \<le> max_size);
        let free_block = header_snd m header;
        free \<leftarrow> is_free h m free_block;
        assert_p (\<not> free);
        Some (push_free_block h (write_header m free_block block_claimed_size 0) free_block)
      })"

section \<open>Invariant\<close>

text \<open>A block of \<open>n\<close> bytes owns its bytes rounded up to whole cells: the rest of a split block
  starts at a multiple of eight.\<close>

definition up8 :: "usize \<Rightarrow> usize" where
  "up8 n = (n + 7) div 8 * 8"

definition extent :: "ptr \<times> usize \<Rightarrow> usize set" where
  "extent b = {fst b ..< fst b + up8 (snd b)}"

definition heap_block_ok :: "ptr \<times> usize \<Rightarrow> bool" where
  "heap_block_ok b \<longleftrightarrow> 0 < fst b \<and> fst b mod 8 = 0 \<and> 16 \<le> up8 (snd b) \<and> fst b + up8 (snd b) \<le> 2 ^ 64"

fun heap_chain :: "mem \<Rightarrow> ptr \<Rightarrow> (ptr \<times> usize) list \<Rightarrow> bool" where
  "heap_chain m p [] \<longleftrightarrow> p = 0"
| "heap_chain m p (b # bs) \<longleftrightarrow> p = fst b \<and> header_fst m p = snd b \<and> heap_chain m (header_snd m p) bs"

definition free_area :: "(ptr \<times> usize) list \<Rightarrow> usize set" where
  "free_area bs = (\<Union>b \<in> set bs. extent b)"

definition heap_inv :: "HeapAllocator \<Rightarrow> mem \<Rightarrow> (ptr \<times> usize) list \<Rightarrow> bool" where
  "heap_inv h m bs \<longleftrightarrow> heap_chain m (free_list h) bs \<and> (\<forall>b \<in> set bs. heap_block_ok b) \<and>
     sorted_wrt (\<lambda>b c. extent b \<inter> extent c = {}) bs"

text \<open>What \<^verbatim>\<open>alloc\<close> leaves behind at \<open>p\<close>: the header right before it records the block.\<close>

definition allocated :: "mem \<Rightarrow> ptr \<Rightarrow> Layout \<Rightarrow> ptr \<times> usize \<Rightarrow> bool" where
  "allocated m p layout b \<longleftrightarrow> heap_block_ok b \<and> p mod l_align layout = 0 \<and>
     fst b + 16 \<le> p \<and> p \<le> fst b + 16 + (if l_align layout = 16 then 8 else 0) \<and> p + l_size layout = fst b + snd b \<and>
     header_fst m (p - 16) = snd b \<and> header_snd m (p - 16) = fst b"

definition small_layout :: "Layout \<Rightarrow> bool" where
  "small_layout layout \<longleftrightarrow> l_align layout \<in> {1, 2, 4, 8, 16} \<and> l_size layout < 2 ^ 63"

section \<open>Blocks and lists\<close>

lemma up8_bounds: "n \<le> up8 n" "up8 n < n + 8" "up8 n mod 8 = 0"
  unfolding up8_def using mod_less_divisor [of 8 "n + 7"] div_mult_mod_eq [of "n + 7" 8] by (linarith, linarith, simp)

lemma block_header: "heap_block_ok b \<Longrightarrow> fst b \<in> extent b \<and> fst b + 8 \<in> extent b"
  by (auto simp: heap_block_ok_def extent_def)

lemma block_size: "heap_block_ok b \<Longrightarrow> fst b < 2 ^ 64 \<and> snd b < 2 ^ 64"
  using up8_bounds(1) [of "snd b"] by (auto simp: heap_block_ok_def)

lemma free_area_simps [simp]:
  "free_area [] = {}" "free_area (b # bs) = extent b \<union> free_area bs" "free_area (bs @ cs) = free_area bs \<union> free_area cs"
  by (auto simp: free_area_def)

lemma heap_chain_cong:
  assumes "\<And>b. b \<in> set bs \<Longrightarrow> m' (fst b) = m (fst b) \<and> m' (fst b + 8) = m (fst b + 8)"
  shows "heap_chain m' p bs = heap_chain m p bs"
  using assms
proof (induction bs arbitrary: p)
  case (Cons b bs)
  have "m' (fst b) = m (fst b) \<and> m' (fst b + 8) = m (fst b + 8)" by (rule Cons.prems) simp
  moreover have "heap_chain m' q bs = heap_chain m q bs" for q by (rule Cons.IH) (simp add: Cons.prems)
  ultimately show ?case unfolding heap_chain.simps by (cases "p = fst b") (simp_all add: header_fst_def header_snd_def)
qed simp

lemma heap_inv_cong:
  assumes "heap_inv h m bs" and "\<And>x. x \<in> free_area bs \<Longrightarrow> m' x = m x"
  shows "heap_inv h m' bs"
proof -
  have "m' (fst b) = m (fst b) \<and> m' (fst b + 8) = m (fst b + 8)" if "b \<in> set bs" for b
  proof -
    have "heap_block_ok b" using assms(1) that by (simp add: heap_inv_def)
    then have "fst b \<in> free_area bs" "fst b + 8 \<in> free_area bs" using block_header that unfolding free_area_def by blast+
    then show ?thesis using assms(2) by blast
  qed
  then have "heap_chain m' (free_list h) bs = heap_chain m (free_list h) bs" by (rule heap_chain_cong)
  then show ?thesis using assms(1) by (simp add: heap_inv_def)
qed

lemma find_fit_none:
  "heap_chain m p bs \<Longrightarrow> \<forall>b \<in> set bs. 0 < fst b \<and> snd b < n \<Longrightarrow> find_fit m n prev p = Some None"
proof (induction bs arbitrary: p prev)
  case Nil
  then show ?case by (simp add: find_fit.simps [of m n prev 0])
next
  case (Cons b bs)
  then show ?case by (auto simp: find_fit.simps [of m n prev "fst _"] Let_def)
qed

lemma find_fit_some:
  "heap_chain m p (xs @ b # ys) \<Longrightarrow> \<forall>c \<in> set xs. 0 < fst c \<and> snd c < n \<Longrightarrow> 0 < fst b \<Longrightarrow> n \<le> snd b \<Longrightarrow>
     find_fit m n prev p = Some (Some (if xs = [] then prev else Some (fst (last xs)), fst b, header_snd m (fst b)))"
proof (induction xs arbitrary: p prev)
  case Nil
  then show ?case by (auto simp: find_fit.simps [of m n prev "fst _"] Let_def)
next
  case (Cons c xs)
  then show ?case by (auto simp: find_fit.simps [of m n prev "fst _"])
qed

lemma is_free_from_spec:
  "heap_chain m p bs \<Longrightarrow> \<forall>b \<in> set bs. 0 < fst b \<Longrightarrow>
     is_free_from m q p = Some (\<exists>b \<in> set bs. fst b \<le> q \<and> q < fst b + snd b)"
proof (induction bs arbitrary: p)
  case Nil
  then show ?case by (simp add: is_free_from.simps [of m q 0])
next
  case (Cons b bs)
  then show ?case by (auto simp: is_free_from.simps [of m q "fst _"])
qed

lemma heap_chain_size: "heap_chain m p (xs @ b # ys) \<Longrightarrow> header_fst m (fst b) = snd b"
  by (induction xs arbitrary: p) auto

text \<open>Unlinking a block.\<close>

lemma heap_chain_unlink:
  assumes "heap_chain m p (xs @ b # ys)" and "xs \<noteq> []"
    and "\<forall>c \<in> set (xs @ b # ys). heap_block_ok c" and "sorted_wrt (\<lambda>b c. extent b \<inter> extent c = {}) (xs @ b # ys)"
  shows "heap_chain (m(fst (last xs) + 8 := word_of_nat (header_snd m (fst b)))) p (xs @ ys)"
  using assms
proof (induction xs arbitrary: p)
  case (Cons c xs)
  let ?m = "\<lambda>c. m(fst c + 8 := word_of_nat (header_snd m (fst b)))"
  show ?case
  proof (cases "xs = []")
    case True
    have "heap_chain (?m c) (header_snd m (fst b)) ys = heap_chain m (header_snd m (fst b)) ys"
    proof (rule heap_chain_cong)
      fix d assume "d \<in> set ys"
      then have "extent c \<inter> extent d = {}" "fst c + 8 \<in> extent c" "fst d \<in> extent d" "fst d + 8 \<in> extent d"
        using Cons.prems(3,4) True block_header by auto
      then have "fst d \<noteq> fst c + 8" "fst d + 8 \<noteq> fst c + 8" by (metis disjoint_iff)+
      then show "?m c (fst d) = m (fst d) \<and> ?m c (fst d + 8) = m (fst d + 8)" by simp
    qed
    then show ?thesis using Cons.prems(1) True by (simp add: header_fst_def header_snd_def fun_upd_def cong: if_cong) metis
  next
    case False
    have "last xs \<in> set xs" using False by simp
    then have "extent c \<inter> extent (last xs) = {}" "heap_block_ok c" "heap_block_ok (last xs)" using Cons.prems(3,4) by auto
    then have "fst c \<noteq> fst (last xs) + 8" "fst c + 8 \<noteq> fst (last xs) + 8" using block_header by (metis disjoint_iff)+
    then show ?thesis using Cons.IH [of "header_snd m (fst c)"] Cons.prems False
      by (simp add: header_fst_def header_snd_def) metis
  qed
qed simp

lemma disjoint_free_area:
  "sorted_wrt (\<lambda>b c. extent b \<inter> extent c = {}) (xs @ b # ys) \<longleftrightarrow>
     sorted_wrt (\<lambda>b c. extent b \<inter> extent c = {}) (xs @ ys) \<and> extent b \<inter> free_area (xs @ ys) = {}"
proof -
  have "extent b \<inter> free_area zs = {} \<longleftrightarrow> (\<forall>c \<in> set zs. extent c \<inter> extent b = {})" for zs
    unfolding free_area_def by blast
  then show ?thesis unfolding sorted_wrt_append by (simp add: Int_commute ball_Un) blast
qed

lemma try_remove_fit_cases:
  assumes "heap_inv h m bs"
  obtains (none) "try_remove_fit h m n = Some (None, h, m)"
  | (fit) b cs h' m' where "try_remove_fit h m n = Some (Some (fst b), h', m')" "heap_inv h' m' cs" "page_allocator h' = page_allocator h"
      "free_area bs = extent b \<union> free_area cs" "extent b \<inter> free_area cs = {}" "heap_block_ok b" "n \<le> snd b"
      "header_fst m' (fst b) = snd b" "\<forall>x. x \<notin> free_area bs \<longrightarrow> m' x = m x" "set cs \<subseteq> set bs"
proof (cases "\<exists>b \<in> set bs. n \<le> snd b")
  case False
  have "find_fit m n None (free_list h) = Some None"
    by (rule find_fit_none [where bs = bs]) (use assms False in \<open>auto simp: heap_inv_def heap_block_ok_def not_le\<close>)
  then show ?thesis using none by (simp add: try_remove_fit_def)
next
  case True
  then obtain xs b ys where bs: "bs = xs @ b # ys" "n \<le> snd b" "\<forall>c \<in> set xs. \<not> n \<le> snd c"
    using split_list_first_prop [of bs "\<lambda>b. n \<le> snd b"] by blast
  have ok: "heap_chain m (free_list h) (xs @ b # ys)" "\<forall>c \<in> set (xs @ b # ys). heap_block_ok c"
    "sorted_wrt (\<lambda>b c. extent b \<inter> extent c = {}) (xs @ b # ys)"
    using assms by (simp_all add: heap_inv_def bs(1))
  have f: "find_fit m n None (free_list h) = Some (Some (if xs = [] then None else Some (fst (last xs)), fst b, header_snd m (fst b)))"
    by (rule find_fit_some [OF ok(1)]) (use ok(2) bs(2,3) in \<open>auto simp: heap_block_ok_def\<close>)
  have srt: "sorted_wrt (\<lambda>b c. extent b \<inter> extent c = {}) (xs @ ys)" "extent b \<inter> free_area (xs @ ys) = {}"
    using ok(3) unfolding disjoint_free_area by auto
  have hb: "header_fst m (fst b) = snd b" using ok(1) by (rule heap_chain_size)
  show ?thesis
  proof (cases "xs = []")
    case True
    show ?thesis
    proof (rule fit [where b = b and cs = ys])
      show "try_remove_fit h m n = Some (Some (fst b), h\<lparr>free_list := header_snd m (fst b)\<rparr>, m)"
        using f True by (simp add: try_remove_fit_def)
    qed (use ok srt bs hb True in \<open>auto simp: heap_inv_def\<close>)
  next
    case False
    let ?m = "m(fst (last xs) + 8 := word_of_nat (header_snd m (fst b)))"
    have l: "last xs \<in> set xs" using False by simp
    then have le: "fst (last xs) + 8 \<in> extent (last xs)" "extent (last xs) \<subseteq> free_area (xs @ ys)"
      using ok(2) block_header by (auto simp: free_area_def)
    then have "fst b \<noteq> fst (last xs) + 8" using srt(2) ok(2) block_header [of b] by (metis disjoint_iff in_set_conv_decomp subsetD)
    then have "header_fst ?m (fst b) = snd b" using hb by (simp add: header_fst_def)
    moreover have "x \<noteq> fst (last xs) + 8" if "x \<notin> free_area bs" for x using that le bs(1) by auto
    ultimately show ?thesis using f False heap_chain_unlink [OF ok(1) False ok(2,3)] ok(2) srt bs
      by (intro fit [where b = b and cs = "xs @ ys" and h' = h and m' = ?m])
        (auto simp: try_remove_fit_def heap_inv_def)
  qed
qed

text \<open>Writing the header of a block and putting it in front of the list.\<close>

lemma push_block:
  assumes "heap_inv h m bs" and "heap_block_ok b" and "extent b \<inter> free_area bs = {}"
    and "push_free_block h (write_header m (fst b) (snd b) 0) (fst b) = (h', m')"
  shows "heap_inv h' m' (b # bs)" and "page_allocator h' = page_allocator h"
    and "x \<notin> {fst b, fst b + 8} \<Longrightarrow> m' x = m x"
proof -
  have h': "h' = h\<lparr>free_list := fst b\<rparr>" and m': "m' = m(fst b := word_of_nat (snd b), fst b + 8 := word_of_nat (free_list h))"
    using assms(4) by (auto simp: push_free_block_def write_header_def)
  have out: "m' x = m x" if "x \<notin> {fst b, fst b + 8}" for x using that by (simp add: m')
  then show "x \<notin> {fst b, fst b + 8} \<Longrightarrow> m' x = m x" .
  have inv: "heap_inv h m' bs"
  proof (rule heap_inv_cong [OF assms(1)])
    fix x assume "x \<in> free_area bs"
    then have "x \<noteq> fst b" "x \<noteq> fst b + 8" using assms(3) block_header [OF assms(2)] by auto
    then show "m' x = m x" by (simp add: m')
  qed
  have "free_list h < 2 ^ 64"
  proof (cases bs)
    case (Cons c cs)
    then show ?thesis using assms(1) block_size [of c] by (simp add: heap_inv_def)
  qed (use assms(1) in \<open>simp add: heap_inv_def\<close>)
  then have "header_fst m' (fst b) = snd b" "header_snd m' (fst b) = free_list h"
    using block_size [OF assms(2)] by (simp_all add: m' header_fst_def header_snd_def unsigned_of_nat take_bit_nat_eq_self)
  then show "heap_inv h' m' (b # bs)" using inv assms(2,3) by (auto simp: h' heap_inv_def free_area_def)
  show "page_allocator h' = page_allocator h" by (simp add: h')
qed

section \<open>Alignment\<close>

lemma and_not_7: "unat ((w :: u64) AND NOT 7) = unat w div 8 * 8"
proof -
  have "w AND NOT 7 = w AND NOT (take_bit 3 w)"
  proof -
    have "w AND NOT (mask 3) = w AND NOT (take_bit 3 w)" by (rule bit_word_eqI) (auto simp: bit_simps)
    then show ?thesis by (simp add: mask_eq_exp_minus_1)
  qed
  also have "\<dots> = w - take_bit 3 w" by (rule disjunctive_diff [symmetric]) (simp add: bit_take_bit_iff)
  finally have "w AND NOT 7 = w - take_bit 3 w" .
  moreover have "unat (take_bit 3 w) = unat w mod 8" by (simp add: unsigned_take_bit_eq take_bit_nat_def)
  ultimately show ?thesis by (simp add: unat_sub_if_size word_le_nat_alt minus_mod_eq_div_mult)
qed

lemma align_up_8: "n + 8 \<le> usize_max \<Longrightarrow> align_up n 8 = Some (up8 n)"
proof -
  assume n: "n + 8 \<le> usize_max"
  then have "unat (word_of_nat (n + 7) :: u64) = n + 7" by (intro unat_word_of_nat_u64) simp
  then have "unat ((word_of_nat (n + 7) :: u64) AND NOT 7) = up8 n" by (simp only: and_not_7 up8_def)
  then show ?thesis using n by (simp add: align_up_def add_p_def sub_p_def add.commute [of 7] del: of_nat_add)
qed

lemma small_padding_max: "small_layout layout \<Longrightarrow> header_padding_max layout = Some (if l_align layout = 16 then 8 else 0)"
  by (auto simp: small_layout_def header_padding_max_def)

text \<open>A multiple of eight is at most one word away from an alignment of two words.\<close>

lemma small_padding:
  assumes "small_layout layout" and "b mod 8 = 0"
  obtains k where "align_offset b (l_align layout) = k" "k = 0 \<or> k = 8 \<and> l_align layout = 16" "(b + k) mod l_align layout = 0"
proof -
  have a: "l_align layout \<in> {1, 2, 4, 8, 16}" using assms(1) by (simp add: small_layout_def)
  obtain c where c: "b = 8 * c" using assms(2) by blast
  have "b = 2 * (4 * c)" "b = 4 * (2 * c)" unfolding c by simp_all
  then have "b mod 1 = 0" "b mod 2 = 0" "b mod 4 = 0" "b mod 8 = 0" using c by (metis mod_mult_self1_is_0 mod_by_1)+
  moreover have "b mod 16 = 0 \<or> b mod 16 = 8 \<and> (b + 8) mod 16 = 0"
  proof (cases "even c")
    case True
    then show ?thesis unfolding c by auto
  next
    case False
    then obtain d where "c = 2 * d + 1" by (elim oddE)
    then have "b = 16 * d + 8" unfolding c by simp
    then show ?thesis by (simp add: mod_add_eq)
  qed
  ultimately show thesis using a
    by (intro that [of "align_offset b (l_align layout)"]) (auto simp: align_offset_def)
qed

section \<open>Allocation\<close>

lemma up8_add: "up8 (8 * k + n) = 8 * k + up8 n"
  by (simp add: up8_def add.assoc)

lemma up8_mono: "n \<le> k \<Longrightarrow> up8 n \<le> up8 k"
  by (simp add: up8_def div_le_mono)

text \<open>Splitting a block at a multiple of eight.\<close>

lemma split_block:
  assumes "heap_block_ok (b, n)" and "k + 16 < n"
  shows "heap_block_ok (b + up8 k, n - up8 k)" and "extent (b, n) = {b ..< b + up8 k} \<union> extent (b + up8 k, n - up8 k)"
    and "{b ..< b + up8 k} \<inter> extent (b + up8 k, n - up8 k) = {}" and "up8 k \<le> n"
proof -
  obtain c where c: "up8 k = 8 * c" using up8_bounds(3) [of k] by blast
  have le: "8 * c + 8 < n" using assms(2) up8_bounds(2) [of k] unfolding c by linarith
  then have u: "up8 n = 8 * c + up8 (n - 8 * c)" using up8_add [of c "n - 8 * c"] by simp
  have "9 \<le> n - 8 * c" using le by linarith
  then have "up8 9 \<le> up8 (n - 8 * c)" by (rule up8_mono)
  moreover have "up8 9 = 16" by (simp add: up8_def)
  ultimately have "16 \<le> up8 (n - 8 * c)" by simp
  then show "heap_block_ok (b + up8 k, n - up8 k)" using assms(1) u unfolding c by (auto simp: heap_block_ok_def)
  show "extent (b, n) = {b ..< b + up8 k} \<union> extent (b + up8 k, n - up8 k)" unfolding extent_def c using u by auto
  show "{b ..< b + up8 k} \<inter> extent (b + up8 k, n - up8 k) = {}" by (auto simp: extent_def)
  show "up8 k \<le> n" unfolding c using le by simp
qed

lemma heap_place_correct:
  assumes "heap_inv h m bs" and "heap_block_ok (b, n)" and "extent (b, n) \<inter> free_area bs = {}" and "small_layout layout"
    and "16 + (if l_align layout = 16 then 8 else 0) + l_size layout \<le> n"
  shows "\<exists>p h' m' bs' c. heap_place h m layout (if l_align layout = 16 then 8 else 0) n b = Some (p, h', m') \<and>
    heap_inv h' m' bs' \<and> allocated m' p layout c \<and> extent c \<inter> free_area bs' = {} \<and>
    extent c \<union> free_area bs' \<subseteq> extent (b, n) \<union> free_area bs \<and> page_allocator h' = page_allocator h \<and>
    (\<forall>x. x \<notin> extent (b, n) \<longrightarrow> m' x = m x)"
proof -
  have b8: "(b + 16) mod 8 = 0" using assms(2) by (auto simp: heap_block_ok_def)
  obtain k where k: "align_offset (b + 16) (l_align layout) = k" "k = 0 \<or> k = 8 \<and> l_align layout = 16"
    "(b + 16 + k) mod l_align layout = 0"
    using small_padding [OF assms(4) b8] by metis
  define a where "a = 16 + k + l_size layout"
  have sz: "l_size layout < 2 ^ 63" using assms(4) by (simp add: small_layout_def)
  have an: "a \<le> n" "a + 8 \<le> usize_max" using assms(5) k(2) sz by (auto simp: a_def usize_max_def)
  have a16: "16 \<le> up8 a" "a \<le> up8 a" using up8_bounds(1) [of a] by (auto simp: a_def)
  have sub: "extent (b, a) \<subseteq> extent (b, n)" using up8_mono [OF an(1)] by (auto simp: extent_def)
  have ok: "heap_block_ok (b, a)" using assms(2) up8_mono [OF an(1)] a16 by (auto simp: heap_block_ok_def)
  obtain h1 m1 bs1 where r: "(if 16 < saturating_sub n a then do {
         rest_offset \<leftarrow> align_up a 8;
         rest_size \<leftarrow> sub_p n rest_offset;
         Some (push_free_block h (write_header m (b + rest_offset) rest_size 0) (b + rest_offset))
       } else Some (h, m)) = Some (h1, m1)" "heap_inv h1 m1 bs1" "extent (b, a) \<inter> free_area bs1 = {}"
    "free_area bs1 \<subseteq> extent (b, n) \<union> free_area bs" "page_allocator h1 = page_allocator h" "\<forall>x. x \<notin> extent (b, n) \<longrightarrow> m1 x = m x"
  proof (cases "16 < saturating_sub n a")
    case True
    then have "a + 16 < n" by (simp add: saturating_sub_def)
    note s = split_block [OF assms(2) this]
    let ?c = "(b + up8 a, n - up8 a)"
    obtain h1 m1 where p: "push_free_block h (write_header m (fst ?c) (snd ?c) 0) (fst ?c) = (h1, m1)" by fastforce
    have d: "extent ?c \<inter> free_area bs = {}" using s(2) assms(3) by blast
    note q = push_block [OF assms(1) s(1) d p]
    have "extent (b, a) \<inter> free_area (?c # bs) = {}"
    proof -
      have "extent (b, a) = {b ..< b + up8 a}" by (simp add: extent_def)
      then show ?thesis using s(3) sub assms(3) by (simp only: free_area_simps) blast
    qed
    moreover have "\<forall>x. x \<notin> extent (b, n) \<longrightarrow> m1 x = m x"
    proof (intro allI impI)
      fix x assume "x \<notin> extent (b, n)"
      then have "x \<notin> {fst ?c, fst ?c + 8}" using block_header [OF s(1)] unfolding s(2) by blast
      then show "m1 x = m x" by (rule q(3))
    qed
    ultimately show thesis using True p q(1,2) s(2,4) align_up_8 [OF an(2)]
      by (intro that [of h1 m1 "?c # bs"]) (auto simp: sub_p_def)
  next
    case False
    then show thesis using assms(1,3) sub by (intro that [of h m bs]) auto
  qed
  let ?p = "b + k + 16" and ?m = "write_header m1 (b + k) a b"
  have place: "heap_place h m layout (if l_align layout = 16 then 8 else 0) n b = Some (?p, h1, ?m)"
  proof -
    have "k \<le> (if l_align layout = 16 then 8 else 0)" using k(2) by auto
    moreover have "16 + k \<le> usize_max" "a \<le> usize_max" using an(2) by (simp_all add: a_def)
    ultimately show ?thesis unfolding heap_place_def k(1) Let_def add_p_def a_def [symmetric] using r(1)
      by (simp add: a_def [symmetric] cong: if_cong)
  qed
  have hdr: "{b + k, b + k + 8} \<subseteq> extent (b, a)" using k(2) a16 by (auto simp: extent_def a_def)
  have inv: "heap_inv h1 ?m bs1"
    by (rule heap_inv_cong [OF r(2)]) (use hdr r(3) in \<open>auto simp: write_header_def\<close>)
  have "header_fst ?m (?p - 16) = a" "header_snd ?m (?p - 16) = b"
    using an(2) block_size [OF ok] by (simp_all add: header_fst_def header_snd_def write_header_def usize_max_def)
  then have "allocated ?m ?p layout (b, a)"
    using ok k(2,3) unfolding allocated_def by (auto simp: a_def add_ac)
  moreover have "\<forall>x. x \<notin> extent (b, n) \<longrightarrow> ?m x = m x" using r(6) hdr sub by (auto simp: write_header_def)
  ultimately show ?thesis using place inv r(3,4,5) sub by blast
qed

text \<open>Finding a block, in the list or from the page allocator.\<close>

lemma div_ceil_bound: "0 < b \<Longrightarrow> a \<le> div_ceil a b * b"
proof -
  assume "0 < b"
  then have "a mod b < b" by simp
  then have "a \<le> (a div b + 1) * b" using div_mult_mod_eq [of a b] unfolding add_mult_distrib by linarith
  then show ?thesis using div_mult_mod_eq [of a b] by (auto simp: div_ceil_def)
qed

context page_source
begin

lemma heap_block_cases:
  assumes "heap_inv h m bs" and "pool s m P" and "free_area bs \<inter> P = {}" and "l_align layout \<le> 16" and "required \<le> 2 ^ 63 + 32"
  obtains (null) "heap_block alloc psize h s m layout required = Some (None, h, s, m)"
  | (block) n b h' s' m' bs' Q where "heap_block alloc psize h s m layout required = Some (Some (n, b), h', s', m')"
      "heap_inv h' m' bs'" "heap_block_ok (b, n)" "extent (b, n) \<inter> free_area bs' = {}" "required \<le> n"
      "extent (b, n) \<union> free_area bs' \<subseteq> free_area bs \<union> Q" "Q \<subseteq> P" "pool s' m' (P - Q)" "extent (b, n) \<inter> (P - Q) = {}"
      "\<forall>x. x \<notin> free_area bs \<union> P \<longrightarrow> m' x = m x" "page_allocator h' = page_allocator h"
  using assms(1)
proof (cases rule: try_remove_fit_cases [where n = required])
  case (fit b cs h' m')
  have "pool s m' P" by (rule pool_local [OF assms(2)]) (use fit(9) assms(3) in blast)
  then show ?thesis using fit assms(3)
    by (intro block [of "snd b" "fst b" h' s m' cs "{}"]) (auto simp: heap_block_def Let_def)
next
  case none
  let ?n = "max (div_ceil required (page_bytes (psize s))) MIN_PAGE_ALLOCATION"
  obtain r s' m' where a: "alloc s m ?n = Some (r, s', m')" using alloc_returns [OF assms(2)] by blast
  have pb: "16 \<le> page_bytes (psize s)" by (cases "psize s") simp_all
  show ?thesis
  proof (cases "page_allocator h")
    case False
    then show ?thesis using null none by (simp add: heap_block_def)
  next
    case True
    show ?thesis
    proof (cases r)
      case (Inl e)
      then show ?thesis using null none a True pb assms(4) alloc_fails [OF assms(2) a [unfolded Inl]]
        by (simp add: heap_block_def Let_def)
    next
      case (Inr p)
      note a = a [unfolded Inr]
      define n b where "n = page_bytes (psize s) * ?n" and "b = ptr_from_phys p"
      note pg = alloc_page [OF assms(2) a]
      have "0 < ?n" by (simp add: MIN_PAGE_ALLOCATION_def less_max_iff_disj)
      then have "0 < n" by (simp add: n_def)
      moreover have "p + n \<le> 2 ^ 48" using pg by (simp add: n_def mult.commute)
      ultimately have p: "p < 2 ^ 48" "p + n \<le> 2 ^ 48" by linarith+
      then have b: "b = p + 0xffff000000000000" by (simp add: b_def ptr_from_phys_add)
      have n8: "up8 n = n" unfolding n_def by (cases "psize s") (simp_all add: up8_def mult.assoc div_mult_self1_is_m)
      obtain Q where Q: "Q \<subseteq> P" "page_span (psize s) p ?n \<subseteq> Q" "pool s' m' (P - Q)" using alloc_takes [OF assms(2) a] by blast
      have ext: "extent (b, n) = page_span (psize s) p ?n"
        using n8 by (simp add: extent_def page_span_def b_def n_def mult.commute)
      have "required \<le> n"
      proof -
        have "required \<le> div_ceil required (page_bytes (psize s)) * page_bytes (psize s)" by (rule div_ceil_bound) simp
        also have "\<dots> \<le> ?n * page_bytes (psize s)" by (rule mult_le_mono1) simp
        finally show ?thesis by (simp only: n_def mult.commute)
      qed
      moreover have "b mod 8 = 0" using pg unfolding b by (cases "psize s") (auto simp: mod_add_eq)
      moreover have "16 \<le> n" using pb \<open>0 < ?n\<close> mult_le_mono [of 16 "page_bytes (psize s)" 1 ?n] by (simp add: n_def)
      ultimately have ok: "heap_block_ok (b, n)" "required \<le> n" using p b n8 by (simp_all add: heap_block_ok_def)
      have "n \<le> usize_max" using p by (simp add: usize_max_def)
      then have hb: "heap_block alloc psize h s m layout required = Some (Some (n, b), h, s', m')"
        using none True a pb assms(4) b by (simp add: heap_block_def Let_def page_size_mul_def mul_p_def n_def [symmetric] b_def [symmetric])
      have inv: "heap_inv h m' bs" by (rule heap_inv_cong [OF assms(1)]) (use alloc_frame [OF assms(2) a] assms(3) in blast)
      show ?thesis using hb inv ok Q assms(3) alloc_frame [OF assms(2) a] unfolding ext [symmetric]
        by (intro block [of n b h s' m' bs Q]) auto
    qed
  qed
qed

lemma heap_alloc_spec:
  assumes "heap_inv h m bs" and "pool s m P" and "free_area bs \<inter> P = {}" and "small_layout layout"
  shows "\<exists>p h' s' m'. heap_alloc alloc psize h s m layout = Some (p, h', s', m') \<and>
    (p = 0 \<and> h' = h \<and> s' = s \<and> m' = m \<or>
     (\<exists>bs' c Q. heap_inv h' m' bs' \<and> Q \<subseteq> P \<and> pool s' m' (P - Q) \<and> allocated m' p layout c \<and>
        extent c \<inter> free_area bs' = {} \<and> (extent c \<union> free_area bs') \<inter> (P - Q) = {} \<and>
        extent c \<union> free_area bs' \<subseteq> free_area bs \<union> Q \<and> (\<forall>x. x \<notin> free_area bs \<union> P \<longrightarrow> m' x = m x)))"
proof -
  let ?pad = "if l_align layout = 16 then 8 else 0 :: usize"
  have pad: "header_padding_max layout = Some ?pad" using assms(4) by (rule small_padding_max)
  have sz: "l_size layout < 2 ^ 63" "l_align layout \<le> 16" using assms(4) by (auto simp: small_layout_def)
  then have req: "add_p 16 ?pad = Some (16 + ?pad)" "add_p (16 + ?pad) (l_size layout) = Some (16 + ?pad + l_size layout)"
    "16 + ?pad + l_size layout \<le> 2 ^ 63 + 32"
    by (auto simp: add_p_def usize_max_def)
  note alloc = heap_alloc_def [of alloc psize h s m layout] pad req(1,2) bind.simps(2)
  show ?thesis using assms(1-3) sz(2) req(3)
  proof (cases rule: heap_block_cases)
    case null
    then have "heap_alloc alloc psize h s m layout = Some (0, h, s, m)" unfolding alloc by simp
    then show ?thesis by blast
  next
    case (block n b h1 s1 m1 bs1 Q)
    obtain p h' m' bs' c where p: "heap_place h1 m1 layout ?pad n b = Some (p, h', m')"
      "heap_inv h' m' bs'" "allocated m' p layout c" "extent c \<inter> free_area bs' = {}"
      "extent c \<union> free_area bs' \<subseteq> extent (b, n) \<union> free_area bs1" "\<forall>x. x \<notin> extent (b, n) \<longrightarrow> m' x = m1 x"
      using heap_place_correct [OF block(2,3,4) assms(4) block(5)] by blast
    have "pool s1 m' (P - Q)" by (rule pool_local [OF block(8)]) (use p(6) block(9) in blast)
    moreover have "(extent c \<union> free_area bs') \<inter> (P - Q) = {}" using p(5) block(6,9) assms(3) by blast
    moreover have "extent c \<union> free_area bs' \<subseteq> free_area bs \<union> Q" using p(5) block(6) by blast
    moreover have "\<forall>x. x \<notin> free_area bs \<union> P \<longrightarrow> m' x = m x"
    proof (intro allI impI)
      fix x assume x: "x \<notin> free_area bs \<union> P"
      then have "x \<notin> extent (b, n)" using block(6,7) by blast
      then show "m' x = m x" using p(6) block(10) x by simp
    qed
    moreover have "heap_alloc alloc psize h s m layout = Some (p, h', s1, m')"
      unfolding alloc using block(1) p(1) by simp
    ultimately show ?thesis using p(2-4) block(7) by blast
  qed
qed

end

text \<open>C5: for an alignment of up to two words, an allocation from the heap over the buddy
  allocator never panics.  It either returns null and changes nothing, or returns an aligned address
  in front of which the header records a block that was free: the block lies in the free list or in
  fresh pages, it is big enough for the header and the data, it is in no block of
  the new free list and not in the pages left to the allocator, and no memory outside of the heap's
  free blocks and the free pages changes.\<close>

theorem heap_alloc_correct:
  assumes "heap_inv h m bs" and "buddy_pool a m P" and "free_area bs \<inter> P = {}" and "small_layout layout"
  shows "\<exists>p h' a' m'. heap_alloc buddy_allocate page_size h a m layout = Some (p, h', a', m') \<and>
    (p = 0 \<and> h' = h \<and> a' = a \<and> m' = m \<or>
     (\<exists>bs' c Q. heap_inv h' m' bs' \<and> Q \<subseteq> P \<and> buddy_pool a' m' (P - Q) \<and> allocated m' p layout c \<and>
        extent c \<inter> free_area bs' = {} \<and> (extent c \<union> free_area bs') \<inter> (P - Q) = {} \<and>
        extent c \<union> free_area bs' \<subseteq> free_area bs \<union> Q \<and> (\<forall>x. x \<notin> free_area bs \<union> P \<longrightarrow> m' x = m x)))"
  using assms by (rule buddy.heap_alloc_spec)

lemma heap_dealloc_eq:
  assumes "small_layout layout" and "p \<noteq> 0" and "header_fst m (p - 16) = n" and "header_snd m (p - 16) = b"
    and "16 + l_size layout \<le> n" and "n \<le> (if l_align layout = 16 then 8 else 0) + (16 + l_size layout)"
    and "is_free h m b = Some False"
  shows "heap_dealloc h m p layout = Some (push_free_block h (write_header m b n 0) b)"
proof -
  have "l_size layout < 2 ^ 63" using assms(1) by (auto simp: small_layout_def)
  then show ?thesis using assms(2-7)
    by (simp add: heap_dealloc_def small_padding_max [OF assms(1)] add_p_def usize_max_def Let_def)
qed

lemma heap_dealloc_spec:
  assumes "heap_inv h m bs" and "allocated m p layout c" and "extent c \<inter> free_area bs = {}" and "small_layout layout"
  shows "\<exists>h' m'. heap_dealloc h m p layout = Some (h', m') \<and> heap_inv h' m' (c # bs) \<and> (\<forall>x. x \<notin> extent c \<longrightarrow> m' x = m x)"
proof -
  have c: "heap_block_ok c" "fst c + 16 \<le> p" "p \<le> fst c + 16 + (if l_align layout = 16 then 8 else 0)"
    "p + l_size layout = fst c + snd c" "header_fst m (p - 16) = snd c" "header_snd m (p - 16) = fst c"
    using assms(2) by (auto simp: allocated_def)
  have "\<not> (fst b \<le> fst c \<and> fst c < fst b + snd b)" if "b \<in> set bs" for b
  proof -
    have "fst c \<notin> extent b" using block_header [OF c(1)] assms(3) that unfolding free_area_def by blast
    then show ?thesis using up8_bounds(1) [of "snd b"] by (auto simp: extent_def)
  qed
  then have "is_free h m (fst c) = Some False"
    unfolding is_free_def using assms(1) is_free_from_spec [of m "free_list h" bs "fst c"]
    by (auto simp: heap_inv_def heap_block_ok_def)
  moreover obtain h' m' where p: "push_free_block h (write_header m (fst c) (snd c) 0) (fst c) = (h', m')" by fastforce
  moreover have "16 + l_size layout \<le> snd c" "snd c \<le> (if l_align layout = 16 then 8 else 0) + (16 + l_size layout)" "p \<noteq> 0"
    using c by auto
  ultimately have "heap_dealloc h m p layout = Some (h', m')"
    using heap_dealloc_eq [OF assms(4) _ c(5,6)] by simp
  moreover have "\<forall>x. x \<notin> extent c \<longrightarrow> m' x = m x"
    using push_block(3) [OF assms(1) c(1) assms(3) p] block_header [OF c(1)] by (metis insertE singletonD)
  ultimately show ?thesis using push_block(1) [OF assms(1) c(1) assms(3) p] by blast
qed

text \<open>C11: releasing an allocated block puts exactly its bytes back in the free list, and writes to
  no other memory.\<close>

theorem heap_dealloc_correct:
  assumes "heap_inv h m bs" and "allocated m p layout c" and "extent c \<inter> free_area bs = {}" and "small_layout layout"
  shows "\<exists>h' m'. heap_dealloc h m p layout = Some (h', m') \<and> heap_inv h' m' (c # bs) \<and> (\<forall>x. x \<notin> extent c \<longrightarrow> m' x = m x)"
  using assms by (rule heap_dealloc_spec)

text \<open>C37: for an alignment of more than two words the padding allowed for is one word too small: when
  the data of the first block would begin one word after an aligned address, and the block is big
  enough for the size that is asked for with the greatest padding allowed, \<^verbatim>\<open>alloc\<close> panics.\<close>

theorem heap_alloc_alignment_panics:
  assumes "heap_inv h m (b # bs)" and "l_align layout = 2 ^ k" and "5 \<le> k" and "(fst b + 16) mod 2 ^ k = 8"
    and "l_align layout + l_size layout \<le> snd b"
  shows "heap_alloc allocate psize h s m layout = None"
proof -
  have "(2 :: nat) ^ 5 \<le> 2 ^ k" using assms(3) by (intro power_increasing) simp_all
  then have a: "32 \<le> l_align layout" by (simp add: assms(2))
  have off: "align_offset (fst b + 16) (l_align layout) = l_align layout - 8"
    using a assms(4) by (simp add: align_offset_def assms(2))
  have ok: "heap_block_ok b" "free_list h = fst b" "header_fst m (fst b) = snd b" using assms(1) by (auto simp: heap_inv_def)
  have sz: "l_align layout + l_size layout \<le> usize_max" using assms(5) block_size [OF ok(1)] by (simp add: usize_max_def)
  have f: "find_fit m (l_align layout + l_size layout) None (fst b) = Some (Some (None, fst b, header_snd m (fst b)))"
    using assms(5) ok by (simp add: find_fit.simps [of m _ None "fst b"] heap_block_ok_def Let_def)
  have pl: "heap_place h' m' layout (l_align layout - 16) n (fst b) = None" for h' m' n
  proof -
    have "\<not> l_align layout - 8 \<le> l_align layout - 16" using a by linarith
    then show ?thesis unfolding heap_place_def off by (simp add: Let_def)
  qed
  have ad: "add_p 16 (l_align layout - 16) = Some (l_align layout)" "add_p (l_align layout) (l_size layout) = Some (l_align layout + l_size layout)"
    using a sz by (simp_all add: add_p_def)
  show ?thesis using a f assms(5) ok(2,3)
    by (simp add: heap_alloc_def ad header_padding_max_def sub_p_def heap_block_def try_remove_fit_def Let_def pl)
qed

text \<open>C38: releasing a block twice is detected only when something else was free.  With an empty free
  list the first release leaves a null link where the header had the address of the block; the second release
  passes the check, writes a header at address zero and drops the whole free list.\<close>

theorem heap_double_free_missed:
  assumes "heap_inv h m []" and "allocated m p layout c" and "p = fst c + 16" and "small_layout layout"
  shows "\<exists>h1 m1 h2 m2. heap_dealloc h m p layout = Some (h1, m1) \<and> heap_inv h1 m1 [c] \<and>
    heap_dealloc h1 m1 p layout = Some (h2, m2) \<and> m2 0 = word_of_nat (snd c) \<and> heap_inv h2 m2 []"
proof -
  have c: "heap_block_ok c" "16 + l_size layout = snd c" using assms(2,3) by (auto simp: allocated_def)
  obtain h1 m1 where d1: "heap_dealloc h m p layout = Some (h1, m1)" "heap_inv h1 m1 [c]"
    using heap_dealloc_spec [OF assms(1,2) _ assms(4)] by auto
  then have "header_fst m1 (p - 16) = snd c" "header_snd m1 (p - 16) = 0" "free_list h1 = fst c"
    using assms(3) by (auto simp: heap_inv_def)
  moreover have "is_free h1 m1 0 = Some False"
    unfolding is_free_def using is_free_from_spec [of m1 "free_list h1" "[c]" 0] d1(2) c(1)
    by (auto simp: heap_inv_def heap_block_ok_def)
  ultimately have "heap_dealloc h1 m1 p layout = Some (push_free_block h1 (write_header m1 0 (snd c) 0) 0)"
    using heap_dealloc_eq [OF assms(4), of p m1 "snd c" 0 h1] assms(3) c(2) by simp
  moreover have "heap_inv (fst (push_free_block h1 (write_header m1 0 (snd c) 0) 0)) (snd (push_free_block h1 (write_header m1 0 (snd c) 0) 0)) []"
    "snd (push_free_block h1 (write_header m1 0 (snd c) 0) 0) 0 = word_of_nat (snd c)"
    by (simp_all add: heap_inv_def push_free_block_def write_header_def)
  ultimately show ?thesis using d1 by (cases "push_free_block h1 (write_header m1 0 (snd c) 0) 0") auto
qed

section \<open>Examples\<close>

text \<open>A heap with no free block and one allocation, and a heap with one free block.\<close>

definition mem_allocated :: mem where
  "mem_allocated = write_header (\<lambda>_. 0) 0xffff000000000000 116 0xffff000000000000"

definition mem_free :: mem where
  "mem_free = write_header (\<lambda>_. 0) 0xffff000000000018 200 0"

lemma heap_new_inv: "heap_inv heap_new m []"
  by (simp add: heap_inv_def heap_new_def)

lemma mem_allocated_block:
  "allocated mem_allocated 0xffff000000000010 \<lparr> l_size = 100, l_align = 8 \<rparr> (0xffff000000000000, 116)"
  by (simp add: allocated_def mem_allocated_def heap_block_ok_def up8_def header_fst_def header_snd_def write_header_def)

lemma mem_free_inv: "heap_inv \<lparr> page_allocator = True, free_list = 0xffff000000000018 \<rparr> mem_free [(0xffff000000000018, 200)]"
  by (simp add: heap_inv_def mem_free_def heap_block_ok_def up8_def header_fst_def header_snd_def write_header_def)

lemma small_layout_100: "small_layout \<lparr> l_size = 100, l_align = 8 \<rparr>"
  by (simp add: small_layout_def)

theorem heap_alloc_correct_witness:
  "\<exists>p h' a' m'. heap_alloc buddy_allocate page_size heap_new (arena4 [0, 0, 0xffff000000000000]) (\<lambda>_. 0) \<lparr> l_size = 100, l_align = 8 \<rparr> =
     Some (p, h', a', m') \<and> (p = 0 \<or> (\<exists>c. allocated m' p \<lparr> l_size = 100, l_align = 8 \<rparr> c))"
proof -
  have "buddy_pool (arena4 [0, 0, 0xffff000000000000]) (\<lambda>_. 0) (free_bytes FourKiB [[], [], [0xffff000000000000]])"
    using arena4_whole unfolding buddy_pool_def by (intro exI conjI) (assumption, simp add: arena4_def)
  from heap_alloc_correct [OF heap_new_inv this _ small_layout_100] show ?thesis by (simp only: free_area_simps) blast
qed

theorem heap_dealloc_correct_witness:
  "\<exists>h' m'. heap_dealloc heap_new mem_allocated 0xffff000000000010 \<lparr> l_size = 100, l_align = 8 \<rparr> = Some (h', m') \<and>
     heap_inv h' m' [(0xffff000000000000, 116)]"
  using heap_dealloc_correct [OF heap_new_inv mem_allocated_block _ small_layout_100] by auto

theorem heap_alloc_alignment_panics_witness:
  "heap_alloc buddy_allocate page_size \<lparr> page_allocator = True, free_list = 0xffff000000000018 \<rparr> (arena4 [0, 0, 0]) mem_free
     \<lparr> l_size = 64, l_align = 32 \<rparr> = None"
  using heap_alloc_alignment_panics [OF mem_free_inv, of "\<lparr> l_size = 64, l_align = 32 \<rparr>" 5] by simp

theorem heap_double_free_missed_witness:
  "\<exists>h1 m1 h2 m2. heap_dealloc heap_new mem_allocated 0xffff000000000010 \<lparr> l_size = 100, l_align = 8 \<rparr> = Some (h1, m1) \<and>
     heap_dealloc h1 m1 0xffff000000000010 \<lparr> l_size = 100, l_align = 8 \<rparr> = Some (h2, m2) \<and> m2 0 = 116"
  using heap_double_free_missed [OF heap_new_inv mem_allocated_block _ small_layout_100] by auto

end
