(* ===== verification/Tree_Search.thy ===== *)
theory Tree_Search
  imports Virt_Tree
begin

text \<open>
  Lemmas for descriptions of devices by the content of a device tree: the properties of a node by name, the regions of memory that
  a \<^verbatim>\<open>reg\<close> property lists with the cell sizes in force, and the children of a node by name.
\<close>

abbreviation prop_of :: "node \<Rightarrow> bytes \<Rightarrow> bytes option" where
  "prop_of n name \<equiv> map_of (props n) name"

definition unambiguous :: "node \<Rightarrow> bool" where
  "unambiguous n \<longleftrightarrow> distinct (map fst (props n))"

text \<open>The cell sizes for the children of a node, and a region of memory written with them.\<close>

definition cells_below :: "node \<Rightarrow> nat option \<times> nat option \<Rightarrow> nat \<times> nat" where
  "cells_below n cells =
     (unwrap_or (fst (fold set_cells (props n) cells)) 2, unwrap_or (snd (fold set_cells (props n) cells)) 1)"

definition enc_region :: "nat \<times> nat \<Rightarrow> nat \<times> nat \<Rightarrow> bytes" where
  "enc_region cs r = enc_cells (fst cs) (fst r) @ enc_cells (snd cs) (snd r)"

definition region_fits :: "nat \<times> nat \<Rightarrow> nat \<times> nat \<Rightarrow> bool" where
  "region_fits cs r \<longleftrightarrow> fst cs \<le> 2 \<and> snd cs \<le> 2 \<and> 0 < fst cs + snd cs \<and> fst r < 2 ^ (32 * fst cs) \<and> snd r < 2 ^ (32 * snd cs)"

lemma values_lookup:
  "map_of (values_of (n, ac, sc)) name = map_option (\<lambda>b. prop_value (unwrap_or ac 2) (unwrap_or sc 1) (name, b)) (prop_of n name)"
proof -
  have "map_of (map (\<lambda>p. (fst p, prop_value (unwrap_or ac 2) (unwrap_or sc 1) p)) ps) name =
      map_option (\<lambda>b. prop_value (unwrap_or ac 2) (unwrap_or sc 1) (name, b)) (map_of ps name)" for ps
    by (induction ps) auto
  then show ?thesis by (simp add: values_of_def)
qed

lemma values_names: "map fst (values_of (n, c)) = map fst (props n)"
  by (cases c) (simp add: values_of_def comp_def)

lemma values_unambiguous:
  assumes "unambiguous n"
  shows "map_of (rev (values_of (n, c))) = map_of (values_of (n, c))"
    and "(name, v) \<in> set (values_of (n, c)) \<longleftrightarrow> map_of (values_of (n, c)) name = Some v"
proof -
  have d: "distinct (map fst (values_of (n, c)))" using assms unfolding values_names unambiguous_def .
  then have "distinct (map fst (rev (values_of (n, c))))" by (simp only: rev_map [symmetric] distinct_rev)
  then show "map_of (rev (values_of (n, c))) = map_of (values_of (n, c))"
    using d map_of_inject_set by (metis set_rev)
  show "(name, v) \<in> set (values_of (n, c)) \<longleftrightarrow> map_of (values_of (n, c)) name = Some v" using d by simp
qed

lemma filter_key:
  "map_of xs k = Some v \<Longrightarrow> distinct (map fst xs) \<Longrightarrow> filter (\<lambda>p. fst p = k) xs = [(k, v)]"
  by (induction xs) (force simp: filter_empty_conv split: if_splits)+

lemma root_cells: "label tr = [] \<Longrightarrow> node_at tr ''/'' = Some (tr, None, None)"
  by (simp add: node_at_def)

lemma children_found:
  assumes "holds_tree dt tr" and "node_at tr path = Some (n, cells)" and "cells_below n cells = (ac, sc)"
  obtains it items where "iter_nodes_named BigEndian dt path name = Some (Some it)" "nodes_from BigEndian dt it = Some items"
    "list_all2 (\<lambda>i c. properties_from BigEndian dt (properties i) = Some (values_of (c, Some ac, Some sc))) items
       (filter (named name) (children n))"
proof -
  obtain it items where i: "iter_nodes_named BigEndian dt path name = Some (Some it)" "nodes_from BigEndian dt it = Some items"
    "map (item_view BigEndian dt) items = map (child_view ac sc) (filter (named name) (children n))"
    using iter_nodes_named_tree [OF assms(1), of path name] assms(2,3) by (auto simp: cells_below_def)
  have "list_all2 (\<lambda>i c. item_view BigEndian dt i = child_view ac sc c) items (filter (named name) (children n))"
    unfolding list_all2_conv_all_nth using i(3) by (metis length_map nth_map)
  then have "list_all2 (\<lambda>i c. properties_from BigEndian dt (properties i) = Some (values_of (c, Some ac, Some sc))) items
       (filter (named name) (children n))" by (rule list_all2_mono) (simp add: item_view_def child_view_def)
  then show thesis using that i(1,2) by blast
qed

lemma first_child_found:
  assumes "holds_tree dt tr" and "label tr = []" and "cells_below tr (None, None) = (ac, sc)"
    and "filter (named name) (children tr) = c # cs"
  obtains it i items it' where "iter_nodes_named BigEndian dt ''/'' name = Some (Some it)" "nodes_from BigEndian dt it = Some (i # items)"
    "length items = length cs" "nodes_named_next BigEndian dt it = Some (Some i, it')"
    "properties_from BigEndian dt (properties i) = Some (values_of (c, Some ac, Some sc))"
proof -
  obtain it items where i: "iter_nodes_named BigEndian dt ''/'' name = Some (Some it)" "nodes_from BigEndian dt it = Some items"
    "list_all2 (\<lambda>i c. properties_from BigEndian dt (properties i) = Some (values_of (c, Some ac, Some sc))) items (c # cs)"
    by (rule children_found [OF assms(1) root_cells [OF assms(2)] assms(3), of name]) (simp add: assms(4))
  then obtain x xs where x: "items = x # xs" "length xs = length cs"
    "properties_from BigEndian dt (properties x) = Some (values_of (c, Some ac, Some sc))"
    by (auto simp: list_all2_Cons2 dest: list_all2_lengthD)
  obtain it' where "nodes_named_next BigEndian dt it = Some (Some x, it')"
    using i(2) unfolding x(1) by (subst (asm) nodes_from.simps) (auto split: bind_splits option.splits)
  then show thesis using that i(1,2) x by blast
qed

lemma region_next:
  assumes "region_fits cs r"
  shows "registers_next BigEndian \<lparr> reg_data = pre @ enc_region cs r @ rest, address_cells = fst cs, size_cells = snd cs \<rparr> (length pre) =
    Some (Some r, length pre + length (enc_region cs r))"
proof -
  let ?d = "pre @ enc_region cs r @ rest"
  have "registers_next BigEndian \<lparr> reg_data = ?d, address_cells = fst cs, size_cells = snd cs \<rparr> (length pre) =
      Some (Some (fst r, snd r), length pre + 4 * fst cs + 4 * snd cs)"
    by (rule registers_next_enc(1) [where r = rest]) (use assms in \<open>simp_all add: region_fits_def enc_region_def\<close>)
  then show ?thesis by (simp add: enc_region_def)
qed

lemma prop_value_reg: "prop_value ac sc (''reg'', b) = Reg \<lparr> reg_data = b, address_cells = ac, size_cells = sc \<rparr>"
  by (simp add: prop_value_def parse_value_def)

lemma prop_value_bytes:
  "name \<notin> {''compatible'', ''model'', ''status'', ''device_type'', ''phandle'', ''#address-cells'', ''#size-cells'', ''virtual-reg'', ''reg''} \<Longrightarrow>
     prop_value ac sc (name, b) = Bytes b"
  by (simp add: prop_value_def parse_value_def)

lemma virt_cells: "cells_below virt_tree (None, None) = (2, 2)" "cells_below virt_cpus (Some 2, Some 2) = (1, 0)"
  by (simp_all add: cells_below_def virt_tree_def virt_cpus_def set_cells_def unwrap_or_def)

lemma virt_regions: "enc_region (2, 2) (a, n) = be64 a @ be64 n" "enc_region (1, 0) (a, 0) = be32 a"
  by (simp_all add: enc_region_def enc_cells_2)

end
