(* ===== verification/Memory_Init.thy ===== *)
theory Memory_Init
  imports Start Subtract_Ranges Heap Tree_Search
begin

text \<open>
  Setting up memory at boot: the kernel image (\<^verbatim>\<open>kernel/src/running_image.rs\<close>) and the
  initialization of the page allocator, the kernel page tables and the heap
  (\<^verbatim>\<open>kernel/src/memory.rs\<close>).  The symbols of the linker script are the fields of \<open>Markers\<close>; the root of the page
  tables is the table of \<^verbatim>\<open>start.S\<close>, as theory \<^verbatim>\<open>Start\<close> leaves it.  The messages to the log and
  the flush of the TLB have no effect on this state.

  The adaptor \<^verbatim>\<open>exactly_one\<close> of the crate \<^verbatim>\<open>itertools\<close> is a parameter, once for each type of item, with the hypothesis
  \<open>picks_one\<close>.  The iterator is given as the list of its items: when there is more than one, the code panics
  whatever the others are.

  The main theorem composes interval subtraction, the buddy allocator, the page tables and
  the heap.
\<close>

section \<open>The running image\<close>

record Markers =
  bss_start :: ptr
  bss_end :: ptr
  kernel_start :: ptr
  kernel_end :: ptr

text \<open>\<^verbatim>\<open>offset_from(..) as usize\<close>.\<close>

definition offset_from :: "ptr \<Rightarrow> ptr \<Rightarrow> usize" where
  "offset_from p origin = unat (word_of_nat p - word_of_nat origin :: u64)"

definition zero_bss_section :: "Markers \<Rightarrow> mem \<Rightarrow> mem" where
  "zero_bss_section mk m = write_zeroes m (bss_start mk) (offset_from (bss_end mk) (bss_start mk))"

definition image_memory_region :: "Markers \<Rightarrow> ptr \<times> usize" where
  "image_memory_region mk = (kernel_start mk, offset_from (kernel_end mk) (kernel_start mk))"

section \<open>Model\<close>

record MemoryState =
  PAGE_ALLOCATOR :: "BuddyPageAllocator option"
  ALLOCATOR :: HeapAllocator
  KERNEL_PAGE_TABLES :: "PageTables option"
  MAIR_EL1 :: u64
  ram :: mem

definition MAX_ORDER :: usize where
  "MAX_ORDER = 16"

definition properties_default :: MemoryProperties where
  "properties_default = \<lparr> kind = Normal, user_space_access = False, writable = False, executable = False, shareability = Global \<rparr>"

text \<open>\<^verbatim>\<open>.expect(..)\<close> on the result of \<^verbatim>\<open>map\<close>.\<close>

definition mapped :: "('s, unit) pt_result \<Rightarrow> ('s \<times> mem) panics" where
  "mapped r = do { (r, s, m) \<leftarrow> r; case r of Inl e \<Rightarrow> panic | Inr _ \<Rightarrow> Some (s, m) }"

text \<open>The closure that initializes \<^verbatim>\<open>KERNEL_PAGE_TABLES\<close>.\<close>

definition kernel_tables :: "ptr \<Rightarrow> paddr \<Rightarrow> usize \<Rightarrow> BuddyPageAllocator \<Rightarrow> mem \<Rightarrow> (PageTables \<times> BuddyPageAllocator \<times> mem) panics" where
  "kernel_tables page_table_root memory_start memory_length pa m = do {
     pt \<leftarrow> from_existing (page_size pa) (phys_from_ptr page_table_root) True;
     let block_size = largest_supported_block_size (page_size pa);
     block_size_in_bytes \<leftarrow> length_in_bytes block_size (page_size pa);
     let memory_size_in_blocks = div_ceil memory_length block_size_in_bytes;
     (pa, m) \<leftarrow> mapped (pt_map buddy_allocate pt (virt_from_phys memory_start) memory_start memory_size_in_blocks block_size
       (properties_default\<lparr>writable := True, executable := True\<rparr>) pa m);
     (pa, m) \<leftarrow> mapped (pt_map buddy_allocate pt 0xffff000000000000 0 (memory_start div block_size_in_bytes) block_size
       (properties_default\<lparr>writable := True, kind := Device\<rparr>) pa m);
     Some (pt, pa, m)
   }"

text \<open>The loop over the regions that are left.\<close>

fun add_regions :: "(ptr \<times> usize) list \<Rightarrow> BuddyPageAllocator \<Rightarrow> mem \<Rightarrow> (BuddyPageAllocator \<times> mem) panics" where
  "add_regions [] pa m = Some (pa, m)"
| "add_regions ((region_start, region_length) # rs) pa m = do {
     (added, pa, m) \<leftarrow> add_memory_region pa m region_start region_length;
     assert_p added;
     add_regions rs pa m
   }"

text \<open>The range of memory that the device tree describes.\<close>

definition memory_range :: "(NodeItem list \<Rightarrow> NodeItem option) \<Rightarrow> ((nat \<times> nat) list \<Rightarrow> (nat \<times> nat) option) \<Rightarrow> ByteOrder \<Rightarrow>
    DeviceTree \<Rightarrow> (nat \<times> nat) panics" where
  "memory_range one_node one_range bo dt = do {
     nodes \<leftarrow> iter_nodes_named bo dt ''/'' ''memory'';
     nodes \<leftarrow> nodes;
     items \<leftarrow> nodes_from bo dt nodes;
     memory_node \<leftarrow> one_node items;
     v \<leftarrow> find_in_properties bo dt (properties memory_node) ''reg'';
     v \<leftarrow> v;
     r \<leftarrow> into_reg v;
     rs \<leftarrow> registers_from bo r 0;
     one_range rs
   }"

definition memory_init :: "(NodeItem list \<Rightarrow> NodeItem option) \<Rightarrow> ((nat \<times> nat) list \<Rightarrow> (nat \<times> nat) option) \<Rightarrow> ByteOrder \<Rightarrow>
    Markers \<Rightarrow> ptr \<Rightarrow> DeviceTree \<Rightarrow> MemoryState \<Rightarrow> MemoryState panics" where
  "memory_init one_node one_range bo mk page_table_root dt st = do {
     range \<leftarrow> memory_range one_node one_range bo dt;
     dt_region \<leftarrow> memory_region bo dt;
     let reserved_regions = [image_memory_region mk, dt_region];
     memory_start \<leftarrow> phys_from_usize (fst range);
     let memory_regions = subtract_ranges (ptr_from_phys memory_start, snd range) reserved_regions;
     pa \<leftarrow> (case PAGE_ALLOCATOR st of
         None \<Rightarrow> buddy_new MAX_ORDER FourKiB (ptr_from_phys memory_start) (snd range)
       | Some pa \<Rightarrow> Some pa);
     let (first_region, memory_regions) = next_range memory_regions;
     first_region \<leftarrow> first_region;
     (added, pa, m) \<leftarrow> add_memory_region pa (ram st) (fst first_region) (snd first_region);
     assert_p added;
     (pt, pa, m) \<leftarrow> (case KERNEL_PAGE_TABLES st of
         None \<Rightarrow> kernel_tables page_table_root memory_start (snd range) pa m
       | Some pt \<Rightarrow> Some (pt, pa, m));
     (pa, m) \<leftarrow> add_regions (collect_ranges memory_regions) pa m;
     Some (st\<lparr>PAGE_ALLOCATOR := Some pa, KERNEL_PAGE_TABLES := Some pt, MAIR_EL1 := MAIR_VALUE, ram := m,
       ALLOCATOR := heap_init (ALLOCATOR st)\<rparr>)
   }"

section \<open>The kernel page tables\<close>

lemma low_kernel: "z < 2 ^ 48 \<Longrightarrow> low (0xffff000000000000 + z) = z"
  by (rule low_tag) simp_all

lemma map_kernel_blocks:
  assumes "buddy_pool a m P" and "page_size a = FourKiB" and o: "one_level1 r l m"
    and dj: "(table_bytes FourKiB r \<union> table_bytes FourKiB l) \<inter> P = {}"
    and n: "0 < n" "y + n * 2 ^ 30 \<le> 2 ^ 39" "y mod 2 ^ 30 = 0" and v: "v = 0xffff000000000000 + y"
  obtains m' where "pt_map buddy_allocate (kernel_pt r) v y n LargeBlock prp a m = Some (Inr (), a, m')" "buddy_pool a m' P"
    "one_level1 r l m'" "\<forall>x. x \<notin> table_bytes FourKiB l \<longrightarrow> m' x = m x"
    "\<forall>z < 2 ^ 48. physical_address_of (kernel_pt r) m' (0xffff000000000000 + z) =
       (if y \<le> z \<and> z < y + n * 2 ^ 30 then Some (Some z) else physical_address_of (kernel_pt r) m (0xffff000000000000 + z))"
proof -
  let ?t = "kernel_pt r" and ?T = "0xffff000000000000 :: usize"
  note t = one_level1_tables [OF o]
  have "0 < n * 2 ^ 30" using n(1) by simp
  then have y: "y < 2 ^ 39" using n(2) by linarith
  then have lv: "low v = y" unfolding v by (intro low_kernel) simp
  have "idx FourKiB 0 v = 0" using idx_low [of FourKiB 0 v] y lv by (simp add: idx_def table_span_def entry_span_def)
  then have q: "entry_decode (m (root ?t + 8 * idx FourKiB 0 v)) 0 = Some (Table (phys_from_ptr l))" using t(1) by simp
  have k: "is_in_kernel_space (?T + z)" if "z < 2 ^ 48" for z using that by (subst in_kernel_space_iff) (simp_all add: usize_max_def)
  have hyp: "low v mod 2 ^ 39 + n * 2 ^ 30 \<le> 2 ^ 39" "y + n * 2 ^ 30 \<le> 2 ^ 48" "low v + n * 2 ^ 30 \<le> 2 ^ 48" "v \<le> usize_max" "v mod 2 ^ 30 = 0"
    "is_in_kernel_space v = high_tag ?t"
    using n y lv k [of y] by (simp_all add: v usize_max_def mod_add_left_eq [symmetric])
  obtain m' where m': "pt_map buddy_allocate ?t v y n LargeBlock prp a m = Some (Inr (), a, m')"
    "\<forall>x. x \<notin> foot FourKiB m 1 l \<longrightarrow> m' x = m x" "wf_table FourKiB m' 1 l" "foot FourKiB m' 1 l \<subseteq> foot FourKiB m 1 l"
    by (rule map_large_blocks [OF kernel_pt_sel(3) t(4) q n(1) hyp(1-5) n(3) hyp(6), unfolded t(2)])
  have f: "foot FourKiB m 1 l = table_bytes FourKiB l" using o by (simp add: one_level1_def)
  then have "foot FourKiB m' 1 l = table_bytes FourKiB l" using m'(4) foot_children [of 1 FourKiB m' l] by auto
  moreover have "m' (r + 8 * i) = m (r + 8 * i)" if "i < 512" for i
    using m'(2) f t(3) entry_in_table [of i FourKiB r] that by (auto simp: entries_def)
  from this [of 0] this have "m' r = m r" "\<forall>i. 0 < i \<and> i < 512 \<longrightarrow> m' (r + 8 * i) = m (r + 8 * i)" by simp_all
  ultimately have o': "one_level1 r l m'" using o m'(3) by (simp add: one_level1_def)
  have p: "buddy_pool a m' P" using m'(2) f dj by (intro buddy.pool_local [OF assms(1)]) auto
  have "\<forall>p. is_in_kernel_space p = high_tag ?t \<longrightarrow> (if low v \<le> low p \<and> low p < low v + n * 2 ^ 30
      then physical_address_of ?t m' p = Some (Some (y + (low p - low v)))
      else physical_address_of ?t m' p = physical_address_of ?t m p)"
    using pt_map_spec [OF assms(1) _ t(4), of LargeBlock 1 "2 ^ 30" n v y prp] run4 m'(1) n hyp dj t(5) assms(2)
    by (auto simp: block_level_def entry_span_def)
  then show thesis using k lv by (intro that [OF m'(1) p o']) (use m'(2) f in \<open>auto simp: low_kernel\<close>)
qed

lemma kernel_tables_spec:
  assumes "buddy_pool a m P" and "page_size a = FourKiB" and "one_level1 r l m"
    and "(table_bytes FourKiB r \<union> table_bytes FourKiB l) \<inter> P = {}"
    and ms: "0 < ms" "ms mod 2 ^ 30 = 0" "0 < ml" "ms + div_ceil ml (2 ^ 30) * 2 ^ 30 \<le> 2 ^ 39"
  obtains m' where "kernel_tables r ms ml a m = Some (kernel_pt r, a, m')" "buddy_pool a m' P" "one_level1 r l m'"
    "\<forall>x. x \<notin> table_bytes FourKiB l \<longrightarrow> m' x = m x"
    "\<forall>z < ms + div_ceil ml (2 ^ 30) * 2 ^ 30. physical_address_of (kernel_pt r) m' (0xffff000000000000 + z) = Some (Some z)"
proof -
  let ?n = "div_ceil ml (2 ^ 30)" and ?k = "ms div 2 ^ 30"
  have "table_ok FourKiB r" using assms(3) by (simp add: one_level1_def)
  then have r: "0xffff000000000000 \<le> r" "r \<le> usize_max" "r mod 4096 = 0" by (auto simp: table_ok_def usize_max_def)
  have fe: "from_existing FourKiB (phys_from_ptr r) True = Some (kernel_pt r)"
    using r ptr_phys_roundtrip [OF r(1,2)] by (simp add: from_existing_def kernel_pt_def is_aligned_to_def Let_def)
  have n: "0 < ?n" using ms(3) by (auto simp: div_ceil_def)
  have k: "?k * 2 ^ 30 = ms" "0 < ?k" "0 + ?k * 2 ^ 30 \<le> 2 ^ 39" using ms(1,2,4) by (auto simp: mod_eq_0_iff_dvd)
  have v: "virt_from_phys ms = 0xffff000000000000 + ms" using ms(4) by (simp add: virt_from_phys_ptr ptr_from_phys_add)
  obtain m1 where m1: "pt_map buddy_allocate (kernel_pt r) (virt_from_phys ms) ms ?n LargeBlock
      (properties_default\<lparr>writable := True, executable := True\<rparr>) a m = Some (Inr (), a, m1)" "buddy_pool a m1 P" "one_level1 r l m1"
    "\<forall>x. x \<notin> table_bytes FourKiB l \<longrightarrow> m1 x = m x"
    "\<forall>z < 2 ^ 48. physical_address_of (kernel_pt r) m1 (0xffff000000000000 + z) =
       (if ms \<le> z \<and> z < ms + ?n * 2 ^ 30 then Some (Some z) else physical_address_of (kernel_pt r) m (0xffff000000000000 + z))"
    by (rule map_kernel_blocks [OF assms(1-4) n ms(4,2) v])
  have z: "0 mod 2 ^ 30 = (0 :: nat)" "(0xffff000000000000 :: nat) = 0xffff000000000000 + 0" by simp_all
  obtain m2 where m2: "pt_map buddy_allocate (kernel_pt r) 0xffff000000000000 0 ?k LargeBlock
      (properties_default\<lparr>writable := True, kind := Device\<rparr>) a m1 = Some (Inr (), a, m2)" "buddy_pool a m2 P" "one_level1 r l m2"
    "\<forall>x. x \<notin> table_bytes FourKiB l \<longrightarrow> m2 x = m1 x"
    "\<forall>z < 2 ^ 48. physical_address_of (kernel_pt r) m2 (0xffff000000000000 + z) =
       (if 0 \<le> z \<and> z < 0 + ?k * 2 ^ 30 then Some (Some z) else physical_address_of (kernel_pt r) m1 (0xffff000000000000 + z))"
    by (rule map_kernel_blocks [OF m1(2) assms(2) m1(3) assms(4) k(2,3) z])
  have "length_in_bytes LargeBlock FourKiB = Some (2 ^ 30)" by (simp add: length_in_bytes_def length_in_pages_def)
  then have "kernel_tables r ms ml a m = Some (kernel_pt r, a, m2)"
    using m1(1) m2(1) by (simp add: kernel_tables_def assms(2) fe largest_supported_block_size_def mapped_def Let_def)
  moreover have "physical_address_of (kernel_pt r) m2 (0xffff000000000000 + z) = Some (Some z)" if "z < ms + ?n * 2 ^ 30" for z
  proof -
    have "z < 2 ^ 39" using that ms(4) by linarith
    then have "z < 2 ^ 48" by simp
    then show ?thesis using m1(5) m2(5) that k(1) by simp
  qed
  ultimately show thesis using that m1(4) m2(2-4) by simp
qed

section \<open>The regions\<close>

lemma offset_from_diff:
  assumes "s \<le> e" and "e \<le> usize_max"
  shows "offset_from e s = e - s"
proof -
  have "word_of_nat e - word_of_nat s = (word_of_nat (e - s) :: u64)" using assms(1) by (simp add: of_nat_diff)
  moreover have "e - s \<le> usize_max" using assms(2) by linarith
  ultimately show ?thesis by (simp add: offset_from_def)
qed

text \<open>Memory with the kernel image and, behind it, the device tree: three regions are left.\<close>

lemma boot_regions:
  assumes "rs < ks" and "ks < ke" and "ke < ds" and "0 < dl" and "ds + dl < rs + ml" and "rs + ml \<le> usize_max"
  obtains st where "next_range (subtract_ranges (rs, ml) [(ks, ke - ks), (ds, dl)]) = (Some (rs, ks - rs), st)"
    "collect_ranges st = [(ke, ds - ke), (ds + dl, rs + ml - (ds + dl))]"
proof -
  define S where "S pos rest sub = \<lparr> whole_start = rs, whole_end = rs + ml, current_pos = pos, ranges = rest, current_subrange = sub \<rparr>"
    for pos rest sub
  note simps = S_def load_subrange_def clip_subrange_def saturating_add_def Let_def
  have lim: "ke \<le> usize_max" "ds + dl \<le> usize_max" using assms by linarith+
  have s0: "subtract_ranges (rs, ml) [(ks, ke - ks), (ds, dl)] = S rs [(ks, ke - ks), (ds, dl)] None"
    using assms(6) by (simp add: subtract_ranges_def S_def saturating_add_def)
  have n0: "next_range (S rs [(ks, ke - ks), (ds, dl)] None) = (Some (rs, ks - rs), S ks [(ds, dl)] (Some (ks, ke)))"
    using assms lim by (subst next_range.simps) (simp add: simps)
  have n1: "next_range (S ke [(ds, dl)] None) = (Some (ke, ds - ke), S ds [] (Some (ds, ds + dl)))"
    using assms lim by (subst next_range.simps) (simp add: simps)
  have n1': "next_range (S ks [(ds, dl)] (Some (ks, ke))) = next_range (S ke [(ds, dl)] None)"
    using assms lim by (subst next_range.simps) (simp add: simps)
  have n2: "next_range (S (ds + dl) [] None) = (Some (ds + dl, rs + ml - (ds + dl)), S (rs + ml) [] None)"
    using assms lim by (subst next_range.simps) (simp add: simps)
  have n2': "next_range (S ds [] (Some (ds, ds + dl))) = next_range (S (ds + dl) [] None)"
    using assms lim by (subst next_range.simps) (simp add: simps)
  have n3: "next_range (S (rs + ml) [] None) = (None, S (rs + ml) [] None)" by (subst next_range.simps) (simp add: simps)
  have "collect_ranges (S ks [(ds, dl)] (Some (ks, ke))) = [(ke, ds - ke), (ds + dl, rs + ml - (ds + dl))]"
    by (simp add: collect_ranges.simps n1 n1' n2 n2' n3)
  then show thesis using that n0 s0 by simp
qed

text \<open>The device tree below the kernel image: the second reserved region is never subtracted.\<close>

lemma below_regions:
  assumes "rs < ks" and "ks < ke" and "ds + dl \<le> ks" and "ke < rs + ml" and "rs + ml \<le> usize_max" and "rs \<le> ds"
  obtains st where "next_range (subtract_ranges (rs, ml) [(ks, ke - ks), (ds, dl)]) = (Some (rs, ks - rs), st)"
    "collect_ranges st = [(ke, rs + ml - ke)]"
proof -
  define S where "S pos rest sub = \<lparr> whole_start = rs, whole_end = rs + ml, current_pos = pos, ranges = rest, current_subrange = sub \<rparr>"
    for pos rest sub
  note simps = S_def load_subrange_def clip_subrange_def saturating_add_def Let_def
  have lim: "ke \<le> usize_max" "ds + dl \<le> usize_max" using assms by linarith+
  have s0: "subtract_ranges (rs, ml) [(ks, ke - ks), (ds, dl)] = S rs [(ks, ke - ks), (ds, dl)] None"
    using assms(5) by (simp add: subtract_ranges_def S_def saturating_add_def)
  have n0: "next_range (S rs [(ks, ke - ks), (ds, dl)] None) = (Some (rs, ks - rs), S ks [(ds, dl)] (Some (ks, ke)))"
    using assms lim by (subst next_range.simps) (simp add: simps)
  have n1: "next_range (S ke [(ds, dl)] None) = (Some (ke, rs + ml - ke), S (rs + ml) [] None)"
    using assms lim by (subst next_range.simps) (simp add: simps)
  have n1': "next_range (S ks [(ds, dl)] (Some (ks, ke))) = next_range (S ke [(ds, dl)] None)"
    using assms lim by (subst next_range.simps) (simp add: simps)
  have n2: "next_range (S (rs + ml) [] None) = (None, S (rs + ml) [] None)" by (subst next_range.simps) (simp add: simps)
  have "collect_ranges (S ks [(ds, dl)] (Some (ks, ke))) = [(ke, rs + ml - ke)]"
    by (simp add: collect_ranges.simps n1 n1' n2)
  then show thesis using that n0 s0 by simp
qed

lemma buddy_new_pool:
  assumes "rs mod page_bytes ps = 0" and "ml mod page_bytes ps = 0" and "0xffff000000000000 \<le> rs" and "rs + ml \<le> usize_max" and "k \<le> 50"
  obtains a where "buddy_new k ps rs ml = Some a" "buddy_pool a m {}" "base_addr a = rs" "end_addr a = rs + ml" "page_size a = ps"
    "length (free_blocks a) = k"
proof -
  let ?a = "\<lparr> base_addr = rs, end_addr = rs + ml, page_size = ps, free_blocks = replicate k 0 \<rparr>"
  have "page_bytes ps \<noteq> 0" using page_bytes_pos [of ps] by linarith
  then have n: "buddy_new k ps rs ml = Some ?a"
    using assms by (simp add: buddy_new_def is_aligned_to_def add_p_def)
  have "blocks (replicate k []) = {}" by (auto simp: blocks_def)
  then have "buddy_inv ?a m (replicate k [])" "free_bytes ps (replicate k []) = {}"
    using assms by (simp_all add: buddy_inv_def arena_ok_def lists_ok_def blocks_ok_def free_bytes_def)
  then have "buddy_pool ?a m {}" unfolding buddy_pool_def by (intro exI [of _ "replicate k []"]) simp
  then show thesis using that n by simp
qed

section \<open>Memory after boot\<close>

text \<open>What \<^verbatim>\<open>exactly_one\<close> promises: the item of an iterator that yields exactly one.\<close>

definition picks_one :: "('a list \<Rightarrow> 'a option) \<Rightarrow> bool" where
  "picks_one f \<longleftrightarrow> (\<forall>xs. f xs = (case xs of [x] \<Rightarrow> Some x | _ \<Rightarrow> None))"

definition describes_memory :: "ByteOrder \<Rightarrow> DeviceTree \<Rightarrow> nat \<Rightarrow> nat \<Rightarrow> bool" where
  "describes_memory bo dt ms ml \<longleftrightarrow> (\<exists>nodes n r. iter_nodes_named bo dt ''/'' ''memory'' = Some (Some nodes) \<and>
     nodes_from bo dt nodes = Some [n] \<and> find_in_properties bo dt (properties n) ''reg'' = Some (Some (Reg r)) \<and>
     registers_from bo r 0 = Some [(ms, ml)])"

lemma memory_range_described:
  "picks_one one_node \<Longrightarrow> picks_one one_range \<Longrightarrow> describes_memory bo dt ms ml \<Longrightarrow>
     memory_range one_node one_range bo dt = Some (ms, ml)"
  by (auto simp: memory_range_def describes_memory_def picks_one_def into_reg_def)

text \<open>What a tree says of the memory: its only node \<^verbatim>\<open>/memory@..\<close> has one region.\<close>

definition describes_ram :: "node \<Rightarrow> nat \<Rightarrow> nat \<Rightarrow> bool" where
  "describes_ram tr ms ml \<longleftrightarrow> label tr = [] \<and> (\<exists>n. filter (named ''memory'') (children tr) = [n] \<and>
     prop_of n ''reg'' = Some (enc_region (cells_below tr (None, None)) (ms, ml)) \<and>
     region_fits (cells_below tr (None, None)) (ms, ml))"

lemma ram_found:
  assumes "holds_tree dt tr" and "describes_ram tr ms ml"
  shows "describes_memory BigEndian dt ms ml"
proof -
  obtain ac sc where cs: "cells_below tr (None, None) = (ac, sc)" by (cases "cells_below tr (None, None)") auto
  obtain n where l: "label tr = []" and n: "filter (named ''memory'') (children tr) = [n]" "prop_of n ''reg'' = Some (enc_region (ac, sc) (ms, ml))"
    "region_fits (ac, sc) (ms, ml)"
    using assms(2) unfolding describes_ram_def cs by blast
  obtain it i where i: "iter_nodes_named BigEndian dt ''/'' ''memory'' = Some (Some it)" "nodes_from BigEndian dt it = Some [i]"
    "properties_from BigEndian dt (properties i) = Some (values_of (n, Some ac, Some sc))"
    by (rule first_child_found [OF assms(1) l cs n(1)]) auto
  have "find_in_properties BigEndian dt (properties i) ''reg'' =
      Some (Some (Reg \<lparr> reg_data = enc_region (ac, sc) (ms, ml), address_cells = ac, size_cells = sc \<rparr>))"
    using n(2) by (simp add: find_in_properties_list [OF i(3)] values_lookup prop_value_reg unwrap_or_def)
  moreover have "registers_from BigEndian \<lparr> reg_data = enc_region (ac, sc) (ms, ml), address_cells = ac, size_cells = sc \<rparr> 0 = Some [(ms, ml)]"
    using registers_from_enc [of ac sc "[(ms, ml)]"] n(3) by (simp add: region_fits_def enc_region_def)
  ultimately show ?thesis unfolding describes_memory_def using i(1,2) by blast
qed

text \<open>The layout of memory: the range starts at a multiple of 1 GiB and ends on a page boundary; it holds, in this
  order and with at least a page of memory before and two pages after each, the kernel image and the device tree, which start
  on page boundaries.\<close>

definition boot_layout :: "nat \<Rightarrow> nat \<Rightarrow> Markers \<Rightarrow> ptr \<times> usize \<Rightarrow> bool" where
  "boot_layout ms ml mk d \<longleftrightarrow> 0 < ms \<and> ms mod 2 ^ 30 = 0 \<and> ml mod 4096 = 0 \<and> ms + div_ceil ml (2 ^ 30) * 2 ^ 30 \<le> 2 ^ 39 \<and>
     kernel_start mk mod 4096 = 0 \<and> fst d mod 4096 = 0 \<and> ptr_from_phys ms + 4096 \<le> kernel_start mk \<and>
     kernel_start mk < kernel_end mk \<and> kernel_end mk + 2 * 4096 \<le> fst d \<and> 0 < snd d \<and>
     fst d + snd d + 2 * 4096 \<le> ptr_from_phys ms + ml"

definition page_up :: "ptr \<Rightarrow> ptr" where
  "page_up p = p + align_offset p 4096"

definition free_ram :: "nat \<Rightarrow> nat \<Rightarrow> Markers \<Rightarrow> ptr \<times> usize \<Rightarrow> usize set" where
  "free_ram ms ml mk d = {ptr_from_phys ms ..< kernel_start mk} \<union> {page_up (kernel_end mk) ..< fst d} \<union>
     {page_up (fst d + snd d) ..< ptr_from_phys ms + ml}"

text \<open>How many blocks of \<open>2 ^ k\<close> pages the three parts of it have room for.\<close>

definition free_units :: "usize \<Rightarrow> nat \<Rightarrow> nat \<Rightarrow> Markers \<Rightarrow> ptr \<times> usize \<Rightarrow> nat" where
  "free_units k ms ml mk d = (kernel_start mk - ptr_from_phys ms) div (2 ^ k * 4096) + (fst d - kernel_end mk) div (2 ^ k * 4096) +
     (ptr_from_phys ms + ml - (fst d + snd d)) div (2 ^ k * 4096)"

lemma memory_bounds:
  assumes "0 < ms" and "ms mod 2 ^ 30 = 0" and "ml mod 4096 = 0" and "0 < ml" and "ms + div_ceil ml (2 ^ 30) * 2 ^ 30 \<le> 2 ^ 39"
  shows "ptr_from_phys ms = 0xffff000000000000 + ms" and "ptr_from_phys ms + ml \<le> usize_max" and "ptr_from_phys ms mod 4096 = 0"
    and "ms < 2 ^ 39" and "(ptr_from_phys ms + ml) mod 4096 = 0"
proof -
  have c: "ml \<le> div_ceil ml (2 ^ 30) * 2 ^ 30"
    using div_mult_mod_eq [of ml "2 ^ 30"] mod_less_divisor [of "2 ^ 30" ml] by (auto simp: div_ceil_def simp del: div_mult_mod_eq)
  then show m: "ms < 2 ^ 39" using assms(4,5) by linarith
  then show p: "ptr_from_phys ms = 0xffff000000000000 + ms" by (simp add: ptr_from_phys_add)
  show "ptr_from_phys ms + ml \<le> usize_max" using c assms(5) unfolding p usize_max_def by simp
  have "ms mod 4096 = ms mod 2 ^ 30 mod 4096" by (simp add: mod_mod_cancel)
  then have "ms mod 4096 = 0" using assms(2) by simp
  then show "ptr_from_phys ms mod 4096 = 0" "(ptr_from_phys ms + ml) mod 4096 = 0"
    using assms(3) unfolding p by (simp_all add: mod_add_eq [symmetric])
qed

lemma page_up_bounds: "p \<le> page_up p" "page_up p < p + 4096"
  using align_offset_less [of 4096 p] by (simp_all add: page_up_def)

text \<open>One region of the layout.\<close>

lemma add_boot_region:
  assumes "buddy_stock k u a m P" and "page_size a = FourKiB" and "length (free_blocks a) = MAX_ORDER" and "k < MAX_ORDER" and "base_addr a \<le> s"
    and "e \<le> end_addr a" and "e mod 4096 = 0" and "page_up s + 4096 \<le> e" and "{s ..< e} \<inter> P = {}"
  obtains a' m' where "add_memory_region a m s (e - s) = Some (True, a', m')" "same_arena a a'"
    "buddy_stock k (u + (e - s) div (2 ^ k * 4096)) a' m' (P \<union> {page_up s ..< e})" "\<forall>x. x \<notin> {page_up s ..< e} \<longrightarrow> m' x = m x"
proof -
  have se: "s + (e - s) = e" using assms(8) page_up_bounds(1) [of s] by linarith
  have h: "FourKiB = page_size a" "k < length (free_blocks a)" "s + (e - s) \<le> end_addr a"
    "page_bytes FourKiB + align_offset s (page_bytes FourKiB) \<le> e - s" "(s + (e - s)) mod page_bytes FourKiB = 0" "{s ..< s + (e - s)} \<inter> P = {}"
    using assms(2-4,6-9) se by (auto simp: page_up_def)
  have "s + align_offset s (page_bytes FourKiB) = page_up s" by (simp add: page_up_def)
  then show thesis
    using that by (metis add_gap_stock [OF assms(1) h(1,2) assms(5) h(3) refl h(4-6)] se page_bytes.simps(1))
qed

text \<open>A region of the range from \<open>lo\<close> to \<open>hi\<close> that ends on a page boundary and has a whole page; the whole
  pages of a list of regions.\<close>

definition region_ok :: "ptr \<Rightarrow> ptr \<Rightarrow> ptr \<times> usize \<Rightarrow> bool" where
  "region_ok lo hi r \<longleftrightarrow> lo \<le> fst r \<and> fst r + snd r \<le> hi \<and> (fst r + snd r) mod 4096 = 0 \<and> page_up (fst r) + 4096 \<le> fst r + snd r"

definition region :: "ptr \<times> usize \<Rightarrow> usize set" where
  "region r = {fst r ..< fst r + snd r}"

definition whole_pages :: "(ptr \<times> usize) list \<Rightarrow> usize set" where
  "whole_pages rs = (\<Union>r \<in> set rs. {page_up (fst r) ..< fst r + snd r})"

lemma whole_pages_Cons [simp]: "whole_pages (r # rs) = {page_up (fst r) ..< fst r + snd r} \<union> whole_pages rs"
  by (simp add: whole_pages_def)

text \<open>How many blocks of order \<open>k\<close> the regions have room for.\<close>

definition region_units :: "usize \<Rightarrow> (ptr \<times> usize) list \<Rightarrow> nat" where
  "region_units k rs = (\<Sum>r \<leftarrow> rs. snd r div (2 ^ k * 4096))"

lemma add_regions_spec:
  assumes "buddy_stock k u a m P" and "page_size a = FourKiB" and "length (free_blocks a) = MAX_ORDER" and "k < MAX_ORDER"
    and "\<forall>r \<in> set rs. region_ok (base_addr a) (end_addr a) r \<and> region r \<inter> P = {}" and "sorted_wrt (\<lambda>r r'. region r \<inter> region r' = {}) rs"
  shows "\<exists>a' m'. add_regions rs a m = Some (a', m') \<and> same_arena a a' \<and> buddy_stock k (u + region_units k rs) a' m' (P \<union> whole_pages rs) \<and>
    (\<forall>x. x \<notin> whole_pages rs \<longrightarrow> m' x = m x)"
  using assms
proof (induction rs arbitrary: u a m P)
  case Nil
  then show ?case by (simp add: whole_pages_def region_units_def)
next
  case (Cons r rs)
  obtain s n where r: "r = (s, n)" by fastforce
  have ok: "base_addr a \<le> s" "s + n \<le> end_addr a" "(s + n) mod 4096 = 0" "page_up s + 4096 \<le> s + n" "{s ..< s + n} \<inter> P = {}"
    using Cons.prems(5) by (simp_all add: r region_ok_def region_def)
  obtain a1 m1 where a1: "add_memory_region a m s (s + n - s) = Some (True, a1, m1)" "same_arena a a1"
    "buddy_stock k (u + (s + n - s) div (2 ^ k * 4096)) a1 m1 (P \<union> {page_up s ..< s + n})" "\<forall>x. x \<notin> {page_up s ..< s + n} \<longrightarrow> m1 x = m x"
    by (rule add_boot_region [OF Cons.prems(1-4) ok])
  have "page_size a1 = FourKiB" "length (free_blocks a1) = MAX_ORDER" "base_addr a1 = base_addr a" "end_addr a1 = end_addr a"
    using a1(2) Cons.prems(2,3) by (simp_all add: same_arena_def)
  moreover have "region r' \<inter> (P \<union> {page_up s ..< s + n}) = {}" if "r' \<in> set rs" for r'
  proof -
    have "{page_up s ..< s + n} \<subseteq> region r" using page_up_bounds(1) [of s] by (auto simp: r region_def)
    then show ?thesis using that Cons.prems(5,6) by auto
  qed
  ultimately obtain a' m' where "add_regions rs a1 m1 = Some (a', m')" "same_arena a1 a'"
    "buddy_stock k (u + n div (2 ^ k * 4096) + region_units k rs) a' m' (P \<union> {page_up s ..< s + n} \<union> whole_pages rs)"
    "\<forall>x. x \<notin> whole_pages rs \<longrightarrow> m' x = m1 x"
    using Cons.IH [OF a1(3)] Cons.prems(4-6) by auto
  then show ?case using a1(1,4) same_arena_trans [OF a1(2)]
    by (intro exI [of _ a'] exI [of _ m']) (simp add: r Un_assoc region_units_def add.assoc)
qed

text \<open>Memory setup for any list of regions that the iterator yields.\<close>

lemma memory_init_spec:
  assumes "picks_one one_node" and "picks_one one_range" and "describes_memory bo dt ms ml" and "memory_region bo dt = Some d"
    and ms: "0 < ms" "ms mod 2 ^ 30 = 0" "ml mod 4096 = 0" "0 < ml" "ms + div_ceil ml (2 ^ 30) * 2 ^ 30 \<le> 2 ^ 39"
    and it: "next_range (subtract_ranges (ptr_from_phys ms, ml) [image_memory_region mk, d]) = (Some r1, it)" "collect_ranges it = rs"
    and ok: "\<forall>x \<in> set (r1 # rs). region_ok (ptr_from_phys ms) (ptr_from_phys ms + ml) x" "sorted_wrt (\<lambda>r r'. region r \<inter> region r' = {}) (r1 # rs)"
    and st: "PAGE_ALLOCATOR st = None" "KERNEL_PAGE_TABLES st = None"
    and o: "one_level1 r l (ram st)" and T: "(table_bytes FourKiB r \<union> table_bytes FourKiB l) \<inter> whole_pages (r1 # rs) = {}"
    and k: "k < MAX_ORDER"
  obtains a m' where "memory_init one_node one_range bo mk r dt st = Some (st\<lparr>PAGE_ALLOCATOR := Some a, KERNEL_PAGE_TABLES := Some (kernel_pt r),
      MAIR_EL1 := MAIR_VALUE, ram := m', ALLOCATOR := heap_init (ALLOCATOR st)\<rparr>)"
    "buddy_stock k (region_units k (r1 # rs)) a m' (whole_pages (r1 # rs))" "page_size a = FourKiB"
    "one_level1 r l m'" "\<forall>x. x \<notin> table_bytes FourKiB l \<union> whole_pages (r1 # rs) \<longrightarrow> m' x = ram st x"
    "\<forall>z < ms + div_ceil ml (2 ^ 30) * 2 ^ 30. physical_address_of (kernel_pt r) m' (0xffff000000000000 + z) = Some (Some z)"
proof -
  let ?rs = "ptr_from_phys ms" and ?T = "table_bytes FourKiB r \<union> table_bytes FourKiB l" and ?F = "{page_up (fst r1) ..< fst r1 + snd r1}"
  note f = memory_bounds [OF ms]
  obtain a0 where a0: "buddy_new MAX_ORDER FourKiB ?rs ml = Some a0" "buddy_pool a0 (ram st) {}" "base_addr a0 = ?rs" "end_addr a0 = ?rs + ml"
    "page_size a0 = FourKiB" "length (free_blocks a0) = MAX_ORDER"
    by (rule buddy_new_pool [of ?rs FourKiB ml MAX_ORDER]) (use f ms(3) in \<open>simp_all add: MAX_ORDER_def\<close>)
  obtain a1 m1 where r1: "add_regions [r1] a0 (ram st) = Some (a1, m1)" "same_arena a0 a1" "buddy_stock k (region_units k [r1]) a1 m1 ?F"
    "\<forall>x. x \<notin> ?F \<longrightarrow> m1 x = ram st x"
    using add_regions_spec [OF buddy_stock_0 [OF a0(2)] a0(5,6) k, of "[r1]"] ok(1) a0(3,4) by (auto simp: whole_pages_def)
  then have add: "add_memory_region a0 (ram st) (fst r1) (snd r1) = Some (True, a1, m1)" by (cases r1) (auto split: bind_splits if_splits)
  have ar: "base_addr a1 = ?rs" "end_addr a1 = ?rs + ml" "page_size a1 = FourKiB" "length (free_blocks a1) = MAX_ORDER"
    using r1(2) a0(3-6) by (simp_all add: same_arena_def)
  have dj: "?T \<inter> ?F = {}" using T by auto
  have same1: "\<forall>x \<in> ?T. m1 x = ram st x" using dj r1(4) by (meson disjoint_iff)
  note o1 = one_level1_frame [OF o same1]
  obtain m2 where m2: "kernel_tables r ms ml a1 m1 = Some (kernel_pt r, a1, m2)" "buddy_pool a1 m2 ?F" "one_level1 r l m2"
    "\<forall>x. x \<notin> table_bytes FourKiB l \<longrightarrow> m2 x = m1 x"
    "\<forall>z < ms + div_ceil ml (2 ^ 30) * 2 ^ 30. physical_address_of (kernel_pt r) m2 (0xffff000000000000 + z) = Some (Some z)"
    by (rule kernel_tables_spec [OF buddy_stock_pool [OF r1(3)] ar(3) o1 dj ms(1,2,4,5)])
  have st2: "buddy_stock k (region_units k [r1]) a1 m2 ?F"
    by (rule buddy_stock_local [OF r1(3)]) (use m2(4) dj in blast)
  have "?F \<subseteq> region r1" using page_up_bounds(1) [of "fst r1"] by (auto simp: region_def)
  then have rok: "\<forall>x \<in> set rs. region_ok (base_addr a1) (end_addr a1) x \<and> region x \<inter> ?F = {}" using ok ar(1,2) by auto
  have "sorted_wrt (\<lambda>r r'. region r \<inter> region r' = {}) rs" using ok(2) by simp
  then obtain a2 m3 where r2: "add_regions rs a1 m2 = Some (a2, m3)" "same_arena a1 a2"
    "buddy_stock k (region_units k [r1] + region_units k rs) a2 m3 (?F \<union> whole_pages rs)" "\<forall>x. x \<notin> whole_pages rs \<longrightarrow> m3 x = m2 x"
    using add_regions_spec [OF st2 ar(3,4) k rok] by blast
  have same: "\<forall>x \<in> ?T. m3 x = m2 x" using r2(4) T by auto
  show thesis
  proof (rule that)
    show "memory_init one_node one_range bo mk r dt st = Some (st\<lparr>PAGE_ALLOCATOR := Some a2, KERNEL_PAGE_TABLES := Some (kernel_pt r),
      MAIR_EL1 := MAIR_VALUE, ram := m3, ALLOCATOR := heap_init (ALLOCATOR st)\<rparr>)"
      using memory_range_described [OF assms(1-3)] assms(4) st f(4) a0(1) it add m2(1) r2(1)
      by (simp add: memory_init_def phys_from_usize_def)
    show "buddy_stock k (region_units k (r1 # rs)) a2 m3 (whole_pages (r1 # rs))" using r2(3) by (simp add: region_units_def)
    show "page_size a2 = FourKiB" using r2(2) ar by (simp add: same_arena_def)
    show "one_level1 r l m3" by (rule one_level1_frame [OF m2(3) same])
    show "\<forall>x. x \<notin> table_bytes FourKiB l \<union> whole_pages (r1 # rs) \<longrightarrow> m3 x = ram st x"
      using r1(4) m2(4) r2(4) by simp
    have "translate FourKiB m3 p 0 r = translate FourKiB m2 p 0 r" for p
      using same one_level1_tables(5) [OF m2(3)] by (intro translate_frame) (simp_all add: tables_foot_def)
    then have "physical_address_of (kernel_pt r) m3 p = physical_address_of (kernel_pt r) m2 p" for p by (simp add: physical_address_of_def)
    then show "\<forall>z < ms + div_ceil ml (2 ^ 30) * 2 ^ 30. physical_address_of (kernel_pt r) m3 (0xffff000000000000 + z) = Some (Some z)"
      using m2(5) by simp
  qed
qed

lemma boot_layout_regions:
  assumes L: "boot_layout ms ml mk d" and T: "T \<subseteq> {kernel_start mk ..< kernel_end mk}"
  obtains it r1 rs where "next_range (subtract_ranges (ptr_from_phys ms, ml) [image_memory_region mk, d]) = (Some r1, it)" "collect_ranges it = rs"
    "\<forall>x \<in> set (r1 # rs). region_ok (ptr_from_phys ms) (ptr_from_phys ms + ml) x" "sorted_wrt (\<lambda>r r'. region r \<inter> region r' = {}) (r1 # rs)"
    "whole_pages (r1 # rs) = free_ram ms ml mk d" "T \<inter> whole_pages (r1 # rs) = {}"
    "\<forall>k. region_units k (r1 # rs) = free_units k ms ml mk d"
proof -
  obtain ds dl where d: "d = (ds, dl)" by fastforce
  let ?rs = "ptr_from_phys ms" and ?ks = "kernel_start mk" and ?ke = "kernel_end mk"
  have lay: "0 < ms" "ms mod 2 ^ 30 = 0" "ml mod 4096 = 0" "ms + div_ceil ml (2 ^ 30) * 2 ^ 30 \<le> 2 ^ 39" "?ks mod 4096 = 0" "ds mod 4096 = 0"
    "?rs + 4096 \<le> ?ks" "?ks < ?ke" "?ke + 2 * 4096 \<le> ds" "0 < dl" "ds + dl + 2 * 4096 \<le> ?rs + ml"
    using L by (simp_all add: boot_layout_def d)
  then have "0 < ml" by linarith
  note f = memory_bounds [OF lay(1-3) this lay(4)]
  have up: "page_up ?rs = ?rs" using f(3) by (simp add: page_up_def align_offset_def)
  note pu = page_up_bounds [of ?ke] page_up_bounds [of "ds + dl"]
  have reg: "image_memory_region mk = (?ks, ?ke - ?ks)"
    using lay f(2) by (simp add: image_memory_region_def) (intro offset_from_diff, linarith+)
  obtain it where it: "next_range (subtract_ranges (?rs, ml) [(?ks, ?ke - ?ks), (ds, dl)]) = (Some (?rs, ?ks - ?rs), it)"
    "collect_ranges it = [(?ke, ds - ?ke), (ds + dl, ?rs + ml - (ds + dl))]"
    by (rule boot_regions [of ?rs ?ks ?ke ds dl ml]) (use lay f(2) in linarith)+
  let ?R = "[(?rs, ?ks - ?rs), (?ke, ds - ?ke), (ds + dl, ?rs + ml - (ds + dl))]"
  have "\<forall>x \<in> set ?R. region_ok ?rs (?rs + ml) x" using lay pu f(5) up by (simp add: region_ok_def)
  moreover have "sorted_wrt (\<lambda>r r'. region r \<inter> region r' = {}) ?R" using lay by (auto simp: region_def)
  moreover have w: "whole_pages ?R = free_ram ms ml mk d" using lay up by (simp add: whole_pages_def free_ram_def d Un_assoc)
  moreover have "{?ks ..< ?ke} \<inter> whole_pages ?R = {}"
  proof -
    have "?ke \<le> page_up ?ke" "?ke \<le> page_up (ds + dl)" "?rs + (?ks - ?rs) = ?ks" using pu lay by linarith+
    then show ?thesis by (auto simp: whole_pages_def)
  qed
  then have "T \<inter> whole_pages ?R = {}" using T by (meson disjoint_iff subset_iff)
  moreover have "\<forall>k. region_units k ?R = free_units k ms ml mk d" by (simp add: region_units_def free_units_def d)
  ultimately show thesis using that it unfolding reg d by blast
qed

lemma memory_init_boots:
  assumes "picks_one one_node" and "picks_one one_range" and "describes_memory bo dt ms ml" and "memory_region bo dt = Some d"
    and "boot_layout ms ml mk d" and "PAGE_ALLOCATOR st = None" and "KERNEL_PAGE_TABLES st = None" and "ALLOCATOR st = heap_new_uninit"
    and "one_level1 r l (ram st)" and "table_bytes FourKiB r \<union> table_bytes FourKiB l \<subseteq> {kernel_start mk ..< kernel_end mk}" and "k < MAX_ORDER"
  shows "\<exists>st' a. memory_init one_node one_range bo mk r dt st = Some st' \<and>
    PAGE_ALLOCATOR st' = Some a \<and> buddy_stock k (free_units k ms ml mk d) a (ram st') (free_ram ms ml mk d) \<and> page_size a = FourKiB \<and>
    KERNEL_PAGE_TABLES st' = Some (kernel_pt r) \<and> tables_ok (kernel_pt r) (ram st') \<and>
    tables_foot (kernel_pt r) (ram st') \<inter> free_ram ms ml mk d = {} \<and>
    (\<forall>z < ms + div_ceil ml (2 ^ 30) * 2 ^ 30. physical_address_of (kernel_pt r) (ram st') (0xffff000000000000 + z) = Some (Some z)) \<and>
    heap_inv (ALLOCATOR st') (ram st') [] \<and> page_allocator (ALLOCATOR st') \<and> MAIR_EL1 st' = MAIR_VALUE \<and>
    (\<forall>x. x \<notin> table_bytes FourKiB l \<union> free_ram ms ml mk d \<longrightarrow> ram st' x = ram st x)"
proof -
  obtain it r1 rs where it: "next_range (subtract_ranges (ptr_from_phys ms, ml) [image_memory_region mk, d]) = (Some r1, it)" "collect_ranges it = rs"
    "\<forall>x \<in> set (r1 # rs). region_ok (ptr_from_phys ms) (ptr_from_phys ms + ml) x" "sorted_wrt (\<lambda>r r'. region r \<inter> region r' = {}) (r1 # rs)"
    "whole_pages (r1 # rs) = free_ram ms ml mk d" "(table_bytes FourKiB r \<union> table_bytes FourKiB l) \<inter> whole_pages (r1 # rs) = {}"
    "\<forall>k. region_units k (r1 # rs) = free_units k ms ml mk d"
    by (rule boot_layout_regions [OF assms(5,10)])
  have L: "0 < ms" "ms mod 2 ^ 30 = 0" "ml mod 4096 = 0" "0 < ml" "ms + div_ceil ml (2 ^ 30) * 2 ^ 30 \<le> 2 ^ 39"
    using assms(5) by (auto simp: boot_layout_def)
  obtain a m' where i: "memory_init one_node one_range bo mk r dt st = Some (st\<lparr>PAGE_ALLOCATOR := Some a, KERNEL_PAGE_TABLES := Some (kernel_pt r),
      MAIR_EL1 := MAIR_VALUE, ram := m', ALLOCATOR := heap_init (ALLOCATOR st)\<rparr>)"
    "buddy_stock k (free_units k ms ml mk d) a m' (free_ram ms ml mk d)" "page_size a = FourKiB"
    "one_level1 r l m'" "\<forall>x. x \<notin> table_bytes FourKiB l \<union> free_ram ms ml mk d \<longrightarrow> m' x = ram st x"
    "\<forall>z < ms + div_ceil ml (2 ^ 30) * 2 ^ 30. physical_address_of (kernel_pt r) m' (0xffff000000000000 + z) = Some (Some z)"
    by (rule memory_init_spec [OF assms(1-4) L it(1-4) assms(6,7,9) it(6) assms(11), unfolded it(5) it(7) [THEN spec]])
  have "heap_inv (heap_init heap_new_uninit) m' []" by (simp add: heap_inv_def heap_init_def heap_new_uninit_def)
  moreover note t = one_level1_tables(4,5) [OF i(4)]
  moreover have "tables_foot (kernel_pt r) m' \<inter> free_ram ms ml mk d = {}" unfolding t(2) using it(6) unfolding it(5) .
  ultimately show ?thesis using i assms(8) by (intro exI [of _ "st\<lparr>PAGE_ALLOCATOR := Some a, KERNEL_PAGE_TABLES := Some (kernel_pt r),
      MAIR_EL1 := MAIR_VALUE, ram := m', ALLOCATOR := heap_init (ALLOCATOR st)\<rparr>"] exI [of _ a]) (simp add: heap_init_def)
qed

text \<open>C2: memory setup, for a device tree whose only node \<^verbatim>\<open>/memory@..\<close> gives one range of memory, with the translation tables of the boot
  code inside the image and the memory laid out as \<open>boot_layout\<close> says: the range starts at a multiple of 1 GiB and ends on a page boundary,
  below 512 GiB; the image lies below the device tree; both start on page boundaries, with at least one page of memory before the image and two
  pages after the image and after the device tree.  Then \<^verbatim>\<open>memory::init\<close>
  does not panic.  The free memory of the page allocator is exactly the whole pages of the range outside of the image and the device tree;
  the kernel page tables are well-formed, share nothing with the free memory and map the upper half address of every physical address up to the
  end of the range, rounded up to 1 GiB, to it; the heap is empty and
  has its page allocator; and no memory changes but the level 1 table and the free pages.\<close>

theorem memory_init_correct:
  assumes "picks_one one_node" and "picks_one one_range" and "big_endian bo" and "holds_tree dt tr" and "describes_ram tr ms ml"
    and "memory_region bo dt = Some d"
    and "boot_layout ms ml mk d" and "PAGE_ALLOCATOR st = None" and "KERNEL_PAGE_TABLES st = None" and "ALLOCATOR st = heap_new_uninit"
    and "one_level1 r l (ram st)" and "table_bytes FourKiB r \<union> table_bytes FourKiB l \<subseteq> {kernel_start mk ..< kernel_end mk}"
  shows "\<exists>st' a. memory_init one_node one_range bo mk r dt st = Some st' \<and>
    PAGE_ALLOCATOR st' = Some a \<and> buddy_pool a (ram st') (free_ram ms ml mk d) \<and>
    KERNEL_PAGE_TABLES st' = Some (kernel_pt r) \<and> tables_ok (kernel_pt r) (ram st') \<and>
    tables_foot (kernel_pt r) (ram st') \<inter> free_ram ms ml mk d = {} \<and>
    (\<forall>z < ms + div_ceil ml (2 ^ 30) * 2 ^ 30. physical_address_of (kernel_pt r) (ram st') (0xffff000000000000 + z) = Some (Some z)) \<and>
    heap_inv (ALLOCATOR st') (ram st') [] \<and> page_allocator (ALLOCATOR st') \<and> MAIR_EL1 st' = MAIR_VALUE \<and>
    (\<forall>x. x \<notin> table_bytes FourKiB l \<union> free_ram ms ml mk d \<longrightarrow> ram st' x = ram st x)"
proof -
  have k: "0 < MAX_ORDER" by (simp add: MAX_ORDER_def)
  have "describes_memory bo dt ms ml" using ram_found [OF assms(4,5)] assms(3) by (simp add: big_endian_eq)
  from memory_init_boots [OF assms(1,2) this assms(6-12) k] show ?thesis using buddy_stock_pool by blast
qed

text \<open>C34: when the loader puts the device tree below the kernel image, memory setup gives the memory of the
  device tree to the page allocator, although the device tree is used afterwards.\<close>

theorem device_tree_below_image_freed:
  assumes "picks_one one_node" and "picks_one one_range" and "describes_memory bo dt ms ml" and "memory_region bo dt = Some (ds, dl)"
    and ms: "0 < ms" "ms mod 2 ^ 30 = 0" "ml mod 4096 = 0" "ms + div_ceil ml (2 ^ 30) * 2 ^ 30 \<le> 2 ^ 39"
    and lay: "ptr_from_phys ms \<le> ds" "ds + dl \<le> kernel_start mk" "kernel_start mk mod 4096 = 0" "ptr_from_phys ms + 4096 \<le> kernel_start mk"
      "kernel_start mk < kernel_end mk" "kernel_end mk + 2 * 4096 \<le> ptr_from_phys ms + ml"
    and "PAGE_ALLOCATOR st = None" and "KERNEL_PAGE_TABLES st = None"
    and "one_level1 r l (ram st)" and "table_bytes FourKiB r \<union> table_bytes FourKiB l \<subseteq> {kernel_start mk ..< kernel_end mk}"
  shows "\<exists>st' a P. memory_init one_node one_range bo mk r dt st = Some st' \<and> PAGE_ALLOCATOR st' = Some a \<and> buddy_pool a (ram st') P \<and>
    {ds ..< ds + dl} \<subseteq> P"
proof -
  let ?rs = "ptr_from_phys ms" and ?ks = "kernel_start mk" and ?ke = "kernel_end mk"
  have "0 < ml" using lay by linarith
  note ms = ms(1-3) this ms(4)
  note f = memory_bounds [OF ms]
  have up: "page_up ?rs = ?rs" using f(3) by (simp add: page_up_def align_offset_def)
  note pu = page_up_bounds [of ?ke]
  have reg: "image_memory_region mk = (?ks, ?ke - ?ks)"
    using lay f(2) by (simp add: image_memory_region_def) (intro offset_from_diff, linarith+)
  obtain it where it: "next_range (subtract_ranges (?rs, ml) [image_memory_region mk, (ds, dl)]) = (Some (?rs, ?ks - ?rs), it)"
    "collect_ranges it = [(?ke, ?rs + ml - ?ke)]"
    unfolding reg by (rule below_regions [of ?rs ?ks ?ke ds dl ml]) (use lay f(2) in linarith)+
  let ?R = "[(?rs, ?ks - ?rs), (?ke, ?rs + ml - ?ke)]"
  have ok: "\<forall>x \<in> set ?R. region_ok ?rs (?rs + ml) x" using lay pu f(5) up by (simp add: region_ok_def)
  have dj: "sorted_wrt (\<lambda>r r'. region r \<inter> region r' = {}) ?R" using lay by (auto simp: region_def)
  have "?ke \<le> page_up ?ke" "?rs + (?ks - ?rs) = ?ks" using pu lay by linarith+
  then have "{?ks ..< ?ke} \<inter> whole_pages ?R = {}" by (auto simp: whole_pages_def)
  then have T: "(table_bytes FourKiB r \<union> table_bytes FourKiB l) \<inter> whole_pages ?R = {}" using assms(18) by (meson disjoint_iff subset_iff)
  obtain a m' where "memory_init one_node one_range bo mk r dt st = Some (st\<lparr>PAGE_ALLOCATOR := Some a, KERNEL_PAGE_TABLES := Some (kernel_pt r),
      MAIR_EL1 := MAIR_VALUE, ram := m', ALLOCATOR := heap_init (ALLOCATOR st)\<rparr>)" "buddy_stock 0 (region_units 0 ?R) a m' (whole_pages ?R)"
    by (rule memory_init_spec [OF assms(1-4) ms it ok dj assms(15-17) T, of 0]) (simp add: MAX_ORDER_def)
  moreover from this(2) have "buddy_pool a m' (whole_pages ?R)" by (rule buddy_stock_pool)
  moreover have "{ds ..< ds + dl} \<subseteq> whole_pages ?R" using lay up by auto
  ultimately show ?thesis by fastforce
qed

text \<open>The machine of theory \<^verbatim>\<open>Virt_Tree\<close>, with the image at the address \<open>b\<close>, as \<^verbatim>\<open>start.S\<close> leaves it.\<close>

definition take_one :: "'a list \<Rightarrow> 'a option" where
  "take_one xs = (case xs of [x] \<Rightarrow> Some x | _ \<Rightarrow> None)"

definition image_markers :: "ptr \<Rightarrow> Markers" where
  "image_markers b = \<lparr> bss_start = b + 0x100000, bss_end = b + 0x200000, kernel_start = b, kernel_end = b + 0x600000 \<rparr>"

definition boot_memory :: "ptr \<Rightarrow> MemoryState" where
  "boot_memory b = \<lparr> PAGE_ALLOCATOR = None, ALLOCATOR = heap_new_uninit, KERNEL_PAGE_TABLES = None, MAIR_EL1 = 0,
     ram = snd (start (image_symbols b) \<lparr> x0 = 0x44000000, SP = 0, PC = 0, SCTLR_EL1 = 0, TTBR0_EL1 = 0, TTBR1_EL1 = 0,
       TCR_EL1 = 0, CPACR_EL1 = 0 \<rparr> (image_memory b)) \<rparr>"

lemma take_one_picks: "picks_one take_one"
  by (simp add: picks_one_def take_one_def)

lemma boot_memory_tables:
  assumes "0xffff000000000000 \<le> b" and "b + 0x600000 \<le> usize_max" and "b mod 4096 = 0"
  shows "one_level1 (b + 0x2000) (b + 0x3000) (ram (boot_memory b))"
    and "table_bytes FourKiB (b + 0x2000) \<union> table_bytes FourKiB (b + 0x3000) \<subseteq> {kernel_start (image_markers b) ..< kernel_end (image_markers b)}"
  using start_one_level1(1) [OF image_data [OF assms]]
  by (auto simp: boot_memory_def image_symbols_def image_markers_def table_bytes_def)

lemma virt_describes_ram: "describes_ram virt_tree 0x40000000 0x8000000"
proof -
  have "filter (named ''memory'') (children virt_tree) = [virt_memory]" by (simp add: virt_defs named_def split_node_name_def)
  then show ?thesis by (simp add: describes_ram_def virt_cells virt_regions region_fits_def virt_memory_def) (simp add: virt_tree_def)
qed

lemmas virt_describes_memory = ram_found [OF virt_blob_tree virt_describes_ram]

lemma virt_region: "memory_region BigEndian virt_blob = Some (0xffff000044000000, length virt_bytes)"
  using virt_fields(2) by (simp add: memory_region_def virt_blob_def)

lemma virt_bytes_length: "length virt_bytes < 2 ^ 22" "0 < length virt_bytes"
  using virt_lengths by (simp_all add: virt_bytes_def)

theorem memory_init_correct_witness:
  "\<exists>st' a. memory_init take_one take_one BigEndian (image_markers 0xffff000041000000) 0xffff000041002000 virt_blob
      (boot_memory 0xffff000041000000) = Some st' \<and> PAGE_ALLOCATOR st' = Some a \<and>
    buddy_pool a (ram st') (free_ram 0x40000000 0x8000000 (image_markers 0xffff000041000000) (0xffff000044000000, length virt_bytes)) \<and>
    physical_address_of (kernel_pt 0xffff000041002000) (ram st') 0xffff000042345678 = Some (Some 0x42345678)"
proof -
  let ?b = "0xffff000041000000 :: nat"
  let ?d = "(0xffff000044000000 :: nat, length virt_bytes)"
  have p: "ptr_from_phys 0x40000000 = 0xffff000040000000" by (simp add: ptr_from_phys_add)
  have l: "boot_layout 0x40000000 0x8000000 (image_markers ?b) ?d"
    using virt_bytes_length by (simp add: boot_layout_def p image_markers_def div_ceil_def)
  have t: "one_level1 (?b + 0x2000) (?b + 0x3000) (ram (boot_memory ?b))"
    "table_bytes FourKiB (?b + 0x2000) \<union> table_bytes FourKiB (?b + 0x3000) \<subseteq> {kernel_start (image_markers ?b) ..< kernel_end (image_markers ?b)}"
    by (rule boot_memory_tables; simp add: usize_max_def)+
  have st: "PAGE_ALLOCATOR (boot_memory ?b) = None" "KERNEL_PAGE_TABLES (boot_memory ?b) = None" "ALLOCATOR (boot_memory ?b) = heap_new_uninit"
    by (simp_all add: boot_memory_def)
  obtain st' a where i: "memory_init take_one take_one BigEndian (image_markers ?b) (?b + 0x2000) virt_blob (boot_memory ?b) = Some st'"
    "PAGE_ALLOCATOR st' = Some a" "buddy_pool a (ram st') (free_ram 0x40000000 0x8000000 (image_markers ?b) ?d)"
    "\<forall>z < 0x40000000 + div_ceil 0x8000000 (2 ^ 30) * 2 ^ 30.
       physical_address_of (kernel_pt (?b + 0x2000)) (ram st') (0xffff000000000000 + z) = Some (Some z)"
    using memory_init_correct [OF take_one_picks take_one_picks BigEndian_reads virt_blob_tree virt_describes_ram virt_region l st t] by blast
  have "(0x42345678 :: nat) < 0x40000000 + div_ceil 0x8000000 (2 ^ 30) * 2 ^ 30" by (simp add: div_ceil_def)
  then have "physical_address_of (kernel_pt (?b + 0x2000)) (ram st') (0xffff000000000000 + 0x42345678) = Some (Some 0x42345678)" using i(4) by blast
  then show ?thesis using i(1-3) by (intro exI [of _ st'] exI [of _ a]) simp
qed

theorem device_tree_below_image_freed_witness:
  "\<exists>st' a P. memory_init take_one take_one BigEndian (image_markers 0xffff000045000000) 0xffff000045002000 virt_blob
      (boot_memory 0xffff000045000000) = Some st' \<and> PAGE_ALLOCATOR st' = Some a \<and> buddy_pool a (ram st') P \<and>
    {0xffff000044000000 ..< 0xffff000044000000 + length virt_bytes} \<subseteq> P"
proof -
  let ?b = "0xffff000045000000 :: nat"
  have p: "ptr_from_phys 0x40000000 = 0xffff000040000000" by (simp add: ptr_from_phys_add)
  have t: "one_level1 (?b + 0x2000) (?b + 0x3000) (ram (boot_memory ?b))"
    "table_bytes FourKiB (?b + 0x2000) \<union> table_bytes FourKiB (?b + 0x3000) \<subseteq> {kernel_start (image_markers ?b) ..< kernel_end (image_markers ?b)}"
    by (rule boot_memory_tables; simp add: usize_max_def)+
  have "\<exists>st' a P. memory_init take_one take_one BigEndian (image_markers ?b) (?b + 0x2000) virt_blob (boot_memory ?b) = Some st' \<and>
      PAGE_ALLOCATOR st' = Some a \<and> buddy_pool a (ram st') P \<and> {0xffff000044000000 ..< 0xffff000044000000 + length virt_bytes} \<subseteq> P"
    by (rule device_tree_below_image_freed [OF take_one_picks take_one_picks virt_describes_memory virt_region _ _ _ _ _ _ _ _ _ _ _ _ t])
      (use virt_bytes_length in \<open>simp_all add: p image_markers_def div_ceil_def boot_memory_def\<close>)
  then show ?thesis by simp
qed

end
