(* ===== verification/Logger.thy ===== *)
theory Logger
  imports Fdt
begin

text \<open>
  The kernel logger (\<^verbatim>\<open>kernel_core/src/logger.rs\<close>): a ring of chunks that writers fill and that is
  flushed to a sink.  The sink is a parameter, the function \<open>accept\<close> on its state.  The
  operations are those of one core while no other writes; the writers of several cores meet in the
  ring only through the chunks that they have acquired.

  The theorems show that a record comes out of the sink as it was written, in order and
  complete, as long as the ring has room, and that the ring never recovers from an overflow.
\<close>

section \<open>Chunks\<close>

definition MAX_LOG_CHUNK_SIZE :: usize where
  "MAX_LOG_CHUNK_SIZE = 120"

definition STATUS_EMPTY :: u64 where "STATUS_EMPTY = 0"
definition STATUS_WRITING :: u64 where "STATUS_WRITING = 1"
definition STATUS_FULL :: u64 where "STATUS_FULL = 2"
definition STATUS_MASK :: u64 where "STATUS_MASK = 3"
definition SIZE_SHIFT :: nat where "SIZE_SHIFT = 2"
definition SIZE_MASK :: u64 where "SIZE_MASK = NOT STATUS_MASK"

record LogChunk =
  chunk_data :: bytes
  status_and_size :: u64

definition chunk_new :: LogChunk where
  "chunk_new = \<lparr> chunk_data = replicate MAX_LOG_CHUNK_SIZE nul, status_and_size = STATUS_EMPTY \<rparr>"

definition chunk_finish :: "usize \<Rightarrow> LogChunk \<Rightarrow> LogChunk" where
  "chunk_finish actual_size c = c\<lparr>status_and_size := STATUS_FULL OR push_bit SIZE_SHIFT (word_of_nat actual_size)\<rparr>"

definition try_acquire_for_write :: "LogChunk \<Rightarrow> LogChunk option" where
  "try_acquire_for_write c =
     (if status_and_size c = STATUS_EMPTY then Some (c\<lparr>status_and_size := STATUS_WRITING\<rparr>) else None)"

text \<open>The slice \<^verbatim>\<open>data[..size]\<close> panics when the size is out of range.\<close>

definition try_read :: "(bytes \<Rightarrow> 's \<Rightarrow> 's) \<Rightarrow> LogChunk \<Rightarrow> 's \<Rightarrow> (bool \<times> LogChunk \<times> 's) panics" where
  "try_read f c s =
     (if status_and_size c AND STATUS_MASK = STATUS_FULL then do {
        let size = unat (drop_bit SIZE_SHIFT (status_and_size c AND SIZE_MASK));
        assert_p (size \<le> length (chunk_data c));
        Some (True, c\<lparr>status_and_size := STATUS_EMPTY\<rparr>, f (take size (chunk_data c)) s)
      } else Some (False, c, s))"

section \<open>The ring\<close>

datatype Level = Error | Warn | Info | Debug | Trace

fun level_rank :: "Level \<Rightarrow> nat" where
  "level_rank Error = 1" | "level_rank Warn = 2" | "level_rank Info = 3" | "level_rank Debug = 4" | "level_rank Trace = 5"

fun color_for_level :: "Level \<Rightarrow> bytes" where
  "color_for_level Error = ''31''"
| "color_for_level Warn = ''33''"
| "color_for_level Info = ''32''"
| "color_for_level Debug = ''34''"
| "color_for_level Trace = ''35''"

text \<open>A \<^verbatim>\<open>LevelFilter\<close> is a rank, 0 for \<^verbatim>\<open>Off\<close>.\<close>

record Logger =
  buffer :: "LogChunk list"
  write_index :: usize
  read_index :: usize
  overflow_count :: usize
  level_filter :: nat

record RingBufferWriter =
  current_chunk :: "usize option"
  current_chunk_offset :: usize

definition wrapping_add :: "usize \<Rightarrow> usize \<Rightarrow> usize" where
  "wrapping_add a b = (a + b) mod 2 ^ 64"

definition wrapping_sub :: "usize \<Rightarrow> usize \<Rightarrow> usize" where
  "wrapping_sub a b = (a + 2 ^ 64 - b) mod 2 ^ 64"

definition logger_new :: "usize \<Rightarrow> nat \<Rightarrow> Logger" where
  "logger_new NUM_CHUNKS_IN_BUFFER max_level = \<lparr> buffer = replicate NUM_CHUNKS_IN_BUFFER chunk_new, write_index = 0, read_index = 0,
     overflow_count = 0, level_filter = max_level \<rparr>"

definition writer_new :: RingBufferWriter where
  "writer_new = \<lparr> current_chunk = None, current_chunk_offset = 0 \<rparr>"

definition overflowed :: "Logger \<Rightarrow> Logger" where
  "overflowed l = l\<lparr>overflow_count := wrapping_add (overflow_count l) 1\<rparr>"

definition acquire_new_chunk :: "Logger \<Rightarrow> RingBufferWriter \<Rightarrow> bool \<times> Logger \<times> RingBufferWriter" where
  "acquire_new_chunk l w =
     (let index = write_index l;
          l = l\<lparr>write_index := wrapping_add (write_index l) 1\<rparr>;
          distance = wrapping_sub index (read_index l)
      in if length (buffer l) \<le> distance then (False, overflowed l, w)
         else let wrapped_index = index mod length (buffer l)
              in case try_acquire_for_write (buffer l ! wrapped_index) of
                   Some c \<Rightarrow> (True, l\<lparr>buffer := (buffer l)[wrapped_index := c]\<rparr>,
                       \<lparr> current_chunk = Some wrapped_index, current_chunk_offset = 0 \<rparr>)
                 | None \<Rightarrow> (False, l, w))"

definition finish_chunk :: "Logger \<Rightarrow> RingBufferWriter \<Rightarrow> Logger \<times> RingBufferWriter" where
  "finish_chunk l w = (case current_chunk w of
     None \<Rightarrow> (l, w)
   | Some i \<Rightarrow> (l\<lparr>buffer := (buffer l)[i := chunk_finish (current_chunk_offset w) (buffer l ! i)]\<rparr>, w\<lparr>current_chunk := None\<rparr>))"

text \<open>The first half of the loop body of \<^verbatim>\<open>write_str\<close>: whether there is a chunk to write to.\<close>

definition prepare_chunk :: "Logger \<Rightarrow> RingBufferWriter \<Rightarrow> bool \<times> Logger \<times> RingBufferWriter" where
  "prepare_chunk l w =
     (if current_chunk w = None \<or> MAX_LOG_CHUNK_SIZE \<le> current_chunk_offset w
      then let (l, w) = finish_chunk l w in acquire_new_chunk l w
      else (True, l, w))"

definition chunk_write :: "usize \<Rightarrow> bytes \<Rightarrow> LogChunk \<Rightarrow> LogChunk" where
  "chunk_write off s c = c\<lparr>chunk_data := take off (chunk_data c) @ s @ drop (off + length s) (chunk_data c)\<rparr>"

lemma prepare_chunk_offset: "prepare_chunk l w = (True, l', w') \<Longrightarrow> current_chunk_offset w' < MAX_LOG_CHUNK_SIZE"
  by (auto simp: prepare_chunk_def acquire_new_chunk_def Let_def MAX_LOG_CHUNK_SIZE_def split: if_splits option.splits prod.splits)

function write_str :: "bytes \<Rightarrow> Logger \<Rightarrow> RingBufferWriter \<Rightarrow> (Logger \<times> RingBufferWriter) panics" where
  "write_str s l w =
     (if s = [] then Some (l, w)
      else case prepare_chunk l w of
        (False, l, w) \<Rightarrow> Some (overflowed l, w)
      | (True, l, w) \<Rightarrow> (case current_chunk w of
          None \<Rightarrow> panic
        | Some i \<Rightarrow>
            let remaining_space = MAX_LOG_CHUNK_SIZE - current_chunk_offset w;
                bytes_to_copy = min remaining_space (length s)
            in write_str (drop bytes_to_copy s)
                 (l\<lparr>buffer := (buffer l)[i := chunk_write (current_chunk_offset w) (take bytes_to_copy s) (buffer l ! i)]\<rparr>)
                 (w\<lparr>current_chunk_offset := current_chunk_offset w + bytes_to_copy\<rparr>)))"
  by pat_completeness auto

termination
  by (relation "measure (\<lambda>(s, _). length s)") (auto dest!: sym [of _ "prepare_chunk _ _"] prepare_chunk_offset)

declare write_str.simps [simp del]

fun write_pieces :: "bytes list \<Rightarrow> Logger \<Rightarrow> RingBufferWriter \<Rightarrow> (Logger \<times> RingBufferWriter) panics" where
  "write_pieces [] l w = Some (l, w)"
| "write_pieces (s # ss) l w = do { (l, w) \<leftarrow> write_str s l w; write_pieces ss l w }"

text \<open>The calls of \<^verbatim>\<open>write_str\<close> that \<^verbatim>\<open>writeln!\<close> makes for a record: the pieces of the format string and the
  arguments; the message itself is a list of pieces, as its \<^verbatim>\<open>Display\<close> implementation writes them.\<close>

fun digits :: "nat \<Rightarrow> nat \<Rightarrow> bytes" where
  "digits base n = (if base < 2 \<or> n < base then [''0123456789abcdef'' ! n] else digits base (n div base) @ [''0123456789abcdef'' ! (n mod base)])"

declare digits.simps [simp del]

fun level_name :: "Level \<Rightarrow> bytes" where
  "level_name Error = ''ERROR''" | "level_name Warn = ''WARN''" | "level_name Info = ''INFO''" | "level_name Debug = ''DEBUG''"
| "level_name Trace = ''TRACE''"

definition esc :: bytes where
  "esc = [CHR 0x1b]"

record LogRecord =
  rec_level :: Level
  rec_module_path :: "bytes option"
  rec_line :: "nat option"
  rec_args :: "bytes list"

definition record_pieces :: "nat \<Rightarrow> nat \<Rightarrow> LogRecord \<Rightarrow> bytes list" where
  "record_pieces timer_counter core_id r =
     [esc @ ''['', color_for_level (rec_level r), ''m'', level_name (rec_level r)] @
     replicate (5 - length (level_name (rec_level r))) '' '' @
     ['' '' @ esc @ ''[90m'', digits 10 timer_counter, '' C'', digits 16 core_id, esc @ ''[0m '',
      (case rec_module_path r of None \<Rightarrow> ''unknown module'' | Some p \<Rightarrow> p), ''@'',
      digits 10 (case rec_line r of None \<Rightarrow> 0 | Some n \<Rightarrow> n), ''| ''] @ rec_args r @ [[CHR 0x0a]]"

definition write_record :: "nat \<Rightarrow> nat \<Rightarrow> LogRecord \<Rightarrow> Logger \<Rightarrow> Logger panics" where
  "write_record timer_counter core_id r l = do {
     (l, w) \<leftarrow> write_pieces (record_pieces timer_counter core_id r) l writer_new;
     Some (fst (finish_chunk l w))
   }"

definition overflow_message :: bytes where
  "overflow_message = esc @ ''[31mlog overflow!'' @ esc @ ''[0m''"

primrec flush_chunks :: "(bytes \<Rightarrow> 's \<Rightarrow> 's) \<Rightarrow> nat \<Rightarrow> Logger \<Rightarrow> 's \<Rightarrow> (Logger \<times> 's) panics" where
  "flush_chunks accept 0 l s = Some (l, s)"
| "flush_chunks accept (Suc limit) l s =
     (if read_index l = write_index l then Some (l, s)
      else do {
        assert_p (length (buffer l) \<noteq> 0);
        let wrapped_index = read_index l mod length (buffer l);
        (read_success, c, s) \<leftarrow> try_read accept (buffer l ! wrapped_index) s;
        let l = l\<lparr>buffer := (buffer l)[wrapped_index := c]\<rparr>;
        if read_success then flush_chunks accept limit (l\<lparr>read_index := wrapping_add (read_index l) 1\<rparr>) s
        else Some (l, s)
      })"

definition flush_internal :: "(bytes \<Rightarrow> 's \<Rightarrow> 's) \<Rightarrow> nat \<Rightarrow> Logger \<Rightarrow> 's \<Rightarrow> (Logger \<times> 's) panics" where
  "flush_internal accept limit l s =
     flush_chunks accept limit (l\<lparr>overflow_count := 0\<rparr>) (if 0 < overflow_count l then accept overflow_message s else s)"

definition log_enabled :: "Level \<Rightarrow> Logger \<Rightarrow> bool" where
  "log_enabled lvl l \<longleftrightarrow> level_rank lvl \<le> level_filter l"

text \<open>\<open>sink_free\<close> says whether \<^verbatim>\<open>try_lock\<close> gets the sink.\<close>

definition logger_log :: "(bytes \<Rightarrow> 's \<Rightarrow> 's) \<Rightarrow> bool \<Rightarrow> nat \<Rightarrow> nat \<Rightarrow> LogRecord \<Rightarrow> Logger \<Rightarrow> 's \<Rightarrow> (Logger \<times> 's) panics" where
  "logger_log accept sink_free timer_counter core_id r l s =
     (if \<not> log_enabled (rec_level r) l then Some (l, s)
      else do {
        l \<leftarrow> write_record timer_counter core_id r l;
        if sink_free then flush_internal accept (length (buffer l) div 3) l s else Some (l, s)
      })"

definition logger_flush :: "(bytes \<Rightarrow> 's \<Rightarrow> 's) \<Rightarrow> Logger \<Rightarrow> 's \<Rightarrow> (Logger \<times> 's) panics" where
  "logger_flush accept l s = flush_internal accept (length (buffer l)) l s"

section \<open>The state of a chunk\<close>

lemma full_status: "(STATUS_FULL OR push_bit SIZE_SHIFT w) AND STATUS_MASK = STATUS_FULL"
proof -
  have m: "(3 :: u64) = mask 2" by (simp add: mask_eq_exp_minus_1)
  have "(2 OR push_bit 2 w :: u64) AND mask 2 = take_bit 2 2 OR take_bit 2 (push_bit 2 w)"
    by (simp add: take_bit_eq_mask [symmetric])
  also have "\<dots> = 2" by (simp add: take_bit_push_bit)
  finally show ?thesis by (simp add: STATUS_FULL_def STATUS_MASK_def SIZE_SHIFT_def m)
qed

lemma full_size:
  assumes "n < 2 ^ 62"
  shows "unat (drop_bit SIZE_SHIFT ((STATUS_FULL OR push_bit SIZE_SHIFT (word_of_nat n)) AND SIZE_MASK)) = n"
proof -
  have m: "(3 :: u64) = mask 2" by (simp add: mask_eq_exp_minus_1)
  have "drop_bit 2 ((2 OR push_bit 2 w) AND NOT (mask 2)) = take_bit 62 w" for w :: u64
  proof (rule bit_word_eqI)
    fix i assume "i < LENGTH(64)"
    have "\<not> bit (2 :: u64) (2 + i)" by (simp add: bit_2_iff)
    then show "bit (drop_bit 2 ((2 OR push_bit 2 w) AND NOT (mask 2))) i = bit (take_bit 62 w) i"
      by (auto simp: bit_simps)
  qed
  then have "unat (drop_bit 2 ((2 OR push_bit 2 (word_of_nat n)) AND NOT (3 :: u64))) = unat (take_bit 62 (word_of_nat n :: u64))"
    unfolding m by simp
  also have "\<dots> = n" using assms by (simp add: unsigned_take_bit_eq unsigned_of_nat take_bit_nat_eq_self)
  finally show ?thesis by (simp add: STATUS_FULL_def STATUS_MASK_def SIZE_SHIFT_def SIZE_MASK_def)
qed

text \<open>A chunk that holds the text \<open>xs\<close>, and one that is free.\<close>

definition full_with :: "LogChunk \<Rightarrow> bytes \<Rightarrow> bool" where
  "full_with c xs \<longleftrightarrow> length (chunk_data c) = MAX_LOG_CHUNK_SIZE \<and> length xs \<le> MAX_LOG_CHUNK_SIZE \<and>
     take (length xs) (chunk_data c) = xs \<and> status_and_size c = STATUS_FULL OR push_bit SIZE_SHIFT (word_of_nat (length xs))"

definition empty_chunk :: "LogChunk \<Rightarrow> bool" where
  "empty_chunk c \<longleftrightarrow> length (chunk_data c) = MAX_LOG_CHUNK_SIZE \<and> status_and_size c = STATUS_EMPTY"

lemma read_full:
  assumes "full_with c xs"
  shows "try_read f c s = Some (True, c\<lparr>status_and_size := STATUS_EMPTY\<rparr>, f xs s)"
proof -
  have n: "length xs < 2 ^ 62" "length xs \<le> length (chunk_data c)" "take (length xs) (chunk_data c) = xs"
    "status_and_size c = STATUS_FULL OR push_bit SIZE_SHIFT (word_of_nat (length xs))"
    using assms by (auto simp: full_with_def MAX_LOG_CHUNK_SIZE_def)
  show ?thesis unfolding try_read_def n(4) full_status full_size [OF n(1)] using n(2,3) by (simp add: Let_def)
qed

lemma read_empty: "empty_chunk c \<Longrightarrow> try_read f c s = Some (False, c, s)"
  by (simp add: try_read_def empty_chunk_def STATUS_EMPTY_def STATUS_FULL_def)

section \<open>The invariant of the ring\<close>

definition chunk_at :: "Logger \<Rightarrow> nat \<Rightarrow> LogChunk" where
  "chunk_at l j = buffer l ! ((read_index l + j) mod length (buffer l))"

text \<open>The first \<open>length xss\<close> chunks from the read index on are full and hold \<open>xss\<close>, and those from the write
  index on are free.\<close>

definition ring_ok :: "Logger \<Rightarrow> bytes list \<Rightarrow> nat \<Rightarrow> bool" where
  "ring_ok l xss k \<longleftrightarrow> length xss \<le> k \<and> k \<le> length (buffer l) \<and> 0 < length (buffer l) \<and>
     write_index l = read_index l + k \<and> read_index l + length (buffer l) < 2 ^ 64 \<and>
     (\<forall>j < length xss. full_with (chunk_at l j) (xss ! j)) \<and>
     (\<forall>j. k \<le> j \<and> j < length (buffer l) \<longrightarrow> empty_chunk (chunk_at l j))"

definition ready :: "Logger \<Rightarrow> bytes list \<Rightarrow> bool" where
  "ready l xss \<longleftrightarrow> ring_ok l xss (length xss)"

text \<open>A writer that has written \<open>t\<close> to the chunk after them.\<close>

definition writing :: "Logger \<Rightarrow> RingBufferWriter \<Rightarrow> bytes list \<Rightarrow> bytes \<Rightarrow> bool" where
  "writing l w xss t \<longleftrightarrow> (case current_chunk w of
     None \<Rightarrow> t = [] \<and> ready l xss
   | Some i \<Rightarrow> ring_ok l xss (length xss + 1) \<and> i = (read_index l + length xss) mod length (buffer l) \<and>
       current_chunk_offset w = length t \<and> length t \<le> MAX_LOG_CHUNK_SIZE \<and>
       length (chunk_data (chunk_at l (length xss))) = MAX_LOG_CHUNK_SIZE \<and> take (length t) (chunk_data (chunk_at l (length xss))) = t)"

definition space :: "Logger \<Rightarrow> RingBufferWriter \<Rightarrow> nat" where
  "space l w = MAX_LOG_CHUNK_SIZE * (read_index l + length (buffer l) - write_index l) +
     (if current_chunk w = None then 0 else MAX_LOG_CHUNK_SIZE - current_chunk_offset w)"

definition same_ring :: "Logger \<Rightarrow> Logger \<Rightarrow> bool" where
  "same_ring l l' \<longleftrightarrow> read_index l' = read_index l \<and> overflow_count l' = overflow_count l \<and> level_filter l' = level_filter l \<and>
     length (buffer l') = length (buffer l)"

lemma mod_index_inj:
  assumes "(r + j) mod n = (r + k) mod n" and "j < n" and "k < n"
  shows "j = (k :: nat)"
proof -
  have "b \<le> a" if "(r + a) mod n = (r + b) mod n" "a < n" "b < n" for a b :: nat
  proof (rule ccontr)
    assume "\<not> b \<le> a"
    then have "r + a \<le> r + b" "0 < b - a" "b - a < n" using that by auto
    moreover have "n dvd (r + b) - (r + a)" using \<open>r + a \<le> r + b\<close> that(1) by (metis mod_eq_dvd_iff_nat)
    ultimately show False using nat_dvd_not_less by fastforce
  qed
  then show ?thesis using assms by (metis le_antisym)
qed

lemma chunk_at_update:
  assumes "j < length (buffer l)" and "k < length (buffer l)"
  shows "chunk_at (l\<lparr>buffer := (buffer l)[(read_index l + j) mod length (buffer l) := c]\<rparr>) k = (if k = j then c else chunk_at l k)"
proof -
  have "(read_index l + j) mod length (buffer l) < length (buffer l)" using assms(1) by (intro mod_less_divisor) linarith
  then show ?thesis using mod_index_inj [OF _ assms(1,2), of "read_index l"] by (auto simp: chunk_at_def nth_list_update)
qed

section \<open>Writing\<close>

lemma finish_writing:
  assumes "writing l w xss t"
  obtains l' w' where "finish_chunk l w = (l', w')" "current_chunk w' = None" "same_ring l l'" "write_index l' = write_index l"
    "ready l' (if current_chunk w = None then xss else xss @ [t])"
proof (cases "current_chunk w")
  case None
  then show thesis using assms that [of l w] by (simp add: finish_chunk_def same_ring_def writing_def)
next
  case (Some i)
  let ?n = "length (buffer l)" and ?j = "length xss"
  have w: "ring_ok l xss (?j + 1)" "i = (read_index l + ?j) mod ?n" "current_chunk_offset w = length t" "length t \<le> MAX_LOG_CHUNK_SIZE"
    "length (chunk_data (chunk_at l ?j)) = MAX_LOG_CHUNK_SIZE" "take (length t) (chunk_data (chunk_at l ?j)) = t"
    using assms Some by (auto simp: writing_def)
  let ?l = "l\<lparr>buffer := (buffer l)[(read_index l + ?j) mod ?n := chunk_finish (length t) (chunk_at l ?j)]\<rparr>"
  have j: "?j < ?n" using w(1) by (simp add: ring_ok_def)
  have "full_with (chunk_finish (length t) (chunk_at l ?j)) t" using w(4-6) by (simp add: full_with_def chunk_finish_def)
  then have "ready ?l (xss @ [t])" using w(1) chunk_at_update [OF j]
    unfolding ready_def ring_ok_def by (simp add: nth_append less_Suc_eq)
  moreover have "finish_chunk l w = (?l, w\<lparr>current_chunk := None\<rparr>)" using Some w(2,3) by (simp add: finish_chunk_def chunk_at_def)
  ultimately show thesis using Some by (intro that [of ?l "w\<lparr>current_chunk := None\<rparr>"]) (simp_all add: same_ring_def)
qed

lemma wrapping_small: "a + b < 2 ^ 64 \<Longrightarrow> wrapping_add a b = a + b" "b \<le> a \<Longrightarrow> a < 2 ^ 64 \<Longrightarrow> wrapping_sub a b = a - b"
proof -
  show "a + b < 2 ^ 64 \<Longrightarrow> wrapping_add a b = a + b" by (simp add: wrapping_add_def)
  assume "b \<le> a" "a < 2 ^ 64"
  then have "a + 2 ^ 64 - b = (a - b) + 2 ^ 64" "a - b < 2 ^ 64" by linarith+
  then show "wrapping_sub a b = a - b" unfolding wrapping_sub_def by (simp only: mod_add_self2 mod_less)
qed

lemma acquire_ready:
  assumes "ready l xss" and "length xss < length (buffer l)"
  obtains l' w' where "acquire_new_chunk l w = (True, l', w')" "writing l' w' xss []" "current_chunk w' \<noteq> None"
    "current_chunk_offset w' = 0" "same_ring l l'" "write_index l' = write_index l + 1"
proof -
  let ?n = "length (buffer l)" and ?j = "length xss"
  have r: "write_index l = read_index l + ?j" "read_index l + ?n < 2 ^ 64" "empty_chunk (chunk_at l ?j)"
    using assms by (auto simp: ready_def ring_ok_def)
  then have wr: "wrapping_add (write_index l) 1 = write_index l + 1" "wrapping_sub (write_index l) (read_index l) = ?j"
    using assms(2) wrapping_small by auto
  let ?c = "(chunk_at l ?j)\<lparr>status_and_size := STATUS_WRITING\<rparr>"
  let ?l = "l\<lparr>write_index := write_index l + 1, buffer := (buffer l)[(read_index l + ?j) mod ?n := ?c]\<rparr>"
  let ?w = "\<lparr> current_chunk = Some ((read_index l + ?j) mod ?n), current_chunk_offset = 0 \<rparr>"
  have a: "acquire_new_chunk l w = (True, ?l, ?w)"
    using assms(2) r(3) wr
    by (simp add: acquire_new_chunk_def Let_def try_acquire_for_write_def empty_chunk_def chunk_at_def [symmetric] r(1) [symmetric])
      (simp add: r(1) chunk_at_def [symmetric])
  have "chunk_at ?l k = chunk_at (l\<lparr>buffer := (buffer l)[(read_index l + ?j) mod ?n := ?c]\<rparr>) k" for k by (simp add: chunk_at_def)
  then have u: "chunk_at ?l k = (if k = ?j then ?c else chunk_at l k)" if "k < ?n" for k
    using that chunk_at_update [OF assms(2)] by simp
  have "ring_ok ?l xss (?j + 1)" using assms u unfolding ready_def ring_ok_def by simp
  then have "writing ?l ?w xss []" using u [OF assms(2)] r(3) by (simp add: writing_def empty_chunk_def)
  then show thesis using a by (intro that [of ?l ?w]) (simp_all add: same_ring_def)
qed

lemma prepare_writing:
  assumes "writing l w xss t" and "0 < space l w"
  obtains l' w' xss' t' where "prepare_chunk l w = (True, l', w')" "writing l' w' xss' t'" "current_chunk w' \<noteq> None"
    "length t' < MAX_LOG_CHUNK_SIZE" "concat xss' @ t' = concat xss @ t" "space l' w' = space l w" "same_ring l l'"
proof (cases "current_chunk w = None \<or> MAX_LOG_CHUNK_SIZE \<le> current_chunk_offset w")
  case False
  then show thesis using assms that [of l w xss t] by (auto simp: prepare_chunk_def writing_def same_ring_def)
next
  case True
  let ?xss = "if current_chunk w = None then xss else xss @ [t]"
  obtain l1 w1 where f: "finish_chunk l w = (l1, w1)" "current_chunk w1 = None" "same_ring l l1" "write_index l1 = write_index l"
    "ready l1 ?xss"
    using assms(1) by (rule finish_writing)
  have sp: "space l w = MAX_LOG_CHUNK_SIZE * (read_index l1 + length (buffer l1) - write_index l1)"
    using True f(3,4) by (auto simp: space_def same_ring_def)
  then have "length ?xss < length (buffer l1)" using assms(2) f(5) by (auto simp: ready_def ring_ok_def simp del: length_append)
  then obtain l2 w2 where a: "acquire_new_chunk l1 w1 = (True, l2, w2)" "writing l2 w2 ?xss []" "current_chunk w2 \<noteq> None"
    "current_chunk_offset w2 = 0" "same_ring l1 l2" "write_index l2 = write_index l1 + 1"
    using acquire_ready [OF f(5)] by blast
  have "space l2 w2 = space l w"
  proof -
    have "space l2 w2 = MAX_LOG_CHUNK_SIZE * (read_index l1 + length (buffer l1) - (write_index l1 + 1)) + MAX_LOG_CHUNK_SIZE"
      using a(3-6) by (auto simp: space_def same_ring_def)
    also have "\<dots> = MAX_LOG_CHUNK_SIZE * (read_index l1 + length (buffer l1) - (write_index l1 + 1) + 1)" by simp
    also have "read_index l1 + length (buffer l1) - (write_index l1 + 1) + 1 = read_index l1 + length (buffer l1) - write_index l1"
      using \<open>length ?xss < length (buffer l1)\<close> f(5) by (auto simp: ready_def ring_ok_def simp del: length_append)
    finally show ?thesis by (simp only: sp)
  qed
  moreover have "concat ?xss @ [] = concat xss @ t" using assms(1) by (auto simp: writing_def)
  ultimately show thesis using True f(1,3) a
    by (intro that [of l2 w2 ?xss "[]"]) (simp_all add: prepare_chunk_def MAX_LOG_CHUNK_SIZE_def same_ring_def)
qed

lemma same_ring_trans: "same_ring l l' \<Longrightarrow> same_ring l' l'' \<Longrightarrow> same_ring l l''"
  by (simp add: same_ring_def)

lemma chunk_write_take:
  assumes "off + length s \<le> length (chunk_data c)"
  shows "take (off + length s) (chunk_data (chunk_write off s c)) = take off (chunk_data c) @ s"
    and "length (chunk_data (chunk_write off s c)) = length (chunk_data c)"
  using assms by (simp_all add: chunk_write_def)

lemma copy_writing:
  assumes "writing l w xss t" and "current_chunk w = Some i" and "length t + length s \<le> MAX_LOG_CHUNK_SIZE"
  shows "writing (l\<lparr>buffer := (buffer l)[i := chunk_write (current_chunk_offset w) s (buffer l ! i)]\<rparr>)
    (w\<lparr>current_chunk_offset := current_chunk_offset w + length s\<rparr>) xss (t @ s)"
proof -
  let ?n = "length (buffer l)" and ?j = "length xss"
  have w: "ring_ok l xss (?j + 1)" "i = (read_index l + ?j) mod ?n" "current_chunk_offset w = length t"
    "length (chunk_data (chunk_at l ?j)) = MAX_LOG_CHUNK_SIZE" "take (length t) (chunk_data (chunk_at l ?j)) = t"
    using assms(1,2) by (auto simp: writing_def)
  have j: "?j < ?n" using w(1) by (simp add: ring_ok_def)
  note cw = chunk_write_take [of "length t" s "chunk_at l ?j", unfolded w(4,5), OF assms(3)]
  have "ring_ok (l\<lparr>buffer := (buffer l)[i := chunk_write (length t) s (chunk_at l ?j)]\<rparr>) xss (?j + 1)"
    using w(1) chunk_at_update [OF j] unfolding w(2) ring_ok_def by simp
  then show ?thesis using cw w(3) assms(2,3) chunk_at_update [OF j j]
    unfolding writing_def w(2) by (simp add: chunk_at_def [symmetric])
qed

lemma write_str_writing:
  assumes "writing l w xss t" and "length s \<le> space l w"
  shows "\<exists>l' w' xss' t'. write_str s l w = Some (l', w') \<and> writing l' w' xss' t' \<and> concat xss' @ t' = concat xss @ t @ s \<and>
    space l' w' = space l w - length s \<and> same_ring l l'"
  using assms
proof (induction "length s" arbitrary: s l w xss t rule: less_induct)
  case less
  show ?case
  proof (cases "s = []")
    case True
    then show ?thesis using less.prems(1) by (auto simp: write_str.simps [of "[]"] same_ring_def)
  next
    case False
    then have "0 < space l w" using less.prems(2) by (cases s) simp_all
    then obtain l1 w1 xss1 t1 where p: "prepare_chunk l w = (True, l1, w1)" "writing l1 w1 xss1 t1" "current_chunk w1 \<noteq> None"
      "length t1 < MAX_LOG_CHUNK_SIZE" "concat xss1 @ t1 = concat xss @ t" "space l1 w1 = space l w" "same_ring l l1"
      using prepare_writing [OF less.prems(1)] by blast
    obtain i where i: "current_chunk w1 = Some i" using p(3) by blast
    have off: "current_chunk_offset w1 = length t1" using p(2) i by (simp add: writing_def)
    let ?k = "min (MAX_LOG_CHUNK_SIZE - length t1) (length s)"
    let ?l = "l1\<lparr>buffer := (buffer l1)[i := chunk_write (length t1) (take ?k s) (buffer l1 ! i)]\<rparr>"
    let ?w = "w1\<lparr>current_chunk_offset := length t1 + ?k\<rparr>"
    have st: "write_str s l w = write_str (drop ?k s) ?l ?w"
      unfolding write_str.simps [of s] using False p(1) i off by (simp add: Let_def)
    have w2: "writing ?l ?w xss1 (t1 @ take ?k s)" using copy_writing [OF p(2) i, of "take ?k s"] p(4) off by simp
    have k: "0 < ?k" using False p(4) by simp
    then have "length (drop ?k s) < length s" using False by simp
    moreover have sp: "space ?l ?w = space l w - ?k"
    proof -
      have "space ?l ?w = MAX_LOG_CHUNK_SIZE * (read_index l1 + length (buffer l1) - write_index l1) + (MAX_LOG_CHUNK_SIZE - (length t1 + ?k))"
        "space l1 w1 = MAX_LOG_CHUNK_SIZE * (read_index l1 + length (buffer l1) - write_index l1) + (MAX_LOG_CHUNK_SIZE - length t1)"
        using i off by (simp_all add: space_def)
      then show ?thesis unfolding p(6) [symmetric] using p(4) by linarith
    qed
    moreover have "length (drop ?k s) \<le> space ?l ?w" unfolding sp length_drop by (rule diff_le_mono [OF less.prems(2)])
    ultimately obtain l' w' xss' t' where IH: "write_str (drop ?k s) ?l ?w = Some (l', w')" "writing l' w' xss' t'"
      "concat xss' @ t' = concat xss1 @ (t1 @ take ?k s) @ drop ?k s" "space l' w' = space ?l ?w - length (drop ?k s)" "same_ring ?l l'"
      using less.hyps [OF _ w2] by blast
    have "concat xss' @ t' = concat xss @ t @ s" using IH(3) p(5) by (metis append.assoc append_take_drop_id)
    moreover have "space l' w' = space l w - length s" using IH(4) sp by simp
    moreover have "same_ring l l'" using p(7) IH(5) by (simp add: same_ring_def)
    ultimately show ?thesis using st IH(1,2) by metis
  qed
qed

lemma write_pieces_writing:
  "writing l w xss t \<Longrightarrow> length (concat ss) \<le> space l w \<Longrightarrow>
     \<exists>l' w' xss' t'. write_pieces ss l w = Some (l', w') \<and> writing l' w' xss' t' \<and> concat xss' @ t' = concat xss @ t @ concat ss \<and>
       space l' w' = space l w - length (concat ss) \<and> same_ring l l'"
proof (induction ss arbitrary: l w xss t)
  case Nil
  then show ?case by (auto simp: same_ring_def)
next
  case (Cons s ss)
  have "length s \<le> space l w" using Cons.prems(2) by simp
  then obtain l1 w1 xss1 t1 where s: "write_str s l w = Some (l1, w1)" "writing l1 w1 xss1 t1" "concat xss1 @ t1 = concat xss @ t @ s"
    "space l1 w1 = space l w - length s" "same_ring l l1"
    using write_str_writing [OF Cons.prems(1)] by blast
  have "length (concat ss) \<le> space l1 w1" using Cons.prems(2) s(4) by simp
  from Cons.IH [OF s(2) this] obtain l' w' xss' t' where "write_pieces ss l1 w1 = Some (l', w')" "writing l' w' xss' t'"
    "concat xss' @ t' = concat xss1 @ t1 @ concat ss" "space l' w' = space l1 w1 - length (concat ss)" "same_ring l1 l'" by blast
  moreover from this have "concat xss' @ t' = concat xss @ t @ concat (s # ss)" using s(3) by (metis append.assoc concat.simps(2))
  ultimately show ?case using s(1,4) same_ring_trans [OF s(5)] by auto
qed

text \<open>A record that fits comes to lie behind what the ring already holds, in as many chunks as it needs.\<close>

lemma write_record_ready:
  assumes "ready l xss" and "length (concat (record_pieces c i rec)) \<le> MAX_LOG_CHUNK_SIZE * (length (buffer l) - length xss)"
  obtains l' xss' where "write_record c i rec l = Some l'" "ready l' xss'" "concat xss' = concat xss @ concat (record_pieces c i rec)"
    "same_ring l l'" "MAX_LOG_CHUNK_SIZE * length xss' \<le> MAX_LOG_CHUNK_SIZE * length xss + length (concat (record_pieces c i rec)) + MAX_LOG_CHUNK_SIZE"
proof -
  let ?T = "length (concat (record_pieces c i rec))" and ?n = "length (buffer l)"
  have w: "writing l writer_new xss []" using assms(1) by (simp add: writing_def writer_new_def)
  have "read_index l + length (buffer l) - write_index l = length (buffer l) - length xss"
    using assms(1) by (simp add: ready_def ring_ok_def)
  then have sp: "space l writer_new = MAX_LOG_CHUNK_SIZE * (?n - length xss)" by (simp add: space_def writer_new_def)
  from write_pieces_writing [OF w, of "record_pieces c i rec"] assms(2) sp obtain l1 w1 xss1 t1 where p: "write_pieces (record_pieces c i rec) l writer_new = Some (l1, w1)"
    "writing l1 w1 xss1 t1" "concat xss1 @ t1 = concat xss @ [] @ concat (record_pieces c i rec)" "same_ring l l1"
    "space l1 w1 = MAX_LOG_CHUNK_SIZE * (?n - length xss) - ?T" by auto
  obtain l' w' where f: "finish_chunk l1 w1 = (l', w')" "same_ring l1 l'" "write_index l' = write_index l1" "ready l' (if current_chunk w1 = None then xss1 else xss1 @ [t1])"
    using finish_writing [OF p(2)] by blast
  have "current_chunk w1 = None \<Longrightarrow> t1 = []" using p(2) by (simp add: writing_def)
  then have "concat (if current_chunk w1 = None then xss1 else xss1 @ [t1]) = concat xss @ concat (record_pieces c i rec)"
    using p(3) by auto
  moreover
  let ?xss = "if current_chunk w1 = None then xss1 else xss1 @ [t1]"
  have n: "length (buffer l1) = ?n" "read_index l1 + length ?xss = write_index l1" "length xss \<le> ?n" "length ?xss \<le> ?n"
    using f(2-4) p(4) assms(1) by (auto simp: same_ring_def ready_def ring_ok_def simp del: length_append)
  have "MAX_LOG_CHUNK_SIZE * (?n - length ?xss) + MAX_LOG_CHUNK_SIZE \<ge> space l1 w1"
    unfolding n(2) [symmetric] space_def n(1) by simp
  then have "MAX_LOG_CHUNK_SIZE * length ?xss \<le> MAX_LOG_CHUNK_SIZE * length xss + ?T + MAX_LOG_CHUNK_SIZE"
    using n(3,4) assms(2) unfolding p(5) MAX_LOG_CHUNK_SIZE_def by linarith
  ultimately show thesis using that f p(1) same_ring_trans [OF p(4) f(2)] by (auto simp: write_record_def)
qed

section \<open>Flushing\<close>

definition emptied :: "nat set \<Rightarrow> LogChunk list \<Rightarrow> LogChunk list \<Rightarrow> bool" where
  "emptied I b b' \<longleftrightarrow> length b' = length b \<and>
     (\<forall>i < length b. b' ! i = (if i \<in> I then (b ! i)\<lparr>status_and_size := STATUS_EMPTY\<rparr> else b ! i))"

text \<open>Chunks that are full are delivered one after the other.\<close>

lemma flush_drain:
  assumes "\<forall>j < length xss. full_with (chunk_at l j) (xss ! j)" and "length xss \<le> length (buffer l)"
    and "read_index l + length xss \<le> write_index l" and "write_index l < 2 ^ 64" and "length xss \<le> k"
  shows "\<exists>l'. flush_chunks accept k l s = flush_chunks accept (k - length xss) l' (fold accept xss s) \<and>
    l' = l\<lparr>buffer := buffer l', read_index := read_index l + length xss\<rparr> \<and>
    emptied ((\<lambda>j. (read_index l + j) mod length (buffer l)) ` {..< length xss}) (buffer l) (buffer l')"
  using assms
proof (induction xss arbitrary: k l s)
  case Nil
  then show ?case by (intro exI [of _ l]) (simp add: emptied_def)
next
  case (Cons x xss)
  let ?n = "length (buffer l)" and ?i = "read_index l mod length (buffer l)"
  obtain k' where k: "k = Suc k'" using Cons.prems(5) by (cases k) auto
  have n: "0 < ?n" using Cons.prems(2) by (cases ?n) simp_all
  have full: "full_with (buffer l ! ?i) x" using Cons.prems(1) by (force simp: chunk_at_def)
  let ?c = "(buffer l ! ?i)\<lparr>status_and_size := STATUS_EMPTY\<rparr>"
  let ?l = "l\<lparr>buffer := (buffer l)[?i := ?c], read_index := read_index l + 1\<rparr>"
  have wr: "wrapping_add (read_index l) 1 = read_index l + 1" using Cons.prems(3,4) by (intro wrapping_small) simp
  have step: "flush_chunks accept k l s = flush_chunks accept k' ?l (accept x s)"
    using Cons.prems(3) n by (simp add: k read_full [OF full] wr [simplified] Let_def)
  have "\<forall>j < length xss. full_with (chunk_at ?l j) (xss ! j)"
  proof (intro allI impI)
    fix j assume j: "j < length xss"
    have "(read_index l + (j + 1)) mod ?n \<noteq> (read_index l + 0) mod ?n"
      using mod_index_inj [of "read_index l" "j + 1" ?n 0] j Cons.prems(2) n by auto
    then have "chunk_at ?l j = chunk_at l (j + 1)" by (simp add: chunk_at_def)
    moreover have "full_with (chunk_at l (j + 1)) ((x # xss) ! (j + 1))" using Cons.prems(1) j by (auto simp del: nth_Cons_Suc)
    ultimately show "full_with (chunk_at ?l j) (xss ! j)" by (simp only:) simp
  qed
  from Cons.IH [OF this, of k' "accept x s"] obtain l' where l': "flush_chunks accept k' ?l (accept x s) = flush_chunks accept (k' - length xss) l' (fold accept xss (accept x s))"
    "l' = ?l\<lparr>buffer := buffer l', read_index := read_index ?l + length xss\<rparr>"
    "emptied ((\<lambda>j. (read_index ?l + j) mod ?n) ` {..< length xss}) ((buffer l)[?i := ?c]) (buffer l')"
    using Cons.prems(2-5) k by auto
  have "(\<lambda>j. (read_index l + j) mod ?n) ` {..< length (x # xss)} = insert ?i ((\<lambda>j. (read_index ?l + j) mod ?n) ` {..< length xss})"
    by (simp add: lessThan_Suc_eq_insert_0 image_image)
  then have "emptied ((\<lambda>j. (read_index l + j) mod ?n) ` {..< length (x # xss)}) (buffer l) (buffer l')"
    using l'(3) n by (auto simp: emptied_def nth_list_update)
  moreover have "l' = l\<lparr>buffer := buffer l', read_index := read_index l + length (x # xss)\<rparr>" by (subst l'(2)) simp
  ultimately show ?case using l'(1) step k by (intro exI [of _ l']) simp
qed

lemma flush_ready:
  assumes "ready l xss" and "read_index l + length xss + length (buffer l) < 2 ^ 64"
  obtains l' where "flush_chunks accept k l s = Some (l', fold accept (take k xss) s)" "ready l' (drop k xss)"
    "length (buffer l') = length (buffer l)" "level_filter l' = level_filter l" "overflow_count l' = overflow_count l"
    "read_index l' + length (drop k xss) = read_index l + length xss"
proof -
  let ?n = "length (buffer l)" and ?r = "read_index l" and ?k = "length (take k xss)"
  have ok: "length xss \<le> ?n" "0 < ?n" "write_index l = ?r + length xss" "\<forall>j < length xss. full_with (chunk_at l j) (xss ! j)"
    "\<forall>j. length xss \<le> j \<and> j < ?n \<longrightarrow> empty_chunk (chunk_at l j)"
    using assms(1) by (auto simp: ready_def ring_ok_def)
  have full_take: "\<forall>j < length (take k xss). full_with (chunk_at l j) (take k xss ! j)" using ok(4) by simp
  obtain l' where
    f: "flush_chunks accept k l s = flush_chunks accept (k - ?k) l' (fold accept (take k xss) s)"
      "l' = l\<lparr>buffer := buffer l', read_index := ?r + ?k\<rparr>"
      "emptied ((\<lambda>j. (?r + j) mod ?n) ` {..< ?k}) (buffer l) (buffer l')"
  proof -
    have "length (take k xss) \<le> ?n" "?r + ?k \<le> write_index l" "write_index l < 2 ^ 64" "?k \<le> k" using ok(1,3) assms(2) by auto
    then show thesis using that flush_drain [OF full_take, of k accept s] by blast
  qed
  have meta: "read_index l' = ?r + ?k" "write_index l' = write_index l" "level_filter l' = level_filter l" "overflow_count l' = overflow_count l"
    by (subst f(2), simp)+
  have len: "length (buffer l') = ?n" using f(3) by (simp add: emptied_def)
  have "flush_chunks accept (k - ?k) l' s' = Some (l', s')" for s'
    using meta(1,2) ok(3) by (cases "k - ?k") (auto simp: min_def split: if_splits)
  moreover have "ready l' (drop k xss)"
  proof -
    have at: "chunk_at l' j = buffer l' ! ((?r + (?k + j)) mod ?n)" for j by (simp add: chunk_at_def meta(1) len add.assoc)
    have keep: "chunk_at l' j = chunk_at l (?k + j)" if "?k + j < ?n" for j
    proof -
      have "(?r + (?k + j)) mod ?n \<notin> (\<lambda>j. (?r + j) mod ?n) ` {..< ?k}"
        using mod_index_inj [of ?r "?k + j" ?n] that by force
      then show ?thesis using f(3) ok(2) unfolding at by (simp add: emptied_def chunk_at_def)
    qed
    have wrap: "empty_chunk (chunk_at l' j)" if "j < ?n" "\<not> ?k + j < ?n" for j
    proof -
      have i: "(?r + (?k + j)) mod ?n = (?r + (?k + j - ?n)) mod ?n" "?k + j - ?n < ?k"
        using that by (auto simp: mod_if [of "?r + (?k + j)"] le_mod_geq) 
      then have "chunk_at l' j = (chunk_at l (?k + j - ?n))\<lparr>status_and_size := STATUS_EMPTY\<rparr>"
        using f(3) ok(2) unfolding at by (auto simp: emptied_def chunk_at_def)
      then show ?thesis using ok(4) i(2) by (auto simp: empty_chunk_def full_with_def)
    qed
    show ?thesis unfolding ready_def ring_ok_def len
    proof (intro conjI allI impI)
      show "full_with (chunk_at l' j) (drop k xss ! j)" if "j < length (drop k xss)" for j
      proof -
        have "?k = k" "k + j < length xss" using that by auto
        then show ?thesis using keep [of j] ok(1,4) by simp
      qed
      show "empty_chunk (chunk_at l' j)" if "length (drop k xss) \<le> j \<and> j < ?n" for j
        using that wrap [of j] keep [of j] ok(5) by (cases "?k + j < ?n") (auto simp: min_def split: if_splits)
    qed (use ok meta assms(2) in \<open>auto simp: min_def\<close>)
  qed
  ultimately show thesis using that f(1) meta len by (auto simp: min_def split: if_splits)
qed

text \<open>A record of at most a third of the ring, less one chunk, comes out at once when the sink is free.\<close>

lemma log_drained:
  assumes "ready l []" and "overflow_count l = 0" and "level_rank (rec_level r) \<le> level_filter l"
    and "length (concat (record_pieces c i r)) + MAX_LOG_CHUNK_SIZE \<le> MAX_LOG_CHUNK_SIZE * (length (buffer l) div 3)"
    and "read_index l + 2 * length (buffer l) < 2 ^ 64"
  obtains l' yss where "logger_log accept True c i r l s = Some (l', fold accept yss s)" "concat yss = concat (record_pieces c i r)"
    "ready l' []" "overflow_count l' = 0" "level_filter l' = level_filter l" "length (buffer l') = length (buffer l)"
    "read_index l' \<le> read_index l + length (buffer l)"
proof -
  let ?T = "length (concat (record_pieces c i r))" and ?n = "length (buffer l)"
  have "?T \<le> MAX_LOG_CHUNK_SIZE * (?n - length [])" using assms(4) by (simp add: MAX_LOG_CHUNK_SIZE_def)
  from write_record_ready [OF assms(1) this] obtain l1 xss where w: "write_record c i r l = Some l1" "ready l1 xss"
    "concat xss = concat [] @ concat (record_pieces c i r)" "same_ring l l1"
    "MAX_LOG_CHUNK_SIZE * length xss \<le> MAX_LOG_CHUNK_SIZE * length ([] :: bytes list) + ?T + MAX_LOG_CHUNK_SIZE"
    by blast
  have n: "length (buffer l1) = ?n" "read_index l1 = read_index l" "overflow_count l1 = 0" "level_filter l1 = level_filter l" "length xss \<le> ?n"
    using w(2,4) assms(2) by (auto simp: same_ring_def ready_def ring_ok_def)
  have le: "length xss \<le> ?n div 3" using w(5) assms(4) by (simp add: MAX_LOG_CHUNK_SIZE_def)
  have "read_index l1 + length xss + length (buffer l1) < 2 ^ 64" using n assms(5) by simp
  from flush_ready [OF w(2) this] obtain l2 where f: "flush_chunks accept (?n div 3) l1 s = Some (l2, fold accept (take (?n div 3) xss) s)"
    "ready l2 (drop (?n div 3) xss)" "length (buffer l2) = length (buffer l1)" "level_filter l2 = level_filter l1"
    "overflow_count l2 = overflow_count l1" "read_index l2 + length (drop (?n div 3) xss) = read_index l1 + length xss"
    by metis
  have z: "l1\<lparr>overflow_count := 0\<rparr> = l1" using n(3) by simp
  have "logger_log accept True c i r l s = Some (l2, fold accept xss s)"
    using f(1) w(1) n(1,3) le assms(3) by (simp add: logger_log_def log_enabled_def flush_internal_def z)
  then show thesis using that f(2-6) w(3) n le by simp
qed

section \<open>Records come out as they were written\<close>

text \<open>C9: a record for which the ring has room comes out of the sink.  After logging an enabled record and
  flushing, with or without the sink at hand in between, the sink has accepted
  exactly what was pending before, followed by the text of the record, in chunks and in order, and the
  ring is empty again.\<close>

theorem logger_roundtrip:
  assumes "ready l xss" and "overflow_count l = 0" and "level_rank (rec_level r) \<le> level_filter l"
    and "length (concat (record_pieces c i r)) \<le> MAX_LOG_CHUNK_SIZE * (length (buffer l) - length xss)"
    and "read_index l + 3 * length (buffer l) < 2 ^ 64"
  shows "\<exists>l1 s1 l2 yss. logger_log accept sink_free c i r l s = Some (l1, s1) \<and>
    logger_flush accept l1 s1 = Some (l2, fold accept yss s) \<and>
    concat yss = concat xss @ concat (record_pieces c i r) \<and> ready l2 []"
proof -
  obtain l1 xss1 where w: "write_record c i r l = Some l1" "ready l1 xss1" "concat xss1 = concat xss @ concat (record_pieces c i r)"
    "same_ring l l1"
    using write_record_ready [OF assms(1,4)] by blast
  have n: "length (buffer l1) = length (buffer l)" "read_index l1 = read_index l" "overflow_count l1 = 0" "length xss1 \<le> length (buffer l)"
    using w(2,4) assms(2) by (auto simp: same_ring_def ready_def ring_ok_def)
  then have small: "read_index l1 + length xss1 + length (buffer l1) < 2 ^ 64" using assms(5) by simp
  have z: "l1\<lparr>overflow_count := 0\<rparr> = l1" using n(3) by simp
  have en: "log_enabled (rec_level r) l" using assms(3) by (simp add: log_enabled_def)
  let ?k = "if sink_free then length (buffer l) div 3 else 0"
  obtain l2 where f: "flush_chunks accept ?k l1 s = Some (l2, fold accept (take ?k xss1) s)" "ready l2 (drop ?k xss1)"
    "length (buffer l2) = length (buffer l1)" "overflow_count l2 = overflow_count l1"
    "read_index l2 + length (drop ?k xss1) = read_index l1 + length xss1"
    using flush_ready [OF w(2) small] by metis
  have lg: "logger_log accept sink_free c i r l s = Some (l2, fold accept (take ?k xss1) s)"
    using f(1) w(1) en n by (auto simp: logger_log_def flush_internal_def z)
  have "read_index l2 + length (drop ?k xss1) + length (buffer l2) < 2 ^ 64" using f(3,5) small by simp
  from flush_ready [OF f(2) this] obtain l3 where g:
    "flush_chunks accept (length (buffer l2)) l2 (fold accept (take ?k xss1) s) =
       Some (l3, fold accept (take (length (buffer l2)) (drop ?k xss1)) (fold accept (take ?k xss1) s))"
    "ready l3 (drop (length (buffer l2)) (drop ?k xss1))" by metis
  have z2: "l2\<lparr>overflow_count := 0\<rparr> = l2" using f(4) n(3) by simp
  have "length (drop ?k xss1) \<le> length (buffer l2)" using f(3) n(1,4) by simp
  then have "drop (length (buffer l2)) (drop ?k xss1) = []" "take (length (buffer l2)) (drop ?k xss1) = drop ?k xss1"
    by (simp_all only: drop_all take_all)
  then have "logger_flush accept l2 (fold accept (take ?k xss1) s) = Some (l3, fold accept (drop ?k xss1) (fold accept (take ?k xss1) s))"
    "ready l3 []"
    using g f(4) n(3) by (simp_all add: logger_flush_def flush_internal_def z2 del: drop_drop drop_eq_Nil take_all_iff)
  moreover have "fold accept (drop ?k xss1) (fold accept (take ?k xss1) s) = fold accept xss1 s"
    by (metis append_take_drop_id comp_apply fold_append)
  ultimately show ?thesis using lg w(3) by metis
qed

section \<open>Overflow\<close>

text \<open>The reader waits for a chunk whose turn to be written has passed.\<close>

definition wedged :: "Logger \<Rightarrow> bool" where
  "wedged l \<longleftrightarrow> 0 < length (buffer l) \<and> read_index l < write_index l \<and> empty_chunk (chunk_at l 0)"

text \<open>A step of a writer that leaves the chunk alone for which the reader waits.\<close>

definition around :: "Logger \<Rightarrow> Logger \<Rightarrow> bool" where
  "around l l' \<longleftrightarrow> length (buffer l') = length (buffer l) \<and> read_index l' = read_index l \<and> level_filter l' = level_filter l \<and>
     write_index l \<le> write_index l' \<and> chunk_at l' 0 = chunk_at l 0"

lemma around_trans: "around l l' \<Longrightarrow> around l' l'' \<Longrightarrow> around l l''"
  by (simp add: around_def)

lemma around_wedged: "around l l' \<Longrightarrow> wedged l \<Longrightarrow> wedged l'"
  by (auto simp: around_def wedged_def)

lemma around_update: "i \<noteq> read_index l mod length (buffer l) \<Longrightarrow> around l (l\<lparr>buffer := (buffer l)[i := c]\<rparr>)"
  by (simp add: around_def chunk_at_def)

definition elsewhere :: "Logger \<Rightarrow> RingBufferWriter \<Rightarrow> bool" where
  "elsewhere l w \<longleftrightarrow> current_chunk w \<noteq> Some (read_index l mod length (buffer l))"

lemma around_elsewhere: "around l l' \<Longrightarrow> elsewhere l' w = elsewhere l w"
  by (simp add: around_def elsewhere_def)

lemma finish_around:
  assumes "elsewhere l w" and "finish_chunk l w = (l', w')"
  shows "around l l' \<and> elsewhere l' w' \<and> write_index l' = write_index l"
proof (cases "current_chunk w")
  case None
  then show ?thesis using assms by (simp add: finish_chunk_def around_def)
next
  case (Some i)
  then have i: "i \<noteq> read_index l mod length (buffer l)" using assms(1) by (simp add: elsewhere_def)
  have l': "l' = l\<lparr>buffer := (buffer l)[i := chunk_finish (current_chunk_offset w) (buffer l ! i)]\<rparr>" "w' = w\<lparr>current_chunk := None\<rparr>"
    using assms(2) Some by (auto simp: finish_chunk_def)
  have "around l l'" unfolding l' by (rule around_update [OF i])
  then show ?thesis by (simp add: l' elsewhere_def)
qed

lemma acquire_around:
  assumes "wedged l" and "write_index l + 1 < 2 ^ 64" and "elsewhere l w" and "acquire_new_chunk l w = (ok, l', w')"
  shows "around l l' \<and> elsewhere l' w' \<and> write_index l' = write_index l + 1 \<and> (ok \<longrightarrow> current_chunk w' \<noteq> None)"
proof -
  let ?n = "length (buffer l)" and ?l = "l\<lparr>write_index := write_index l + 1\<rparr>"
  have lt: "read_index l < write_index l" using assms(1) by (simp add: wedged_def)
  have wr: "wrapping_add (write_index l) 1 = write_index l + 1" "wrapping_sub (write_index l) (read_index l) = write_index l - read_index l"
    using assms(2) lt by (intro wrapping_small; simp)+
  have ar: "around l ?l" by (simp add: around_def chunk_at_def)
  show ?thesis
  proof (cases "?n \<le> write_index l - read_index l")
    case True
    then have "ok = False" "l' = overflowed ?l" "w' = w" using assms(4) wr by (simp_all add: acquire_new_chunk_def Let_def)
    then show ?thesis using assms(3) by (simp add: overflowed_def around_def elsewhere_def chunk_at_def)
  next
    case False
    have "write_index l mod ?n \<noteq> read_index l mod ?n"
      using mod_index_inj [of "read_index l" "write_index l - read_index l" ?n 0] False lt assms(1) by (auto simp: wedged_def)
    then have i: "write_index l mod ?n \<noteq> read_index ?l mod length (buffer ?l)" by simp
    show ?thesis
    proof (cases "try_acquire_for_write (buffer l ! (write_index l mod ?n))")
      case None
      then have "ok = False" "l' = ?l" "w' = w" using assms(4) wr False by (simp_all add: acquire_new_chunk_def Let_def)
      then show ?thesis using ar assms(3) by (simp add: elsewhere_def)
    next
      case (Some c)
      then have r: "l' = ?l\<lparr>buffer := (buffer ?l)[write_index l mod ?n := c]\<rparr>" "current_chunk w' = Some (write_index l mod ?n)"
        using assms(4) wr False by (auto simp: acquire_new_chunk_def Let_def)
      have "around ?l l'" unfolding r by (rule around_update [OF i])
      then show ?thesis using around_trans [OF ar] i r by (simp add: elsewhere_def)
    qed
  qed
qed

lemma write_str_around:
  assumes "wedged l" and "elsewhere l w" and "write_index l + length s < 2 ^ 64"
  shows "\<exists>l' w'. write_str s l w = Some (l', w') \<and> around l l' \<and> elsewhere l' w' \<and> write_index l' \<le> write_index l + length s"
  using assms
proof (induction "length s" arbitrary: s l w rule: less_induct)
  case less
  show ?case
  proof (cases "s = []")
    case True
    then show ?thesis using less.prems by (simp add: write_str.simps [of "[]"] around_def)
  next
    case False
    obtain ok l1 w1 where p: "prepare_chunk l w = (ok, l1, w1)" by (cases "prepare_chunk l w") auto
    have s1: "write_index l + 1 < 2 ^ 64" using less.prems(3) False by (cases s) simp_all
    have a: "around l l1 \<and> elsewhere l1 w1 \<and> write_index l1 \<le> write_index l + 1 \<and> (ok \<longrightarrow> current_chunk w1 \<noteq> None)"
    proof (cases "current_chunk w = None \<or> MAX_LOG_CHUNK_SIZE \<le> current_chunk_offset w")
      case True
      obtain l0 w0 where f: "finish_chunk l w = (l0, w0)" by fastforce
      then have q: "acquire_new_chunk l0 w0 = (ok, l1, w1)" using p True by (simp add: prepare_chunk_def)
      note fa = finish_around [OF less.prems(2) f]
      then have "wedged l0" "write_index l0 + 1 < 2 ^ 64" using around_wedged less.prems(1) s1 by auto
      from acquire_around [OF this _ q] fa show ?thesis using around_trans by auto
    next
      case False
      then show ?thesis using p less.prems(2) by (auto simp: prepare_chunk_def around_def)
    qed
    show ?thesis
    proof (cases ok)
      case False
      then have "write_str s l w = Some (overflowed l1, w1)" unfolding write_str.simps [of s] using \<open>s \<noteq> []\<close> p by simp
      moreover have "around l1 (overflowed l1)" by (simp add: around_def overflowed_def chunk_at_def)
      ultimately show ?thesis using a \<open>s \<noteq> []\<close> around_trans [of l l1] around_elsewhere
        by (cases s) (auto simp: overflowed_def)
    next
      case True
      then obtain i where i: "current_chunk w1 = Some i" using a by blast
      let ?k = "min (MAX_LOG_CHUNK_SIZE - current_chunk_offset w1) (length s)"
      let ?l = "l1\<lparr>buffer := (buffer l1)[i := chunk_write (current_chunk_offset w1) (take ?k s) (buffer l1 ! i)]\<rparr>"
      let ?w = "w1\<lparr>current_chunk_offset := current_chunk_offset w1 + ?k\<rparr>"
      have st: "write_str s l w = write_str (drop ?k s) ?l ?w"
        unfolding write_str.simps [of s] using \<open>s \<noteq> []\<close> p True i by (simp add: Let_def)
      have ne: "i \<noteq> read_index l1 mod length (buffer l1)" using a i by (auto simp: elsewhere_def)
      have ar: "around l ?l" using a around_update [OF ne] around_trans by blast
      have el: "elsewhere ?l ?w" using i ne by (simp add: elsewhere_def)
      have k: "0 < ?k" using prepare_chunk_offset [of l w l1 w1] p True \<open>s \<noteq> []\<close> by simp
      then have len: "length (drop ?k s) + 1 \<le> length s" unfolding length_drop by linarith
      have wi: "write_index ?l \<le> write_index l + 1" using a by simp
      then have "write_index ?l + length (drop ?k s) < 2 ^ 64" using less.prems(3) len by linarith
      from less.hyps [OF _ around_wedged [OF ar less.prems(1)] el this] len
      obtain l' w' where "write_str (drop ?k s) ?l ?w = Some (l', w')" "around ?l l'" "elsewhere l' w'"
        "write_index l' \<le> write_index ?l + length (drop ?k s)" by auto
      then show ?thesis using st around_trans [OF ar] wi len by fastforce
    qed
  qed
qed

lemma write_pieces_around:
  "wedged l \<Longrightarrow> elsewhere l w \<Longrightarrow> write_index l + length (concat ss) < 2 ^ 64 \<Longrightarrow>
     \<exists>l' w'. write_pieces ss l w = Some (l', w') \<and> around l l' \<and> elsewhere l' w'"
proof (induction ss arbitrary: l w)
  case Nil
  then show ?case by (simp add: around_def)
next
  case (Cons s ss)
  have "write_index l + length s < 2 ^ 64" using Cons.prems(3) by simp
  from write_str_around [OF Cons.prems(1,2) this] obtain l1 w1 where s: "write_str s l w = Some (l1, w1)" "around l l1" "elsewhere l1 w1"
    "write_index l1 \<le> write_index l + length s" by blast
  have "write_index l1 + length (concat ss) < 2 ^ 64" using Cons.prems(3) s(4) by simp
  from Cons.IH [OF around_wedged [OF s(2) Cons.prems(1)] s(3) this] show ?case using s(1) around_trans [OF s(2)] by auto
qed

lemma write_record_around:
  assumes "wedged l" and "write_index l + length (concat (record_pieces c i r)) < 2 ^ 64"
  shows "\<exists>l'. write_record c i r l = Some l' \<and> around l l'"
proof -
  have "elsewhere l writer_new" by (simp add: elsewhere_def writer_new_def)
  from write_pieces_around [OF assms(1) this assms(2)] obtain l1 w1 where
    "write_pieces (record_pieces c i r) l writer_new = Some (l1, w1)" "around l l1" "elsewhere l1 w1" by blast
  then show ?thesis using finish_around [of l1 w1] around_trans [of l l1]
    by (cases "finish_chunk l1 w1") (auto simp: write_record_def)
qed

lemma flush_wedged:
  assumes "wedged l"
  shows "flush_internal accept k l s = Some (l\<lparr>overflow_count := 0\<rparr>, if 0 < overflow_count l then accept overflow_message s else s)"
proof -
  have e: "empty_chunk (buffer l ! (read_index l mod length (buffer l)))" "0 < length (buffer l)" "read_index l \<noteq> write_index l"
    using assms by (auto simp: wedged_def chunk_at_def)
  show ?thesis using e(2,3) by (cases k) (simp_all add: flush_internal_def read_empty [OF e(1)] Let_def)
qed

text \<open>C40: a ring that is wedged stays wedged.  Whatever is logged, and however often it is flushed, no
  record reaches the sink any more: the sink gets overflow messages only, until the write index
  has gone round all 64-bit numbers.\<close>

theorem logger_wedged_forever:
  assumes "wedged l" and "write_index l + length (concat (record_pieces c i r)) < 2 ^ 64"
  shows "(\<exists>l' s'. logger_log accept sink_free c i r l s = Some (l', s') \<and> wedged l' \<and> read_index l' = read_index l \<and>
      s' \<in> {s, accept overflow_message s}) \<and>
    (\<exists>l' s'. logger_flush accept l s = Some (l', s') \<and> wedged l' \<and> read_index l' = read_index l \<and>
      s' \<in> {s, accept overflow_message s})"
proof
  have ov: "around k (k\<lparr>overflow_count := 0\<rparr>)" for k by (simp add: around_def chunk_at_def)
  obtain l1 where l1: "write_record c i r l = Some l1" "around l l1" using write_record_around [OF assms] by blast
  note w1 = around_wedged [OF l1(2) assms(1)]
  show "\<exists>l' s'. logger_log accept sink_free c i r l s = Some (l', s') \<and> wedged l' \<and> read_index l' = read_index l \<and>
      s' \<in> {s, accept overflow_message s}"
    using assms(1) l1 w1 around_wedged [OF ov w1] unfolding logger_log_def
    by (simp add: flush_wedged [OF w1]) (simp add: around_def)
  show "\<exists>l' s'. logger_flush accept l s = Some (l', s') \<and> wedged l' \<and> read_index l' = read_index l \<and>
      s' \<in> {s, accept overflow_message s}"
    using around_wedged [OF ov assms(1)] by (simp add: logger_flush_def flush_wedged [OF assms(1)])
qed

text \<open>A writer without a chunk, when every chunk is taken.\<close>

lemma write_pieces_full:
  assumes "current_chunk w = None" and "read_index l + length (buffer l) \<le> write_index l" and "write_index l + length ss < 2 ^ 64"
  shows "\<exists>l'. write_pieces ss l w = Some (l', w) \<and> buffer l' = buffer l \<and> read_index l' = read_index l \<and>
    write_index l + (if \<exists>s \<in> set ss. s \<noteq> [] then 1 else 0) \<le> write_index l' \<and> write_index l' < 2 ^ 64"
  using assms(2,3)
proof (induction ss arbitrary: l)
  case Nil
  then show ?case by simp
next
  case (Cons s ss)
  show ?case
  proof (cases "s = []")
    case True
    then show ?thesis using Cons.IH [of l] Cons.prems by (simp add: write_str.simps [of "[]"])
  next
    case False
    let ?l = "l\<lparr>write_index := write_index l + 1\<rparr>"
    have "wrapping_add (write_index l) 1 = write_index l + 1" "wrapping_sub (write_index l) (read_index l) = write_index l - read_index l"
      using Cons.prems by (intro wrapping_small; simp)+
    moreover have "length (buffer l) \<le> write_index l - read_index l" using Cons.prems(1) by linarith
    ultimately have "write_str s l w = Some (overflowed (overflowed ?l), w)"
      unfolding write_str.simps [of s] using False assms(1) Cons.prems(1)
      by (simp add: prepare_chunk_def finish_chunk_def acquire_new_chunk_def Let_def)
    then show ?thesis using Cons.IH [of "overflowed (overflowed ?l)"] Cons.prems False
      by (fastforce simp: overflowed_def split: if_splits)
  qed
qed

text \<open>C39: one record too many wedges the ring.  When a record is logged while every chunk is full,
  the next flush delivers what the chunks hold and leaves the ring wedged.\<close>

theorem logger_overflow_wedges:
  assumes "ready l xss" and "length xss = length (buffer l)" and "level_rank (rec_level r) \<le> level_filter l"
    and "read_index l + 2 * length (buffer l) + length (record_pieces c i r) < 2 ^ 64"
  shows "\<exists>l1 l2 s'. logger_log accept False c i r l s = Some (l1, s) \<and>
    logger_flush accept l1 s = Some (l2, fold accept xss s') \<and> s' \<in> {s, accept overflow_message s} \<and> wedged l2"
proof -
  let ?n = "length (buffer l)"
  have ok: "0 < ?n" "write_index l = read_index l + ?n" "\<forall>j < ?n. full_with (chunk_at l j) (xss ! j)"
    using assms(1,2) by (auto simp: ready_def ring_ok_def)
  have "\<exists>s \<in> set (record_pieces c i r). s \<noteq> []" by (simp add: record_pieces_def esc_def)
  moreover have "current_chunk writer_new = None" by (simp add: writer_new_def)
  ultimately obtain l1 where l1: "write_pieces (record_pieces c i r) l writer_new = Some (l1, writer_new)" "buffer l1 = buffer l"
    "read_index l1 = read_index l" "write_index l + 1 \<le> write_index l1" "write_index l1 < 2 ^ 64"
    using write_pieces_full [of writer_new l "record_pieces c i r"] ok(2) assms(4) by auto
  then have lg: "logger_log accept False c i r l s = Some (l1, s)"
    using assms(3) by (simp add: logger_log_def log_enabled_def write_record_def finish_chunk_def writer_new_def)
  let ?l1 = "l1\<lparr>overflow_count := 0\<rparr>" and ?s = "if 0 < overflow_count l1 then accept overflow_message s else s"
  have "\<forall>j < length xss. full_with (chunk_at ?l1 j) (xss ! j)" using ok(3) l1(2,3) assms(2) by (simp add: chunk_at_def)
  from flush_drain [OF this, of ?n accept ?s] obtain l2 where
    f: "flush_chunks accept ?n ?l1 ?s = Some (l2, fold accept xss ?s)"
      "l2 = ?l1\<lparr>buffer := buffer l2, read_index := read_index ?l1 + length xss\<rparr>"
      "emptied ((\<lambda>j. (read_index ?l1 + j) mod length (buffer ?l1)) ` {..< length xss}) (buffer ?l1) (buffer l2)"
    using assms(2) l1(2-5) ok(2) by auto
  have m: "read_index l2 = read_index l + ?n" "write_index l2 = write_index l1" "length (buffer l2) = ?n"
    using arg_cong [OF f(2), of read_index] arg_cong [OF f(2), of write_index] f(3) assms(2) l1(2,3) by (auto simp: emptied_def)
  have "read_index l mod ?n \<in> (\<lambda>j. (read_index l + j) mod ?n) ` {..< ?n}" using ok(1) by (intro image_eqI [of _ _ 0]) simp_all
  then have "chunk_at l2 0 = (chunk_at l 0)\<lparr>status_and_size := STATUS_EMPTY\<rparr>"
    using f(3) assms(2) l1(2,3) m ok(1) by (simp add: emptied_def chunk_at_def)
  moreover have "length (chunk_data (chunk_at l 0)) = MAX_LOG_CHUNK_SIZE" using ok(1,3) by (auto simp: full_with_def)
  ultimately have "wedged l2" using m ok l1(4) by (simp add: wedged_def empty_chunk_def)
  moreover have "logger_flush accept l1 s = Some (l2, fold accept xss ?s)" using f(1) l1(2) by (simp add: logger_flush_def flush_internal_def)
  ultimately show ?thesis using lg by (intro exI [of _ l1] exI [of _ l2] exI [of _ ?s]) simp
qed

section \<open>Examples\<close>

text \<open>A ring of two chunks that is empty, full, and wedged, and a sink that keeps everything.\<close>

definition keep_all :: "bytes \<Rightarrow> bytes \<Rightarrow> bytes" where
  "keep_all x s = s @ x"

definition record_example :: LogRecord where
  "record_example = \<lparr> rec_level = Info, rec_module_path = Some ''kernel'', rec_line = Some 7, rec_args = [''hi''] \<rparr>"

definition ring_full :: Logger where
  "ring_full = (logger_new 2 5)\<lparr>buffer := replicate 2 (chunk_finish 3 chunk_new), write_index := 2\<rparr>"

definition ring_wedged :: Logger where
  "ring_wedged = (logger_new 2 5)\<lparr>read_index := 2, write_index := 3\<rparr>"

lemma record_example_length: "length (concat (record_pieces 10 0 record_example)) = 39"
  by (simp add: record_pieces_def record_example_def esc_def digits.simps)

lemma logger_new_ready: "0 < n \<Longrightarrow> n < 2 ^ 64 \<Longrightarrow> ready (logger_new n k) []"
  by (simp add: ready_def ring_ok_def logger_new_def chunk_at_def empty_chunk_def chunk_new_def)

lemma ring_full_ready: "ready ring_full [replicate 3 nul, replicate 3 nul]"
proof -
  have "full_with (chunk_finish 3 chunk_new) (replicate 3 nul)"
    by (simp add: full_with_def chunk_finish_def chunk_new_def MAX_LOG_CHUNK_SIZE_def)
  then show ?thesis by (auto simp: ready_def ring_ok_def ring_full_def logger_new_def chunk_at_def less_Suc_eq nth_Cons')
qed

theorem logger_roundtrip_witness:
  "\<exists>l1 s1 l2 yss. logger_log keep_all True 10 0 record_example (logger_new 2 5) [] = Some (l1, s1) \<and>
     logger_flush keep_all l1 s1 = Some (l2, fold keep_all yss []) \<and> concat yss = concat (record_pieces 10 0 record_example)"
  using logger_roundtrip [OF logger_new_ready [of 2 5], of record_example 10 0 keep_all True "[]"] record_example_length
  by (simp add: logger_new_def MAX_LOG_CHUNK_SIZE_def record_example_def) blast

theorem logger_wedged_forever_witness:
  "\<exists>l' s'. logger_log keep_all True 10 0 record_example ring_wedged [] = Some (l', s') \<and> s' \<in> {[], overflow_message}"
proof -
  have w: "wedged ring_wedged"
    by (simp add: wedged_def ring_wedged_def logger_new_def chunk_at_def empty_chunk_def chunk_new_def)
  have "write_index ring_wedged + length (concat (record_pieces 10 0 record_example)) < 2 ^ 64"
    unfolding record_example_length by (simp add: ring_wedged_def)
  from logger_wedged_forever [OF w this, of keep_all True "[]"] show ?thesis by (auto simp: keep_all_def)
qed

theorem logger_overflow_wedges_witness:
  "\<exists>l1 l2 s'. logger_log keep_all False 10 0 record_example ring_full [] = Some (l1, []) \<and>
     logger_flush keep_all l1 [] = Some (l2, s') \<and> wedged l2"
proof -
  have "length [replicate 3 nul, replicate 3 nul] = length (buffer ring_full)" "level_rank (rec_level record_example) \<le> level_filter ring_full"
    "read_index ring_full + 2 * length (buffer ring_full) + length (record_pieces 10 0 record_example) < 2 ^ 64"
    by (simp_all add: ring_full_def logger_new_def record_example_def record_pieces_def)
  from logger_overflow_wedges [OF ring_full_ready this, of keep_all "[]"] show ?thesis by blast
qed

end
