(* ===== verification/Uart.thy ===== *)
theory Uart
  imports Logger Gic2 Virt_Tree
begin

text \<open>
  The output of the log: the driver of the serial port (\<^verbatim>\<open>kernel/src/uart.rs\<close>) and the setup of the
  global logger (\<^verbatim>\<open>kernel/src/logging.rs\<close>).  The port is written through the interface \<open>Mmio\<close>
  of theory \<^verbatim>\<open>Gic2\<close>.  The crate \<^verbatim>\<open>log\<close> is not part of the sources: \<open>set_logger_ok\<close> is the result of
  \<^verbatim>\<open>set_logger\<close>, which fails when there is a logger already.  The records that the setup logs have
  texts that the build generates; they are a parameter, with the values of the counter and the core when each is
  logged.
\<close>

section \<open>Model\<close>

record PL011 =
  base_address :: ptr

text \<open>The loop over the properties: the last one counts.\<close>

definition pl011_property :: "ByteOrder \<Rightarrow> bytes \<Rightarrow> Value \<Rightarrow> paddr option \<Rightarrow> (unit + paddr option) panics" where
  "pl011_property bo name v base =
     (case (name = ''reg'', v) of
        (True, Reg r) \<Rightarrow> do {
          (item, _) \<leftarrow> registers_next bo r 0;
          case item of
            None \<Rightarrow> Some (Inr None)
          | Some (a, _) \<Rightarrow> do { p \<leftarrow> phys_from_usize a; Some (Inr (Some p)) }
        }
      | _ \<Rightarrow> Some (Inr base))"

definition pl011_from_device_tree :: "ByteOrder \<Rightarrow> DeviceTree \<Rightarrow> bytes \<Rightarrow> PL011 option panics" where
  "pl011_from_device_tree bo dt path = do {
     it \<leftarrow> iter_node_properties bo dt path;
     case it of
       None \<Rightarrow> Some None
     | Some it \<Rightarrow> do {
         r \<leftarrow> for_each_property bo dt it (pl011_property bo) None;
         case r of
           Inl e \<Rightarrow> panic
         | Inr base \<Rightarrow> Some (map_option (\<lambda>r. \<lparr> base_address = ptr_from_phys r \<rparr>) base)
       }
   }"

definition pl011_write_str :: "'d Mmio \<Rightarrow> PL011 \<Rightarrow> bytes \<Rightarrow> 'd \<Rightarrow> 'd" where
  "pl011_write_str mm u s d = fold (\<lambda>ch. mm_write8 mm (base_address u) (of_char ch)) s d"

definition pl011_accept :: "'d Mmio \<Rightarrow> PL011 \<Rightarrow> bytes \<Rightarrow> 'd \<Rightarrow> 'd" where
  "pl011_accept mm u chunk d = fold (\<lambda>byte. mm_write8 mm (base_address u) (of_char byte)) chunk d"

record GlobalValues =
  gv_core_id :: u64
  gv_timer_counter :: u64

definition global_values_read :: "u64 \<Rightarrow> u64 \<Rightarrow> GlobalValues" where
  "global_values_read CNTPCT_EL0 MPIDR_EL1 = \<lparr> gv_core_id = MPIDR_EL1 AND NOT 0x80000000, gv_timer_counter = CNTPCT_EL0 \<rparr>"

definition NUM_CHUNKS_IN_BUFFER :: usize where
  "NUM_CHUNKS_IN_BUFFER = 128"

definition LevelFilter_max :: nat where
  "LevelFilter_max = 5"

definition stdout_device_path :: "ByteOrder \<Rightarrow> DeviceTree \<Rightarrow> bytes panics" where
  "stdout_device_path bo dt = do {
     v \<leftarrow> find_property bo dt ''/chosen/stdout-path'';
     case Option.bind v into_bytes of
       None \<Rightarrow> Some ''/pl011@9000000''
     | Some p \<Rightarrow> do { n \<leftarrow> sub_p (length p) 1; Some (take n p) }
   }"

type_synonym log_call = "GlobalValues \<times> LogRecord"

fun log_calls :: "'d Mmio \<Rightarrow> PL011 \<Rightarrow> log_call list \<Rightarrow> Logger \<Rightarrow> 'd \<Rightarrow> (Logger \<times> 'd) panics" where
  "log_calls mm u [] l d = Some (l, d)"
| "log_calls mm u ((g, r) # rs) l d = do {
     (l, d) \<leftarrow> logger_log (pl011_accept mm u) True (unat (gv_timer_counter g)) (unat (gv_core_id g)) r l d;
     log_calls mm u rs l d
   }"

definition init_logging :: "'d Mmio \<Rightarrow> ByteOrder \<Rightarrow> bool \<Rightarrow> (bytes \<Rightarrow> bytes option \<Rightarrow> log_call list) \<Rightarrow> DeviceTree \<Rightarrow>
    (Logger \<times> PL011) option \<Rightarrow> 'd \<Rightarrow> ((Logger \<times> PL011) \<times> 'd) panics" where
  "init_logging mm bo set_logger_ok messages dt LOGGER d = do {
     path \<leftarrow> stdout_device_path bo dt;
     uart \<leftarrow> pl011_from_device_tree bo dt path;
     uart \<leftarrow> uart;
     let (l, u) = (case LOGGER of None \<Rightarrow> (logger_new NUM_CHUNKS_IN_BUFFER LevelFilter_max, uart) | Some x \<Rightarrow> x);
     assert_p set_logger_ok;
     model \<leftarrow> find_property bo dt ''/model'';
     (l, d) \<leftarrow> log_calls mm u (messages path (Option.bind model into_string)) l d;
     Some ((l, u), d)
   }"

section \<open>Properties\<close>

definition text_of :: "log_call \<Rightarrow> bytes" where
  "text_of gr = concat (record_pieces (unat (gv_timer_counter (fst gr))) (unat (gv_core_id (fst gr))) (snd gr))"

lemma accept_concat: "fold (pl011_accept mm u) yss d = pl011_write_str mm u (concat yss) d"
  by (induction yss arbitrary: d) (simp_all add: pl011_accept_def pl011_write_str_def)

lemma write_str_append: "pl011_write_str mm u (xs @ ys) d = pl011_write_str mm u ys (pl011_write_str mm u xs d)"
  by (simp add: pl011_write_str_def)

lemma log_calls_delivered:
  assumes "ready l []" and "overflow_count l = 0" and "level_filter l = LevelFilter_max"
    and "\<forall>x \<in> set rs. length (text_of x) + MAX_LOG_CHUNK_SIZE \<le> MAX_LOG_CHUNK_SIZE * (length (buffer l) div 3)"
    and "read_index l + (length rs + 1) * length (buffer l) < 2 ^ 64"
  shows "\<exists>l'. log_calls mm u rs l d = Some (l', pl011_write_str mm u (concat (map text_of rs)) d) \<and> ready l' [] \<and> overflow_count l' = 0 \<and>
    level_filter l' = LevelFilter_max \<and> length (buffer l') = length (buffer l)"
  using assms
proof (induction rs arbitrary: l d)
  case Nil
  then show ?case by (simp add: pl011_write_str_def)
next
  case (Cons x rs)
  obtain g r where x: "x = (g, r)" by fastforce
  have lv: "level_rank (rec_level r) \<le> level_filter l" unfolding Cons.prems(3) by (cases "rec_level r") (simp_all add: LevelFilter_max_def)
  have sz: "length (concat (record_pieces (unat (gv_timer_counter g)) (unat (gv_core_id g)) r)) + MAX_LOG_CHUNK_SIZE
      \<le> MAX_LOG_CHUNK_SIZE * (length (buffer l) div 3)" using Cons.prems(4) by (simp add: x text_of_def)
  have ri: "read_index l + 2 * length (buffer l) < 2 ^ 64" using Cons.prems(5) by simp
  obtain l1 yss where l1: "logger_log (pl011_accept mm u) True (unat (gv_timer_counter g)) (unat (gv_core_id g)) r l d =
      Some (l1, fold (pl011_accept mm u) yss d)" "concat yss = concat (record_pieces (unat (gv_timer_counter g)) (unat (gv_core_id g)) r)"
    "ready l1 []" "overflow_count l1 = 0" "level_filter l1 = level_filter l" "length (buffer l1) = length (buffer l)"
    "read_index l1 \<le> read_index l + length (buffer l)"
    by (rule log_drained [OF Cons.prems(1,2) lv sz ri])
  have "\<exists>l'. log_calls mm u rs l1 (fold (pl011_accept mm u) yss d) =
      Some (l', pl011_write_str mm u (concat (map text_of rs)) (fold (pl011_accept mm u) yss d)) \<and> ready l' [] \<and> overflow_count l' = 0 \<and>
      level_filter l' = LevelFilter_max \<and> length (buffer l') = length (buffer l1)"
    using Cons.prems l1 by (intro Cons.IH) simp_all
  then show ?case using l1(1,2,6) unfolding accept_concat by (auto simp: x text_of_def [of "(g, r)"] write_str_append)
qed

lemma pl011_reg:
  assumes "filter (\<lambda>p. fst p = ''reg'') ps = [(''reg'', Reg r)]" and "registers_next bo r 0 = Some (Some (a, n), i)" and "phys_from_usize a = Some q"
  shows "for_each (pl011_property bo) ps b = Some (Inr (Some q))"
proof -
  have other: "for_each (pl011_property bo) xs b = Some (Inr b)" if "[] = filter (\<lambda>p. fst p = ''reg'') xs" for xs b
    using that by (induction xs arbitrary: b) (auto simp: pl011_property_def split: if_splits)
  obtain us vs where ps: "ps = us @ (''reg'', Reg r) # vs" "\<forall>u \<in> set us. fst u \<noteq> ''reg''" "[] = filter (\<lambda>p. fst p = ''reg'') vs"
    using assms(1) by (auto simp: filter_eq_Cons_iff)
  have app: "for_each (pl011_property bo) (us @ ws) b = for_each (pl011_property bo) ws b" for ws b
    using ps(2) by (induction us arbitrary: b) (auto simp: pl011_property_def split: if_splits)
  show ?thesis unfolding ps(1) app using assms(2,3) other [OF ps(3)] by (simp add: pl011_property_def)
qed

lemma pl011_found:
  assumes "holds_tree dt root" and "node_at root p = Some y" and "filter (\<lambda>p. fst p = ''reg'') (values_of y) = [(''reg'', Reg r)]"
    and "registers_next BigEndian r 0 = Some (Some (a, n), i)" and "phys_from_usize a = Some q"
  shows "pl011_from_device_tree BigEndian dt p = Some (Some \<lparr> base_address = ptr_from_phys q \<rparr>)"
proof -
  obtain it where it: "iter_node_properties BigEndian dt p = Some (Some it)" "properties_from BigEndian dt it = Some (values_of y)"
    using iter_node_properties_tree [OF assms(1), of p] assms(2) by auto
  show ?thesis using it(1) pl011_reg [OF assms(3-5)] by (simp add: pl011_from_device_tree_def for_each_property_list [OF it(2)])
qed

text \<open>The value of the property \<^verbatim>\<open>/model\<close>.\<close>

definition board_model :: "node \<Rightarrow> bytes option" where
  "board_model root = (case node_at root ''/'' of None \<Rightarrow> None | Some x \<Rightarrow> Option.bind (map_of (values_of x) ''model'') into_string)"

lemma init_logging_found:
  assumes "stdout_device_path bo dt = Some p" and "pl011_from_device_tree bo dt p = Some (Some u)" and "find_property bo dt ''/model'' = Some v"
    and "\<forall>x \<in> set (messages p (Option.bind v into_string)). length (text_of x) \<le> 41 * MAX_LOG_CHUNK_SIZE"
    and "length (messages p (Option.bind v into_string)) < 2 ^ 56"
  obtains l where "init_logging mm bo True messages dt None d =
      Some ((l, u), pl011_write_str mm u (concat (map text_of (messages p (Option.bind v into_string)))) d)" "ready l []"
proof -
  let ?rs = "messages p (Option.bind v into_string)" and ?l = "logger_new NUM_CHUNKS_IN_BUFFER LevelFilter_max"
  have "ready ?l []" "overflow_count ?l = 0" "level_filter ?l = LevelFilter_max"
    "\<forall>x \<in> set ?rs. length (text_of x) + MAX_LOG_CHUNK_SIZE \<le> MAX_LOG_CHUNK_SIZE * (length (buffer ?l) div 3)"
    "read_index ?l + (length ?rs + 1) * length (buffer ?l) < 2 ^ 64"
    using logger_new_ready [of NUM_CHUNKS_IN_BUFFER] assms(4,5)
    by (auto simp: logger_new_def NUM_CHUNKS_IN_BUFFER_def MAX_LOG_CHUNK_SIZE_def)
  from log_calls_delivered [OF this, of mm u d] obtain l where
    "log_calls mm u ?rs ?l d = Some (l, pl011_write_str mm u (concat (map text_of ?rs)) d)" "ready l []" by blast
  then show thesis using assms(1-3) that by (simp add: init_logging_def)
qed

text \<open>C13: the setup of the log finds the serial port that the device tree names as the standard output, and
  everything it logs, when no record takes more than a third of the ring, arrives
  at the port, byte by byte and in order; afterwards the ring is empty.\<close>

theorem init_logging_delivers:
  assumes "big_endian bo" and "holds_tree dt root"
    and "node_at root ''/chosen/'' = Some x" and "map_of (values_of x) ''stdout-path'' = Some (Bytes (p @ [nul]))"
    and "node_at root p = Some y" and "filter (\<lambda>p. fst p = ''reg'') (values_of y) = [(''reg'', Reg r)]"
    and "registers_next bo r 0 = Some (Some (a, n), i)" and "a < 0xffff000000000000"
    and "\<forall>x \<in> set (messages p (board_model root)). length (text_of x) \<le> 41 * MAX_LOG_CHUNK_SIZE"
    and "length (messages p (board_model root)) < 2 ^ 56"
  shows "\<exists>l. init_logging mm bo True messages dt None d =
      Some ((l, \<lparr> base_address = ptr_from_phys a \<rparr>),
        pl011_write_str mm \<lparr> base_address = ptr_from_phys a \<rparr> (concat (map text_of (messages p (board_model root)))) d) \<and> ready l []"
proof -
  let ?u = "\<lparr> base_address = ptr_from_phys a \<rparr>"
  note bo = big_endian_eq [THEN iffD1, OF assms(1)]
  have "find_property BigEndian dt ''/chosen/stdout-path'' = Some (Some (Bytes (p @ [nul])))"
    using find_property_tree [OF assms(2), of "''stdout-path''" "''/chosen''"] assms(3,4) by simp
  then have path: "stdout_device_path BigEndian dt = Some p" by (simp add: stdout_device_path_def into_bytes_def sub_p_def)
  have model: "find_property BigEndian dt ''/model'' =
      Some (case node_at root ''/'' of None \<Rightarrow> None | Some x \<Rightarrow> map_of (values_of x) ''model'')"
    using find_property_tree [OF assms(2), of "''model''" "[]"] by simp
  have bm: "Option.bind (case node_at root ''/'' of None \<Rightarrow> None | Some x \<Rightarrow> map_of (values_of x) ''model'') into_string = board_model root"
    by (simp add: board_model_def split: option.split)
  have u: "pl011_from_device_tree BigEndian dt p = Some (Some ?u)"
    by (rule pl011_found [OF assms(2,5,6) assms(7) [unfolded bo]]) (use assms(8) in \<open>simp add: phys_from_usize_def\<close>)
  have "\<forall>x \<in> set (messages p (board_model root)). length (text_of x) \<le> 41 * MAX_LOG_CHUNK_SIZE" "length (messages p (board_model root)) < 2 ^ 56"
    by (fact assms(9,10))+
  from init_logging_found [OF path u model, of messages mm d, unfolded bm, OF this] show ?thesis unfolding bo by metis
qed

text \<open>A port that keeps the bytes it gets.\<close>

definition byte_port :: "nat list Mmio" where
  "byte_port = \<lparr> mm_read32 = (\<lambda>a d. (0, d)), mm_write32 = (\<lambda>a v d. d), mm_write8 = (\<lambda>a v d. d @ [v]) \<rparr>"

definition message_example :: "bytes \<Rightarrow> bytes option \<Rightarrow> log_call list" where
  "message_example path model = [(global_values_read 10 0x80000000, record_example)]"

lemma byte_port_text: "pl011_write_str byte_port u s d = d @ map of_char s"
  by (induction s arbitrary: d) (simp_all add: pl011_write_str_def byte_port_def)

lemma message_example_text: "map text_of (message_example p m) = [concat (record_pieces 10 0 record_example)]"
  by (simp add: message_example_def text_of_def global_values_read_def)

lemma message_example_short: "\<forall>x \<in> set (message_example p m). length (text_of x) \<le> 41 * MAX_LOG_CHUNK_SIZE"
  "length (message_example p m) < 2 ^ 56"
  using record_example_length by (simp_all add: message_example_def text_of_def global_values_read_def MAX_LOG_CHUNK_SIZE_def)

lemma virt_stdout:
  "node_at virt_tree ''/chosen/'' = Some (virt_chosen, Some 2, Some 2)"
  "map_of (values_of (virt_chosen, Some 2, Some 2)) ''stdout-path'' = Some (Bytes (''/pl011@9000000'' @ [nul]))"
  "filter (\<lambda>p. fst p = ''reg'') (values_of (virt_uart, Some 2, Some 2)) =
     [(''reg'', Reg \<lparr> reg_data = be64 0x9000000 @ be64 0x1000, address_cells = 2, size_cells = 2 \<rparr>)]"
  "registers_next BigEndian \<lparr> reg_data = be64 0x9000000 @ be64 0x1000, address_cells = 2, size_cells = 2 \<rparr> 0 =
     Some (Some (0x9000000, 0x1000), 16)"
proof -
  show "node_at virt_tree ''/chosen/'' = Some (virt_chosen, Some 2, Some 2)" by (simp add: node_at_def virt_defs set_cells_def)
  show "map_of (values_of (virt_chosen, Some 2, Some 2)) ''stdout-path'' = Some (Bytes (''/pl011@9000000'' @ [nul]))"
    by (simp add: value_defs virt_chosen_def)
  show "filter (\<lambda>p. fst p = ''reg'') (values_of (virt_uart, Some 2, Some 2)) =
     [(''reg'', Reg \<lparr> reg_data = be64 0x9000000 @ be64 0x1000, address_cells = 2, size_cells = 2 \<rparr>)]"
    by (simp add: value_defs virt_uart_def)
  show "registers_next BigEndian \<lparr> reg_data = be64 0x9000000 @ be64 0x1000, address_cells = 2, size_cells = 2 \<rparr> 0 =
     Some (Some (0x9000000, 0x1000), 16)"
    using registers_next_2_2 [of 0 "be64 0x9000000 @ be64 0x1000" "0x9000000" "0x1000" "[]"] by simp
qed

theorem init_logging_delivers_witness:
  "\<exists>l. init_logging byte_port BigEndian True message_example virt_blob None [] =
      Some ((l, \<lparr> base_address = 0xffff000009000000 \<rparr>), map of_char (concat (record_pieces 10 0 record_example))) \<and> ready l []"
proof -
  have "(0x9000000 :: nat) < 0xffff000000000000" by simp
  from init_logging_delivers [where messages = message_example and mm = byte_port and d = "[]",
      OF BigEndian_reads virt_blob_tree virt_stdout(1,2) virt_node_at(6) virt_stdout(3,4) this message_example_short]
  show ?thesis by (simp add: ptr_from_phys_add byte_port_text message_example_text)
qed

end
