(* ===== verification/Machine_Tree.thy ===== *)
theory Machine_Tree
  imports Kernel_Init Memory_Init Uart
begin

text \<open>
  The machine that a device tree describes.  The record \<open>Machine\<close> has what the kernel needs to know; \<open>describes\<close> says
  what properties with which bytes the nodes of the tree must have, as the specification of device trees and the bindings of
  the devices define them.  The lemmas show that the searches of the kernel, each on a blob that holds such a tree,
  find what the tree says.
\<close>

section \<open>Blobs\<close>

text \<open>The bytes of a blob: the header, the reserved memory, the structure and the strings.\<close>

definition enc_header :: "bytes \<Rightarrow> bytes \<Rightarrow> bytes \<Rightarrow> bytes" where
  "enc_header rsv st strs = be32 0xd00dfeed @ be32 (40 + length rsv + length st + length strs) @ be32 (40 + length rsv) @
     be32 (40 + length rsv + length st) @ be32 40 @ be32 17 @ be32 16 @ be32 0 @ be32 (length strs) @ be32 (length st)"

definition enc_blob :: "bytes \<Rightarrow> bytes \<Rightarrow> bytes \<Rightarrow> bytes" where
  "enc_blob rsv st strs = enc_header rsv st strs @ rsv @ st @ strs"

definition blob_of_tree :: "node \<Rightarrow> bytes \<Rightarrow> bool" where
  "blob_of_tree tr bs \<longleftrightarrow> node_ok tr \<and> length bs < 2 ^ 32 \<and>
     (\<exists>rsv strs no ts k. bs = enc_blob rsv (enc_structure no ts k) strs \<and> map snd ts = node_tokens tr \<and>
       (\<forall>(n, t) \<in> set ts. token_ok strs no t))"

lemma enc_header_fields:
  assumes "40 + length rsv + length st + length strs < 2 ^ 32"
  shows "magic BigEndian \<lparr> buf = enc_header rsv st strs \<rparr> = Some 0xd00dfeed"
    "total_size BigEndian \<lparr> buf = enc_header rsv st strs \<rparr> = Some (40 + length rsv + length st + length strs)"
    "off_dt_struct BigEndian \<lparr> buf = enc_header rsv st strs \<rparr> = Some (40 + length rsv)"
    "off_dt_strings BigEndian \<lparr> buf = enc_header rsv st strs \<rparr> = Some (40 + length rsv + length st)"
    "off_mem_rsvmap BigEndian \<lparr> buf = enc_header rsv st strs \<rparr> = Some 40"
    "size_dt_strings BigEndian \<lparr> buf = enc_header rsv st strs \<rparr> = Some (length strs)"
    "size_dt_structs BigEndian \<lparr> buf = enc_header rsv st strs \<rparr> = Some (length st)"
  using assms
  by (simp_all add: magic_def total_size_def off_dt_struct_def off_dt_strings_def off_mem_rsvmap_def
      size_dt_strings_def size_dt_structs_def header_field_def enc_header_def be_value_be32)

lemma length_enc_blob: "length (enc_blob rsv st strs) = 40 + length rsv + length st + length strs"
  by (simp add: enc_blob_def enc_header_def)

text \<open>Opening a blob in memory gives the tree back, with the region that the blob takes.\<close>

lemma from_memory_tree:
  assumes "blob_of_tree tr bs" and "map memory [ptr..<ptr + length bs] = bs"
  obtains dt where "from_memory BigEndian memory ptr = Some dt" "holds_tree dt tr" "memory_region BigEndian dt = Some (ptr, length bs)"
proof -
  obtain rsv strs no ts k where b: "node_ok tr" "length bs < 2 ^ 32" "bs = enc_blob rsv (enc_structure no ts k) strs"
    "map snd ts = node_tokens tr" "\<forall>(n, t) \<in> set ts. token_ok strs no t"
    using assms(1) by (auto simp: blob_of_tree_def)
  define st where "st = enc_structure no ts k"
  let ?h = "enc_header rsv st strs"
  have e: "bs = ?h @ rsv @ st @ strs" "length ?h = 40" using b(3) by (simp_all add: st_def enc_blob_def enc_header_def)
  have len: "length bs = 40 + length rsv + length st + length strs" using e by simp
  note f = enc_header_fields [OF b(2) [unfolded len]]
  have "map memory [ptr..<ptr + 40] = take 40 (map memory [ptr..<ptr + length bs])"
    by (simp add: take_map take_upt len)
  also have "\<dots> = ?h" unfolding assms(2) using e by simp
  finally have h: "map memory [ptr..<ptr + HEADER_SIZE] = ?h" by (simp add: HEADER_SIZE_def)
  have sl: "slice bs 40 (40 + length rsv) = Some rsv" "slice bs (40 + length rsv) (40 + length rsv + length st) = Some st"
    "slice bs (40 + length rsv + length st) (40 + length rsv + length st + length strs) = Some strs"
    unfolding e(1) using e(2) by simp_all
  let ?dt = "\<lparr> dt_header = \<lparr> buf = ?h \<rparr>, dt_address = ptr, dt_strings = strs, dt_structure = st, mem_map = rsv \<rparr>"
  show thesis
  proof (rule that)
    show "from_memory BigEndian memory ptr = Some ?dt"
      unfolding from_memory_def h Let_def f(2) bind.bind_lunit assms(2) [unfolded len]
      using sl by (simp add: from_bytes_and_header_def f HEADER_EXPECTED_MAGIC_def len)
    show "holds_tree ?dt tr" unfolding holds_tree_def using b(1,4,5) st_def
      by (intro conjI exI [of _ no] exI [of _ ts] exI [of _ k] exI [of _ "[]"]) simp_all
    show "memory_region BigEndian ?dt = Some (ptr, length bs)" using f(2) by (simp add: memory_region_def len)
  qed
qed

section \<open>The description\<close>

record Machine =
  ram_start :: nat
  ram_size :: nat
  console_path :: bytes
  console_base :: nat
  gic_distributor :: nat
  gic_cpu :: nat
  timer_interrupt_spec :: "nat \<times> nat \<times> nat"
  power_method :: CallingMethod
  power_cpu_on :: "nat option"
  core_ids :: "nat list"

definition describes_console :: "node \<Rightarrow> Machine \<Rightarrow> bool" where
  "describes_console tr mc \<longleftrightarrow> (\<exists>n cells port ac sc size rest.
     node_at tr ''/chosen'' = Some (n, cells) \<and> prop_of n ''stdout-path'' = Some (console_path mc @ [nul]) \<and>
     node_at tr (console_path mc) = Some (port, ac, sc) \<and> unambiguous port \<and>
     prop_of port ''reg'' = Some (enc_region (unwrap_or ac 2, unwrap_or sc 1) (console_base mc, size) @ rest) \<and>
     region_fits (unwrap_or ac 2, unwrap_or sc 1) (console_base mc, size) \<and> console_base mc < 0xffff000000000000)"

definition models :: "bytes list \<Rightarrow> node \<Rightarrow> bool" where
  "models supported n \<longleftrightarrow> (\<exists>ss. prop_of n ''compatible'' = Some (enc_strings ss) \<and> (\<forall>s \<in> set ss. nul \<notin> set s) \<and>
     set ss \<inter> set supported \<noteq> {})"

definition describes_gic :: "node \<Rightarrow> Machine \<Rightarrow> bool" where
  "describes_gic tr mc \<longleftrightarrow> (\<exists>n ns dsize csize rest. filter (named ''intc'') (children tr) = n # ns \<and> unambiguous n \<and>
     models gic_compatible n \<and> prop_of n ''#interrupt-cells'' = Some (be32 3) \<and> prop_of n ''interrupt-controller'' \<noteq> None \<and>
     prop_of n ''reg'' = Some (enc_region (cells_below tr (None, None)) (gic_distributor mc, dsize) @
       enc_region (cells_below tr (None, None)) (gic_cpu mc, csize) @ rest) \<and>
     region_fits (cells_below tr (None, None)) (gic_distributor mc, dsize) \<and> region_fits (cells_below tr (None, None)) (gic_cpu mc, csize) \<and>
     0 < gic_distributor mc \<and> gic_distributor mc < 0xffff000000000000 \<and> 0 < gic_cpu mc \<and> gic_cpu mc < 0xffff000000000000)"

definition describes_timer :: "node \<Rightarrow> Machine \<Rightarrow> bool" where
  "describes_timer tr mc \<longleftrightarrow> (\<exists>n cells secure rest. node_at tr ''/timer'' = Some (n, cells) \<and> unambiguous n \<and>
     models timer_compatible n \<and> prop_of n ''interrupts'' = Some (enc_interrupts (secure # timer_interrupt_spec mc # rest)) \<and>
     (\<forall>(t, i, f) \<in> set (secure # timer_interrupt_spec mc # rest). t < 2 ^ 32 \<and> i < 2 ^ 32) \<and>
     (case timer_interrupt_spec mc of (t, i, f) \<Rightarrow> t \<le> 1 \<and> i + 32 < 2 ^ 32 \<and> f mod 256 \<in> {1, 2, 4, 8}))"

definition describes_power :: "node \<Rightarrow> Machine \<Rightarrow> bool" where
  "describes_power tr mc \<longleftrightarrow> (\<exists>n cells. node_at tr ''/psci'' = Some (n, cells) \<and> unambiguous n \<and>
     prop_of n ''method'' = Some ((case power_method mc of Hvc \<Rightarrow> ''hvc'' | Smc \<Rightarrow> ''smc'') @ [nul]) \<and>
     prop_of n ''cpu_on'' = map_option be32 (power_cpu_on mc) \<and> (\<forall>f. power_cpu_on mc = Some f \<longrightarrow> f < 2 ^ 32))"

definition describes_cores :: "node \<Rightarrow> Machine \<Rightarrow> bool" where
  "describes_cores tr mc \<longleftrightarrow> (\<exists>n cells. node_at tr ''/cpus'' = Some (n, cells) \<and>
     list_all2 (\<lambda>c i. unambiguous c \<and> prop_of c ''reg'' = Some (enc_region (cells_below n cells) (i, 0)) \<and>
         region_fits (cells_below n cells) (i, 0) \<and> prop_of c ''enable-method'' = Some (''psci'' @ [nul]))
       (filter (named ''cpu'') (children n)) (core_ids mc))"

definition describes :: "node \<Rightarrow> Machine \<Rightarrow> bool" where
  "describes tr mc \<longleftrightarrow> label tr = [] \<and> describes_ram tr (ram_start mc) (ram_size mc) \<and> describes_console tr mc \<and> describes_gic tr mc \<and>
     describes_timer tr mc \<and> describes_power tr mc \<and> describes_cores tr mc"

text \<open>What the drivers make of it.\<close>

definition machine_gic :: "Machine \<Rightarrow> GenericV2" where
  "machine_gic mc = \<lparr> distributor_base = ptr_from_phys (gic_distributor mc), cpu_base = ptr_from_phys (gic_cpu mc) \<rparr>"

definition machine_timer :: "Machine \<Rightarrow> SysRegs \<Rightarrow> Timer" where
  "machine_timer mc r = (case timer_interrupt_spec mc of (t, i, f) \<Rightarrow>
     \<lparr> int_id = (if t = 0 then 32 else 16) + i,
       int_config = \<lparr> priority = 0, mode = (if f mod 256 \<in> {1, 2} then Edge else Level) \<rparr>,
       reset_value = CNTFRQ_EL0 r div TIMER_INTERVAL \<rparr>)"

definition machine_psci :: "Machine \<Rightarrow> Psci" where
  "machine_psci mc = \<lparr> calling_method = power_method mc, func_id_cpu_on = unwrap_or (power_cpu_on mc) FUNC_ID_CPU_ON \<rparr>"

definition machine_cores :: "Machine \<Rightarrow> CoreInfo list" where
  "machine_cores mc = map (\<lambda>i. \<lparr> core_id = i, enable_method = ''psci'' @ [nul] \<rparr>) (core_ids mc)"

definition machine_uart :: "Machine \<Rightarrow> PL011" where
  "machine_uart mc = \<lparr> base_address = ptr_from_phys (console_base mc) \<rparr>"

section \<open>Finding the parts\<close>

lemma models_supported:
  assumes "models supported n"
  shows "\<exists>b. map_of (values_of (n, c)) ''compatible'' = Some (StringList b) \<and> supported_strings supported (StringList b)"
proof -
  obtain ss where ss: "prop_of n ''compatible'' = Some (enc_strings ss)" "\<forall>s \<in> set ss. nul \<notin> set s" "set ss \<inter> set supported \<noteq> {}"
    using assms by (auto simp: models_def)
  have "map_of (values_of (n, c)) ''compatible'' = Some (StringList (enc_strings ss))"
    using ss(1) by (cases c) (simp add: values_lookup prop_value_def parse_value_def)
  moreover have "supported_strings supported (StringList (enc_strings ss))"
    using strings_roundtrip [OF ss(2)] ss(3) by (auto simp: supported_strings_def)
  ultimately show ?thesis by blast
qed

lemma node_at_chosen: "node_at tr ''/chosen/'' = node_at tr ''/chosen''"
  by (simp add: node_at_def split: option.split)

lemma console_found:
  assumes "holds_tree dt tr" and "describes_console tr mc"
  shows "stdout_device_path BigEndian dt = Some (console_path mc)"
    and "pl011_from_device_tree BigEndian dt (console_path mc) = Some (Some (machine_uart mc))"
    and "\<exists>v. find_property BigEndian dt ''/model'' = Some v \<and> Option.bind v into_string = board_model tr"
proof -
  obtain n ac0 sc0 port ac sc size rest where c: "node_at tr ''/chosen'' = Some (n, ac0, sc0)" "prop_of n ''stdout-path'' = Some (console_path mc @ [nul])"
    "node_at tr (console_path mc) = Some (port, ac, sc)" "unambiguous port"
    "prop_of port ''reg'' = Some (enc_region (unwrap_or ac 2, unwrap_or sc 1) (console_base mc, size) @ rest)"
    "region_fits (unwrap_or ac 2, unwrap_or sc 1) (console_base mc, size)" "console_base mc < 0xffff000000000000"
    using assms(2) by (auto simp: describes_console_def)
  have "find_property BigEndian dt ''/chosen/stdout-path'' = Some (Some (Bytes (console_path mc @ [nul])))"
    using find_property_tree [OF assms(1), of "''stdout-path''" "''/chosen''"] c(1,2) by (simp add: node_at_chosen values_lookup prop_value_bytes)
  then show "stdout_device_path BigEndian dt = Some (console_path mc)" by (simp add: stdout_device_path_def into_bytes_def sub_p_def)
  let ?r = "\<lparr> reg_data = enc_region (unwrap_or ac 2, unwrap_or sc 1) (console_base mc, size) @ rest, address_cells = unwrap_or ac 2, size_cells = unwrap_or sc 1 \<rparr>"
  have "filter (\<lambda>p. fst p = ''reg'') (values_of (port, ac, sc)) = [(''reg'', Reg ?r)]"
  proof (rule filter_key)
    show "map_of (values_of (port, ac, sc)) ''reg'' = Some (Reg ?r)" using c(5) by (simp add: values_lookup prop_value_reg)
    show "distinct (map fst (values_of (port, ac, sc)))" using c(4) by (simp add: values_names unambiguous_def)
  qed
  from pl011_found [OF assms(1) c(3) this, of "console_base mc"] show "pl011_from_device_tree BigEndian dt (console_path mc) = Some (Some (machine_uart mc))"
    using region_next [OF c(6), of "[]" rest] c(7) by (simp add: machine_uart_def phys_from_usize_def)
  show "\<exists>v. find_property BigEndian dt ''/model'' = Some v \<and> Option.bind v into_string = board_model tr"
    using find_property_tree [OF assms(1), of "''model''" "[]"] by (simp add: board_model_def split: option.split)
qed

lemma be32_3: "be32 3 = [nul, nul, nul, CHR 0x03]"
  by (simp add: be32_def char_of_def bit_numeral_rec bit_Suc_0_iff)

lemma gic_found:
  assumes "holds_tree dt tr" and "label tr = []" and "describes_gic tr mc"
  obtains it i it' where "iter_nodes_named BigEndian dt ''/'' ''intc'' = Some (Some it)" "nodes_named_next BigEndian dt it = Some (Some i, it')"
    "gic_in_device_tree BigEndian dt (properties i) = Some (Inr (machine_gic mc))"
proof -
  obtain ac sc where cs: "cells_below tr (None, None) = (ac, sc)" by (cases "cells_below tr (None, None)") auto
  obtain n ns dsize csize rest where n: "filter (named ''intc'') (children tr) = n # ns" "unambiguous n"
    "models gic_compatible n" "prop_of n ''#interrupt-cells'' = Some (be32 3)" "prop_of n ''interrupt-controller'' \<noteq> None"
    "prop_of n ''reg'' = Some (enc_region (ac, sc) (gic_distributor mc, dsize) @ enc_region (ac, sc) (gic_cpu mc, csize) @ rest)"
    "region_fits (ac, sc) (gic_distributor mc, dsize)" "region_fits (ac, sc) (gic_cpu mc, csize)"
    "0 < gic_distributor mc" "gic_distributor mc < 0xffff000000000000" "0 < gic_cpu mc" "gic_cpu mc < 0xffff000000000000"
    using assms(3) unfolding describes_gic_def cs by blast
  obtain it i it' where i: "iter_nodes_named BigEndian dt ''/'' ''intc'' = Some (Some it)" "nodes_named_next BigEndian dt it = Some (Some i, it')"
    "properties_from BigEndian dt (properties i) = Some (values_of (n, Some ac, Some sc))"
    by (rule first_child_found [OF assms(1,2) cs n(1)]) auto
  let ?ps = "values_of (n, Some ac, Some sc)"
  let ?d = "enc_region (ac, sc) (gic_distributor mc, dsize) @ enc_region (ac, sc) (gic_cpu mc, csize) @ rest"
  let ?r = "Reg \<lparr> reg_data = ?d, address_cells = ac, size_cells = sc \<rparr>"
  have r: "gic_regions BigEndian ?r = Some (gic_distributor mc, gic_cpu mc)"
    using region_next [OF n(7), of "[]" "enc_region (ac, sc) (gic_cpu mc, csize) @ rest"]
      region_next [OF n(8), of "enc_region (ac, sc) (gic_distributor mc, dsize)" rest] n(10,12)
    by (simp add: gic_regions_def phys_from_usize_def)
  have ic: "''interrupt-controller'' \<in> fst ` set ?ps"
    using n(5) unfolding set_map [symmetric] values_names by (auto simp: map_of_eq_None_iff)
  obtain b where b: "map_of ?ps ''compatible'' = Some (StringList b)" "supported_strings gic_compatible (StringList b)"
    using models_supported [OF n(3)] by blast
  have l: "map_of ?ps ''reg'' = Some ?r" "map_of ?ps ''#interrupt-cells'' = Some (Bytes (be32 3))"
    using n(4,6) by (simp_all add: values_lookup prop_value_reg prop_value_bytes unwrap_or_def)
  have "gic_accepts BigEndian p" if "p \<in> set ?ps" for p
  proof -
    obtain name v where p: "p = (name, v)" by (cases p)
    have "map_of ?ps name = Some v" using that values_unambiguous(2) [OF n(2)] unfolding p by blast
    then show ?thesis unfolding p gic_accepts_def using b l r by (auto simp: be32_3)
  qed
  then have "gic_in_device_tree BigEndian dt (properties i) = Some (Inr (machine_gic mc))"
    unfolding gic_in_device_tree_iff [OF i(3)] values_unambiguous(1) [OF n(2)] using l(1) ic r n(9,11) by (auto simp: machine_gic_def)
  then show thesis using that i(1,2) by blast
qed

lemma timer_found:
  assumes "holds_tree dt tr" and "describes_timer tr mc"
  obtains it where "iter_node_properties BigEndian dt ''/timer'' = Some (Some it)"
    "\<And>d. \<exists>d'. timer_in_device_tree BigEndian dt it (gic_controller mm BigEndian g) TIMER_INTERVAL r d = Some (Inr (machine_timer mc r), d')"
proof -
  obtain n ac sc secure rest where n: "node_at tr ''/timer'' = Some (n, ac, sc)" "unambiguous n" "models timer_compatible n"
    "prop_of n ''interrupts'' = Some (enc_interrupts (secure # timer_interrupt_spec mc # rest))"
    "\<forall>(t, i, f) \<in> set (secure # timer_interrupt_spec mc # rest). t < 2 ^ 32 \<and> i < 2 ^ 32"
    "case timer_interrupt_spec mc of (t, i, f) \<Rightarrow> t \<le> 1 \<and> i + 32 < 2 ^ 32 \<and> f mod 256 \<in> {1, 2, 4, 8}"
    using assms(2) by (auto simp: describes_timer_def)
  obtain t i f where s: "timer_interrupt_spec mc = (t, i, f)" by (cases "timer_interrupt_spec mc")
  obtain it where it: "iter_node_properties BigEndian dt ''/timer'' = Some (Some it)" "properties_from BigEndian dt it = Some (values_of (n, ac, sc))"
    using iter_node_properties_tree [OF assms(1), of "''/timer''"] n(1) by auto
  let ?ps = "values_of (n, ac, sc)" and ?b = "enc_interrupts (secure # timer_interrupt_spec mc # rest)"
  let ?i = "(if t = 0 then 32 else 16) + i" and ?m = "if f mod 256 \<in> {1, 2} then Edge else Level"
  have d: "gic_interrupt_in_device_tree BigEndian ?b 1 = Some (Some (?i, ?m))"
  proof -
    have "gic_interrupt_in_device_tree BigEndian ?b 1 = gic_decode (t, i, f)"
      using gic_interrupt_enc [OF BigEndian_reads n(5), of 1] s by simp
    then show ?thesis using n(6) s by (auto simp: gic_decode_def)
  qed
  obtain b where b: "map_of ?ps ''compatible'' = Some (StringList b)" "supported_strings timer_compatible (StringList b)"
    using models_supported [OF n(3)] by blast
  have l: "map_of ?ps ''interrupts'' = Some (Bytes ?b)" using n(4) by (simp add: values_lookup prop_value_bytes)
  have a: "timer_accepts (gic_controller mm BigEndian g) p" if "p \<in> set ?ps" for p
  proof -
    obtain name v where p: "p = (name, v)" by (cases p)
    have "map_of ?ps name = Some v" using that values_unambiguous(2) [OF n(2)] unfolding p by blast
    then show ?thesis unfolding p timer_accepts_def using b l d by (auto simp: timer_interrupt_def gic_controller_def)
  qed
  have pos: "0 < TIMER_INTERVAL" by (simp add: TIMER_INTERVAL_def)
  have "\<exists>d'. timer_in_device_tree BigEndian dt it (gic_controller mm BigEndian g) TIMER_INTERVAL r d0 = Some (Inr (machine_timer mc r), d')" for d0
    unfolding timer_in_device_tree_exact [OF it(2) pos] values_unambiguous(1) [OF n(2)] using a l d
    by (simp add: machine_timer_def s gic_configure_def)
  then show thesis using that it(1) by blast
qed

lemma psci_found:
  assumes "holds_tree dt tr" and "describes_power tr mc"
  shows "psci_in_device_tree BigEndian dt = Some (Inr (machine_psci mc))"
proof -
  obtain n ac sc where n: "node_at tr ''/psci'' = Some (n, ac, sc)" "unambiguous n"
    "prop_of n ''method'' = Some ((case power_method mc of Hvc \<Rightarrow> ''hvc'' | Smc \<Rightarrow> ''smc'') @ [nul])"
    "prop_of n ''cpu_on'' = map_option be32 (power_cpu_on mc)" "\<forall>f. power_cpu_on mc = Some f \<longrightarrow> f < 2 ^ 32"
    using assms(2) by (auto simp: describes_power_def)
  obtain it where it: "iter_node_properties BigEndian dt ''/psci'' = Some (Some it)" "properties_from BigEndian dt it = Some (values_of (n, ac, sc))"
    using iter_node_properties_tree [OF assms(1), of "''/psci''"] n(1) by auto
  let ?ps = "values_of (n, ac, sc)"
  have l: "map_of ?ps ''method'' = Some (Bytes ((case power_method mc of Hvc \<Rightarrow> ''hvc'' | Smc \<Rightarrow> ''smc'') @ [nul]))"
    "map_of ?ps ''cpu_on'' = map_option (\<lambda>f. Bytes (be32 f)) (power_cpu_on mc)"
    using n(3,4) by (simp_all add: values_lookup prop_value_bytes option.map_comp comp_def)
  have f: "power_cpu_on mc = Some x \<Longrightarrow> psci_func BigEndian (Bytes (be32 x)) = Some x" for x
    using n(5) by (simp add: psci_func_def be_value_be32)
  have "psci_accepts BigEndian p" if "p \<in> set ?ps" for p
  proof -
    obtain name v where p: "p = (name, v)" by (cases p)
    have "map_of ?ps name = Some v" using that values_unambiguous(2) [OF n(2)] unfolding p by blast
    then show ?thesis unfolding p psci_accepts_def using l f by auto
  qed
  moreover have "psci_method (Bytes ((case power_method mc of Hvc \<Rightarrow> ''hvc'' | Smc \<Rightarrow> ''smc'') @ [nul])) = Some (power_method mc)"
    by (cases "power_method mc") (simp_all add: psci_method_def)
  ultimately show ?thesis unfolding psci_in_device_tree_exact [OF it] values_unambiguous(1) [OF n(2)] using l f
    by (auto simp: machine_psci_def unwrap_or_def split: option.split)
qed

lemma cores_found:
  assumes "holds_tree dt tr" and "describes_cores tr mc"
  shows "list_cores lossy debug BigEndian dt = Some (Inr (machine_cores mc))"
proof -
  obtain n cells where n: "node_at tr ''/cpus'' = Some (n, cells)"
    "list_all2 (\<lambda>c i. unambiguous c \<and> prop_of c ''reg'' = Some (enc_region (cells_below n cells) (i, 0)) \<and>
         region_fits (cells_below n cells) (i, 0) \<and> prop_of c ''enable-method'' = Some (''psci'' @ [nul]))
       (filter (named ''cpu'') (children n)) (core_ids mc)"
    using assms(2) by (auto simp: describes_cores_def)
  obtain ac sc where cs: "cells_below n cells = (ac, sc)" by (cases "cells_below n cells") auto
  obtain it items where i: "iter_nodes_named BigEndian dt ''/cpus'' ''cpu'' = Some (Some it)" "nodes_from BigEndian dt it = Some items"
    "list_all2 (\<lambda>i c. properties_from BigEndian dt (properties i) = Some (values_of (c, Some ac, Some sc))) items
       (filter (named ''cpu'') (children n))"
    by (rule children_found [OF assms(1) n(1) cs])
  have one: "core_described BigEndian (values_of (c, Some ac, Some sc)) \<lparr> core_id = x, enable_method = ''psci'' @ [nul] \<rparr>"
    if "unambiguous c" "prop_of c ''reg'' = Some (enc_region (ac, sc) (x, 0))" "region_fits (ac, sc) (x, 0)"
      "prop_of c ''enable-method'' = Some (''psci'' @ [nul])" for c x
  proof -
    let ?ps = "values_of (c, Some ac, Some sc)" and ?r = "Reg \<lparr> reg_data = enc_region (ac, sc) (x, 0), address_cells = ac, size_cells = sc \<rparr>"
    have l: "map_of ?ps ''reg'' = Some ?r" "map_of ?ps ''enable-method'' = Some (Bytes (''psci'' @ [nul]))"
      using that(2,4) by (simp_all add: values_lookup prop_value_reg prop_value_bytes unwrap_or_def)
    have r: "core_reg BigEndian ?r = Some x" using region_next [OF that(3), of "[]" "[]"] by (simp add: core_reg_def)
    show ?thesis unfolding core_described_def values_unambiguous(1) [OF that(1)] using l r values_unambiguous(2) [OF that(1)] by auto
  qed
  have "\<forall>x \<in> set items. properties_from BigEndian dt (properties x) = Some (the (properties_from BigEndian dt (properties x)))"
    using i(3) by (auto simp: list_all2_conv_all_nth in_set_conv_nth)
  from list_cores_exact [OF i(1,2) this] show ?thesis
    using i(3) n(2) one unfolding machine_cores_def cs by (auto simp: list_all2_conv_all_nth)
qed

section \<open>An example\<close>

definition virt_machine :: Machine where
  "virt_machine = \<lparr> ram_start = 0x40000000, ram_size = 0x8000000, console_path = ''/pl011@9000000'', console_base = 0x9000000,
     gic_distributor = 0x8000000, gic_cpu = 0x8010000, timer_interrupt_spec = (1, 14, 0x104), power_method = Hvc,
     power_cpu_on = Some 0xc4000003, core_ids = [0, 1] \<rparr>"

lemma virt_bytes_tree: "blob_of_tree virt_tree virt_bytes"
  unfolding blob_of_tree_def
proof (intro conjI, goal_cases)
  case 3
  show ?case
  proof (rule exI [of _ "replicate 16 nul"], rule exI [of _ "enc_strings virt_names"],
      intro conjI exI [of _ "name_offset virt_names"] exI [of _ "map (Pair 0) (node_tokens virt_tree)"] exI [of _ 0])
    show "virt_bytes = enc_blob (replicate 16 nul) (enc_structure (name_offset virt_names) (map (Pair 0) (node_tokens virt_tree)) 0) (enc_strings virt_names)"
      by (simp add: virt_bytes_def virt_header_def enc_blob_def enc_header_def virt_structure_def [symmetric])
    show "map snd (map (Pair 0) (node_tokens virt_tree)) = node_tokens virt_tree" by (simp add: comp_def)
    show "\<forall>(n, t) \<in> set (map (Pair 0) (node_tokens virt_tree)). token_ok (enc_strings virt_names) (name_offset virt_names) t"
      by (simp add: virt_defs virt_token_ok enc_strings_def [of "[_]"] enc_strings_def [of "[_, _]"] del: token_ok.simps(3))
  qed
qed (use virt_bytes_length in \<open>simp_all add: virt_defs prop_ok_def\<close>)

lemma virt_named:
  "filter (named ''intc'') (children virt_tree) = [virt_intc]"
  "filter (named ''cpu'') (children virt_cpus) = [virt_cpu ''cpu@0'' 0, virt_cpu ''cpu@1'' 1]"
  by (simp_all add: virt_defs named_def split_node_name_def)

lemma virt_described: "describes virt_tree virt_machine"
  unfolding describes_def
proof (intro conjI)
  show "label virt_tree = []" by (simp add: virt_tree_def)
  show "describes_ram virt_tree (ram_start virt_machine) (ram_size virt_machine)" using virt_describes_ram by (simp add: virt_machine_def)
  show "describes_console virt_tree virt_machine" unfolding describes_console_def
    by (rule exI [of _ virt_chosen], rule exI [of _ "(Some 2, Some 2)"], rule exI [of _ virt_uart], rule exI [of _ "Some 2"],
        rule exI [of _ "Some 2"], rule exI [of _ "0x1000"], rule exI [of _ "[]"])
      (simp add: virt_machine_def virt_node_at unwrap_or_def virt_regions region_fits_def unambiguous_def virt_chosen_def virt_uart_def)
  show "describes_gic virt_tree virt_machine" unfolding describes_gic_def virt_cells virt_named
    by (rule exI [of _ virt_intc], rule exI [of _ "[]"], rule exI [of _ "0x10000"], rule exI [of _ "0x10000"], rule exI [of _ "[]"])
      (simp add: virt_machine_def virt_regions region_fits_def unambiguous_def virt_intc_def models_def gic_compatible_def be32_3,
        rule exI [of _ "[''arm,cortex-a15-gic'']"], simp)
  show "describes_timer virt_tree virt_machine" unfolding describes_timer_def
    by (rule exI [of _ virt_timer], rule exI [of _ "(Some 2, Some 2)"], rule exI [of _ "(1, 13, 0x104)"], rule exI [of _ "[]"])
      (simp add: virt_machine_def virt_node_at unambiguous_def virt_timer_def models_def timer_compatible_def enc_interrupts_def,
        rule exI [of _ "[''arm,armv8-timer'', ''arm,armv7-timer'']"], simp)
  show "describes_power virt_tree virt_machine"
    by (simp add: describes_power_def virt_machine_def virt_node_at unambiguous_def virt_psci_def)
  show "describes_cores virt_tree virt_machine"
    by (simp add: describes_cores_def virt_machine_def virt_node_at virt_named virt_cells virt_regions region_fits_def unambiguous_def virt_cpu_def
        del: One_nat_def)
qed

end
