(* ===== verification/Boot.thy ===== *)
theory Boot
  imports Machine_Tree
begin

text \<open>
  The boot of the kernel as a whole: \<^verbatim>\<open>kmain\<close> of \<^verbatim>\<open>kernel/src/main.rs\<close>, which calls the initialization of every
  component in turn, up to the loop that waits for interrupts.  The state of the system puts
  together the states of the components; what is not in the sources is in the record
  \<open>Platform\<close>, together with the symbols of the linker.  Memory is in cells of 8 bytes, and \<open>byte_view\<close> is its
  contents in bytes, in the byte order of the processor.

  The messages to the log after its setup are left out, as in the components.
\<close>

section \<open>Model\<close>

record ('d, 'q, 'f) Platform =
  mmio :: "'d Mmio"
  byte_order :: ByteOrder
  seg_queue :: "'q SegQueue"
  arc_alloc :: "arcs \<Rightarrow> arc"
  fw_call :: "'f firmware"
  one_node :: "NodeItem list \<Rightarrow> NodeItem option"
  one_range :: "(nat \<times> nat) list \<Rightarrow> (nat \<times> nat) option"
  lossy_utf8 :: "bytes \<Rightarrow> string"
  debug_value :: "Value \<Rightarrow> string"
  decode_utf8 :: "bytes \<Rightarrow> string option"
  set_logger_ok :: bool
  log_messages :: "bytes \<Rightarrow> bytes option \<Rightarrow> log_call list"
  markers :: Markers
  page_table_root :: ptr
  vector_label :: ptr
  secondary_label :: ptr

record ('d, 'q, 'f) System =
  kernel :: "('d, 'q) Kernel"
  memory :: MemoryState
  LOGGER :: "(Logger \<times> PL011) option"
  VBAR_EL1 :: ptr
  firmware_state :: 'f

definition byte_view :: "mem \<Rightarrow> usize \<Rightarrow> char" where
  "byte_view m a = char_of (unat (drop_bit (8 * (a mod 8)) (m (a - a mod 8))))"

definition install_exception_vector :: "('d, 'q, 'f) Platform \<Rightarrow> ('d, 'q, 'f) System \<Rightarrow> ('d, 'q, 'f) System" where
  "install_exception_vector pf s = s\<lparr>VBAR_EL1 := vector_label pf\<rparr>"

definition kmain :: "('d, 'q, 'f) Platform \<Rightarrow> paddr \<Rightarrow> ('d, 'q, 'f) System \<Rightarrow> ('d, 'q, 'f) System panics" where
  "kmain pf device_tree_blob s = do {
     let s = s\<lparr>memory := (memory s)\<lparr>ram := zero_bss_section (markers pf) (ram (memory s))\<rparr>\<rparr>;
     let s = install_exception_vector pf s;
     device_tree \<leftarrow> from_memory (byte_order pf) (byte_view (ram (memory s))) (ptr_from_phys device_tree_blob);
     (logger, d) \<leftarrow> init_logging (mmio pf) (byte_order pf) (set_logger_ok pf) (log_messages pf) device_tree (LOGGER s) (device (kernel s));
     let k = (kernel s)\<lparr>device := d\<rparr>;
     mem \<leftarrow> memory_init (one_node pf) (one_range pf) (byte_order pf) (markers pf) (page_table_root pf) device_tree (memory s);
     cores \<leftarrow> expect (list_cores (lossy_utf8 pf) (debug_value pf) (byte_order pf) device_tree);
     k \<leftarrow> thread_init (arc_alloc pf) (seg_queue pf) cores k;
     k \<leftarrow> interrupts_init (mmio pf) (byte_order pf) device_tree k;
     pa \<leftarrow> PAGE_ALLOCATOR mem;
     (pa, m, f) \<leftarrow> init_smp (fw_call pf) (byte_order pf) (decode_utf8 pf) buddy_allocate page_size (secondary_label pf) device_tree cores
       pa (ram mem) (firmware_state s);
     let mem = mem\<lparr>PAGE_ALLOCATOR := Some pa, ram := m\<rparr>;
     let k = k\<lparr>regs := mask_write all_enabled (regs k)\<rparr>;
     Some (s\<lparr>kernel := k, memory := mem, LOGGER := Some logger, firmware_state := f\<rparr>)
   }"

text \<open>The handler for panics logs the message that the standard library passes it and does not return.  \<open>sink_free\<close> says whether the
  port is locked by the code that panicked.\<close>

definition panic_handler :: "('d, 'q, 'f) Platform \<Rightarrow> bool \<Rightarrow> log_call \<Rightarrow> ('d, 'q, 'f) System \<Rightarrow> ('d, 'q, 'f) System panics" where
  "panic_handler pf sink_free info s =
     (case LOGGER s of
        None \<Rightarrow> Some s
      | Some (l, u) \<Rightarrow> do {
          (l, d) \<leftarrow> logger_log (pl011_accept (mmio pf) u) sink_free (unat (gv_timer_counter (fst info))) (unat (gv_core_id (fst info)))
            (snd info) l (device (kernel s));
          Some (s\<lparr>kernel := (kernel s)\<lparr>device := d\<rparr>, LOGGER := Some (l, u)\<rparr>)
        })"

lemma panic_message_delivered:
  assumes "LOGGER s = Some (l, u)" and "ready l []" and "overflow_count l = 0" and "level_rank (rec_level r) \<le> level_filter l"
    and "length (text_of (g, r)) + MAX_LOG_CHUNK_SIZE \<le> MAX_LOG_CHUNK_SIZE * (length (buffer l) div 3)"
    and "read_index l + 2 * length (buffer l) < 2 ^ 64"
  shows "\<exists>s'. panic_handler pf True (g, r) s = Some s' \<and>
    device (kernel s') = pl011_write_str (mmio pf) u (text_of (g, r)) (device (kernel s))"
proof -
  have sz: "length (concat (record_pieces (unat (gv_timer_counter g)) (unat (gv_core_id g)) r)) + MAX_LOG_CHUNK_SIZE
      \<le> MAX_LOG_CHUNK_SIZE * (length (buffer l) div 3)" using assms(5) by (simp add: text_of_def)
  obtain l' yss where "logger_log (pl011_accept (mmio pf) u) True (unat (gv_timer_counter g)) (unat (gv_core_id g)) r l (device (kernel s)) =
      Some (l', fold (pl011_accept (mmio pf) u) yss (device (kernel s)))" "concat yss = concat (record_pieces (unat (gv_timer_counter g)) (unat (gv_core_id g)) r)"
    by (rule log_drained [OF assms(2-4) sz assms(6)])
  then show ?thesis using assms(1) by (simp add: panic_handler_def accept_concat text_of_def)
qed

section \<open>The boot\<close>

text \<open>A firmware whose state is the history of its calls.\<close>

definition history_fw :: "(start_call list \<Rightarrow> start_call \<Rightarrow> int) \<Rightarrow> start_call list firmware" where
  "history_fw answer w i cpu entry arg h = (answer h (cpu, entry, arg), h @ [(cpu, entry, arg)])"

lemma history_fw_pm:
  "psci_power_manager (history_fw answer) p = history_pm (''psci'' @ [nul]) (\<lambda>h c. psci_error_code_to_result (answer h c))"
  by (simp add: psci_power_manager_def history_pm_def psci_start_core_def history_fw_def fun_eq_iff)

definition kernel_fresh :: "('d, 'q) Kernel \<Rightarrow> bool" where
  "kernel_fresh k \<longleftrightarrow> THREADS k = None \<and> SCHEDULER k = None \<and> finite {p. counts k p \<noteq> 0} \<and> CONTROLLER k = None \<and> TIMER k = None \<and>
     HANDLER_POLICY k = None"

lemma kernel_started:
  assumes "fresh_arcs arc_new" and "fifo sq ql" and "kernel_fresh k" and "distinct (map core_id cores)" and "length cores \<le> MAX_THREAD_ID"
    and "holds_tree dt tr" and "describes tr mc" and "gic_device mm (machine_gic mc) pend act"
  obtains k1 k2 where "thread_init arc_new sq cores k = Some k1" "interrupts_init mm BigEndian dt k1 = Some k2"
    "\<forall>core \<in> set cores. \<exists>idle. switch_ready mm sq ql pend act (core_id core) (machine_gic mc) (machine_timer mc (regs k)) idle [] k2"
proof -
  have tr: "label tr = []" "describes_gic tr mc" "describes_timer tr mc" using assms(7) by (simp_all add: describes_def)
  obtain nodes n nodes' where n: "iter_nodes_named BigEndian dt ''/'' ''intc'' = Some (Some nodes)"
    "nodes_named_next BigEndian dt nodes = Some (Some n, nodes')" "gic_in_device_tree BigEndian dt (properties n) = Some (Inr (machine_gic mc))"
    by (rule gic_found [OF assms(6) tr(1,2)])
  obtain it where it: "iter_node_properties BigEndian dt ''/timer'' = Some (Some it)"
    "\<forall>d. \<exists>d'. timer_in_device_tree BigEndian dt it (gic_controller mm BigEndian (machine_gic mc)) TIMER_INTERVAL (regs k) d =
      Some (Inr (machine_timer mc (regs k)), d')"
    by (rule timer_found [OF assms(6) tr(3), where mm = mm and g = "machine_gic mc" and r = "regs k"]) blast
  obtain d where d: "gic_global_initialize mm (machine_gic mc) (device k) = Some d" by (simp add: gic_global_initialize_def)
  obtain d' where t: "timer_in_device_tree BigEndian dt it (gic_controller mm BigEndian (machine_gic mc)) TIMER_INTERVAL (regs k) d =
      Some (Inr (machine_timer mc (regs k)), d')" using it(2) by blast
  have f: "THREADS k = None" "SCHEDULER k = None" "finite {p. counts k p \<noteq> 0}" "CONTROLLER k = None" "TIMER k = None" "HANDLER_POLICY k = None"
    using assms(3) by (simp_all add: kernel_fresh_def)
  show thesis using kernel_ready_after_init [OF assms(1,2) f(1-3) assms(4,5) f(4-6) n it(1) d t assms(8)] that by blast
qed

text \<open>The state of memory before \<^verbatim>\<open>kmain\<close>: nothing is initialized, and the translation tables are in the image, outside of the
  section that is cleared.\<close>

definition memory_fresh :: "('d, 'q, 'f) Platform \<Rightarrow> ptr \<Rightarrow> MemoryState \<Rightarrow> bool" where
  "memory_fresh pf l ms \<longleftrightarrow> PAGE_ALLOCATOR ms = None \<and> KERNEL_PAGE_TABLES ms = None \<and> ALLOCATOR ms = heap_new_uninit \<and>
     one_level1 (page_table_root pf) l (ram ms) \<and>
     table_bytes FourKiB (page_table_root pf) \<union> table_bytes FourKiB l \<subseteq> {kernel_start (markers pf) ..< kernel_end (markers pf)} \<and>
     (table_bytes FourKiB (page_table_root pf) \<union> table_bytes FourKiB l) \<inter>
       {bss_start (markers pf) ..< bss_start (markers pf) + offset_from (bss_end (markers pf)) (bss_start (markers pf))} = {}"

lemma memory_started:
  assumes "picks_one (one_node pf)" and "picks_one (one_range pf)" and "memory_fresh pf l ms0"
    and "describes_memory (byte_order pf) dt ms ml" and "memory_region (byte_order pf) dt = Some d" and "boot_layout ms ml (markers pf) d"
  obtains mem a where "memory_init (one_node pf) (one_range pf) (byte_order pf) (markers pf) (page_table_root pf) dt
      (ms0\<lparr>ram := zero_bss_section (markers pf) (ram ms0)\<rparr>) = Some mem"
    "PAGE_ALLOCATOR mem = Some a" "buddy_stock 10 (free_units 10 ms ml (markers pf) d) a (ram mem) (free_ram ms ml (markers pf) d)" "page_size a = FourKiB"
    "\<forall>m'. (\<forall>x. x \<notin> free_ram ms ml (markers pf) d \<longrightarrow> m' x = ram mem x) \<longrightarrow> tables_ok (kernel_pt (page_table_root pf)) m' \<and>
      (\<forall>z < ms + div_ceil ml (2 ^ 30) * 2 ^ 30. physical_address_of (kernel_pt (page_table_root pf)) m' (0xffff000000000000 + z) = Some (Some z))"
    "KERNEL_PAGE_TABLES mem = Some (kernel_pt (page_table_root pf))" "\<forall>m'. heap_inv (ALLOCATOR mem) m' []" "page_allocator (ALLOCATOR mem)"
proof -
  let ?r = "page_table_root pf" and ?z = "ms0\<lparr>ram := zero_bss_section (markers pf) (ram ms0)\<rparr>" and ?F = "free_ram ms ml (markers pf) d"
  have f: "PAGE_ALLOCATOR ?z = None" "KERNEL_PAGE_TABLES ?z = None" "ALLOCATOR ?z = heap_new_uninit" "one_level1 ?r l (ram ms0)"
    "table_bytes FourKiB ?r \<union> table_bytes FourKiB l \<subseteq> {kernel_start (markers pf) ..< kernel_end (markers pf)}"
    "(table_bytes FourKiB ?r \<union> table_bytes FourKiB l) \<inter>
       {bss_start (markers pf) ..< bss_start (markers pf) + offset_from (bss_end (markers pf)) (bss_start (markers pf))} = {}"
    using assms(3) by (simp_all add: memory_fresh_def)
  have "\<forall>x \<in> table_bytes FourKiB ?r \<union> table_bytes FourKiB l. ram ?z x = ram ms0 x"
    using f(6) by (auto simp: zero_bss_section_def write_zeroes_def disjoint_iff)
  then have o: "one_level1 ?r l (ram ?z)" by (rule one_level1_frame [OF f(4)])
  have k: "10 < MAX_ORDER" by (simp add: MAX_ORDER_def)
  obtain mem a where i: "memory_init (one_node pf) (one_range pf) (byte_order pf) (markers pf) ?r dt ?z = Some mem"
    "PAGE_ALLOCATOR mem = Some a" "buddy_stock 10 (free_units 10 ms ml (markers pf) d) a (ram mem) ?F" "page_size a = FourKiB" "KERNEL_PAGE_TABLES mem = Some (kernel_pt ?r)" "tables_ok (kernel_pt ?r) (ram mem)"
    "tables_foot (kernel_pt ?r) (ram mem) \<inter> ?F = {}" "heap_inv (ALLOCATOR mem) (ram mem) []" "page_allocator (ALLOCATOR mem)"
    "\<forall>z < ms + div_ceil ml (2 ^ 30) * 2 ^ 30. physical_address_of (kernel_pt ?r) (ram mem) (0xffff000000000000 + z) = Some (Some z)"
    using memory_init_boots [OF assms(1,2,4,5,6) f(1-3) o f(5) k] by blast
  have "tables_ok (kernel_pt ?r) m' \<and>
      (\<forall>z < ms + div_ceil ml (2 ^ 30) * 2 ^ 30. physical_address_of (kernel_pt ?r) m' (0xffff000000000000 + z) = Some (Some z))"
    if m': "\<forall>x. x \<notin> ?F \<longrightarrow> m' x = ram mem x" for m'
  proof -
    have same: "x \<in> foot FourKiB (ram mem) 0 ?r \<Longrightarrow> m' x = ram mem x" for x
      using m' i(7) by (metis disjoint_iff kernel_pt_sel(2,3) tables_foot_def)
    have "wf_table FourKiB m' 0 ?r" using wf_table_frame [of 0 FourKiB "ram mem" ?r m'] i(6) same by (simp add: tables_ok_def)
    moreover have "translate FourKiB m' p 0 ?r = translate FourKiB (ram mem) p 0 ?r" for p by (rule translate_frame) (use same in simp_all)
    then have "physical_address_of (kernel_pt ?r) m' p = physical_address_of (kernel_pt ?r) (ram mem) p" for p
      by (simp add: physical_address_of_def)
    ultimately show ?thesis using i(6,10) by (simp add: tables_ok_def)
  qed
  moreover have "heap_inv (ALLOCATOR mem) m' []" for m' using i(8) by (simp add: heap_inv_def)
  ultimately show thesis using that i(1-5,9) by blast
qed

lemma top_not_free:
  assumes "boot_layout ms ml mk d"
  shows "2 ^ 64 - 1 \<notin> free_ram ms ml mk d"
proof -
  have l: "0 < ms" "ms mod 2 ^ 30 = 0" "ml mod 4096 = 0" "0 < ml" "ms + div_ceil ml (2 ^ 30) * 2 ^ 30 \<le> 2 ^ 39"
    "kernel_start mk \<le> ptr_from_phys ms + ml" "fst d \<le> ptr_from_phys ms + ml"
    using assms by (auto simp: boot_layout_def)
  have "ptr_from_phys ms + ml \<le> 2 ^ 64 - 1" using memory_bounds(2) [OF l(1-5)] by (simp add: usize_max_def)
  then show ?thesis using l(6,7) by (auto simp: free_ram_def)
qed

lemma smp_started:
  assumes "buddy_stock 10 u a m P" and "page_size a = FourKiB" and "2 ^ 64 - 1 \<notin> P" and "machine_cores mc \<noteq> []"
    and "length (filter (\<lambda>i. i \<noteq> 0) (core_ids mc)) \<le> u" and "holds_tree dt tr" and "describes tr mc" and "\<forall>h c. answer h c = 0"
  obtains a' m' calls Q where
    "init_smp (history_fw answer) BigEndian dec buddy_allocate page_size entry dt (machine_cores mc) a m [] = Some (a', m', calls)"
    "Q \<subseteq> P" "buddy_pool a' m' (P - Q)" "stacks_in (phys_from_ptr entry) Q calls" "\<forall>x. x \<notin> P \<longrightarrow> m' x = m x"
    "map fst calls = filter (\<lambda>i. i \<noteq> 0) (core_ids mc)"
proof -
  have f: "map core_id (filter (\<lambda>c. core_id c \<noteq> 0) (machine_cores mc)) = filter (\<lambda>i. i \<noteq> 0) (core_ids mc)"
    by (simp add: machine_cores_def filter_map comp_def)
  then have n: "length (filter (\<lambda>c. core_id c \<noteq> 0) (machine_cores mc)) \<le> u" using assms(5) by (metis length_map)
  have e: "\<forall>c \<in> set (machine_cores mc). enable_method c = ''psci'' @ [nul]" by (simp add: machine_cores_def)
  have ok: "\<forall>h c. psci_error_code_to_result (answer h c) = Inr ()" using assms(8) by (simp add: psci_error_code_to_result_def)
  have p: "psci_in_device_tree BigEndian dt = Some (Inr (machine_psci mc))" using psci_found [OF assms(6)] assms(7) by (simp add: describes_def)
  obtain a' m' calls Q where b: "boot_all_cores dec (psci_power_manager (history_fw answer) (machine_psci mc)) buddy_allocate page_size (machine_cores mc)
      (phys_from_ptr entry) a m [] = Some (Inr (), a', m', calls)"
    "Q \<subseteq> P" "buddy_pool a' m' (P - Q)" "stacks_in (phys_from_ptr entry) Q calls" "\<forall>x. x \<notin> P \<longrightarrow> m' x = m x"
    "map fst calls = filter (\<lambda>i. i \<noteq> 0) (core_ids mc)"
    using boot_all_cores_started [OF assms(1-4) e n ok] unfolding history_fw_pm f by blast
  have "init_smp (history_fw answer) BigEndian dec buddy_allocate page_size entry dt (machine_cores mc) a m [] = Some (a', m', calls)"
    using b(1) p by (simp add: init_smp_def expect_def)
  then show thesis using that b(2-6) by blast
qed

text \<open>What the boot establishes on the machine \<open>mc\<close>, with the device tree in \<open>d\<close> and the stacks of the other cores in \<open>Q\<close>; \<open>r\<close> is the state
  of the registers before the boot.\<close>

definition booted :: "('d, 'q, start_call list) Platform \<Rightarrow> ('q \<Rightarrow> arc list) \<Rightarrow> ('d \<Rightarrow> nat list) \<Rightarrow> ('d \<Rightarrow> nat list) \<Rightarrow> Machine \<Rightarrow>
    ptr \<times> usize \<Rightarrow> SysRegs \<Rightarrow> usize set \<Rightarrow> ('d, 'q, start_call list) System \<Rightarrow> bool" where
  "booted pf ql pend act mc d r Q s \<longleftrightarrow>
     VBAR_EL1 s = vector_label pf \<and> (\<exists>l. LOGGER s = Some (l, machine_uart mc) \<and> ready l []) \<and>
     Q \<subseteq> free_ram (ram_start mc) (ram_size mc) (markers pf) d \<and>
     (\<exists>a. PAGE_ALLOCATOR (memory s) = Some a \<and>
        buddy_pool a (ram (memory s)) (free_ram (ram_start mc) (ram_size mc) (markers pf) d - Q)) \<and>
     KERNEL_PAGE_TABLES (memory s) = Some (kernel_pt (page_table_root pf)) \<and> tables_ok (kernel_pt (page_table_root pf)) (ram (memory s)) \<and>
     (\<forall>z < ram_start mc + div_ceil (ram_size mc) (2 ^ 30) * 2 ^ 30.
        physical_address_of (kernel_pt (page_table_root pf)) (ram (memory s)) (0xffff000000000000 + z) = Some (Some z)) \<and>
     heap_inv (ALLOCATOR (memory s)) (ram (memory s)) [] \<and> page_allocator (ALLOCATOR (memory s)) \<and>
     stacks_in (phys_from_ptr (secondary_label pf)) Q (firmware_state s) \<and>
     map fst (firmware_state s) = filter (\<lambda>i. i \<noteq> 0) (core_ids mc) \<and>
     (\<forall>i \<in> set (core_ids mc). \<exists>idle.
        switch_ready (mmio pf) (seg_queue pf) ql pend act i (machine_gic mc) (machine_timer mc r) idle [] (kernel s)) \<and>
     (\<forall>i. \<not> bit (mask_read (regs (kernel s))) i)"


section \<open>An example\<close>

text \<open>The machine of theory \<^verbatim>\<open>Virt_Tree\<close>: the blob in cells of 8 bytes, behind the image.\<close>

fun le_value :: "bytes \<Rightarrow> nat" where
  "le_value [] = 0"
| "le_value (c # cs) = of_char c + 256 * le_value cs"

definition blob_cells :: "ptr \<Rightarrow> bytes \<Rightarrow> mem \<Rightarrow> mem" where
  "blob_cells p bs m a = (if p \<le> a \<and> a < p + length bs then word_of_nat (le_value (take 8 (drop (a - p) bs))) else m a)"

lemma of_char_small: "(of_char c :: nat) < 256"
  using mod_less_divisor [of 256 "of_char c :: nat"] by (simp only: of_char_mod_256)

lemma le_value_less: "le_value cs < 256 ^ length cs"
proof (induction cs)
  case (Cons c cs)
  have "(of_char c :: nat) < 256" by (rule of_char_small)
  then have "of_char c + 256 * le_value cs < 256 * 256 ^ length cs" using Cons.IH by linarith
  then show ?case by simp
qed simp

lemma le_value_nth: "j < length cs \<Longrightarrow> char_of (le_value cs div 256 ^ j) = cs ! j"
proof (induction cs arbitrary: j)
  case (Cons c cs)
  have c: "(of_char c :: nat) < 256" by (rule of_char_small)
  show ?case
  proof (cases j)
    case 0
    have "char_of (of_char c + 256 * le_value cs) = char_of ((of_char c + 256 * le_value cs) mod 256)" by (simp only: char_of_mod_256)
    also have "(of_char c + 256 * le_value cs) mod 256 = of_char c" using c by simp
    finally show ?thesis using 0 by simp
  next
    case (Suc i)
    have "(of_char c + 256 * le_value cs) div 256 ^ Suc i = (of_char c + 256 * le_value cs) div 256 div 256 ^ i"
      by (simp add: div_mult2_eq)
    also have "(of_char c + 256 * le_value cs) div 256 = le_value cs" using c by simp
    finally show ?thesis using Suc Cons by simp
  qed
qed simp

lemma byte_view_blob:
  assumes "p mod 8 = 0" and "i < length bs"
  shows "byte_view (blob_cells p bs m) (p + i) = bs ! i"
proof -
  let ?j = "i mod 8" and ?cs = "take 8 (drop (i - i mod 8) bs)"
  have le: "?j \<le> i" by simp
  have a: "(p + i) mod 8 = ?j" using assms(1) by (metis add_0 mod_add_left_eq)
  have cell: "blob_cells p bs m (p + i - ?j) = word_of_nat (le_value ?cs)"
  proof -
    have "p + i - ?j = p + (i - ?j)" "i - ?j < length bs" using le assms(2) by linarith+
    then show ?thesis unfolding blob_cells_def by (simp only: le_add1 add_less_cancel_left add_diff_cancel_left' if_True simp_thms)
  qed
  have "256 ^ length ?cs \<le> (256 :: nat) ^ 8" by (rule power_increasing) simp_all
  then have lt: "le_value ?cs < 2 ^ 64" using le_value_less [of ?cs] by simp
  then have u: "unat (word_of_nat (le_value ?cs) :: u64) = le_value ?cs" by (simp add: unat_of_nat)
  have j: "?j < length ?cs" "?cs ! ?j = bs ! i" using le assms(2) by (auto simp: min_def)
  have "byte_view (blob_cells p bs m) (p + i) = char_of (le_value ?cs div 2 ^ (8 * ?j))"
    unfolding byte_view_def a cell unsigned_drop_bit_eq u using lt by (simp add: drop_bit_eq_div take_bit_nat_eq_self)
  also have "2 ^ (8 * ?j) = (256 :: nat) ^ ?j" by (simp add: power_mult)
  finally show ?thesis using le_value_nth [OF j(1)] j(2) by simp
qed

definition virt_platform :: "(nat list \<times> nat list, arc list, start_call list) Platform" where
  "virt_platform = \<lparr> mmio = list_gic \<lparr> distributor_base = ptr_from_phys 0x8000000, cpu_base = ptr_from_phys 0x8010000 \<rparr>,
     byte_order = BigEndian, seg_queue = list_queue, arc_alloc = first_unused, fw_call = history_fw (\<lambda>_ _. 0), one_node = take_one,
     one_range = take_one, lossy_utf8 = id, debug_value = (\<lambda>_. []), decode_utf8 = Some, set_logger_ok = True,
     log_messages = message_example, markers = image_markers 0xffff000041000000, page_table_root = 0xffff000041002000,
     vector_label = 0xffff000041001800, secondary_label = 0xffff000041000040 \<rparr>"

definition virt_system :: "(nat list \<times> nat list, arc list, start_call list) System" where
  "virt_system = \<lparr> kernel = kernel_boot,
     memory = (boot_memory 0xffff000041000000)\<lparr>ram := blob_cells 0xffff000044000000 virt_bytes (ram (boot_memory 0xffff000041000000))\<rparr>,
     LOGGER = None, VBAR_EL1 = 0, firmware_state = [] \<rparr>"

lemma virt_memory_fresh: "memory_fresh virt_platform 0xffff000041003000 (memory virt_system)"
proof -
  let ?b = "0xffff000041000000 :: nat"
  have t: "one_level1 (?b + 0x2000) (?b + 0x3000) (ram (boot_memory ?b))"
    "table_bytes FourKiB (?b + 0x2000) \<union> table_bytes FourKiB (?b + 0x3000) \<subseteq> {kernel_start (image_markers ?b) ..< kernel_end (image_markers ?b)}"
    by (rule boot_memory_tables; simp add: usize_max_def)+
  have "one_level1 (?b + 0x2000) (?b + 0x3000) (blob_cells 0xffff000044000000 virt_bytes (ram (boot_memory ?b)))"
    by (rule one_level1_frame [OF t(1)]) (auto simp: table_bytes_def blob_cells_def)
  then show ?thesis using t(2)
    by (auto simp: memory_fresh_def virt_system_def virt_platform_def boot_memory_def image_markers_def table_bytes_def)
qed

lemma virt_blob_read:
  "map (byte_view (zero_bss_section (image_markers 0xffff000041000000) (ram (memory virt_system))))
     [ptr_from_phys 0x44000000..<ptr_from_phys 0x44000000 + length virt_bytes] = virt_bytes"
proof -
  let ?p = "0xffff000044000000 :: nat" and ?m = "ram (boot_memory 0xffff000041000000)"
  have o: "offset_from 0xffff000041200000 0xffff000041100000 = 0x100000" by (simp add: offset_from_def)
  have z: "zero_bss_section (image_markers 0xffff000041000000) (blob_cells ?p virt_bytes ?m) =
      blob_cells ?p virt_bytes (zero_bss_section (image_markers 0xffff000041000000) ?m)"
    by (auto simp: zero_bss_section_def image_markers_def o write_zeroes_def blob_cells_def fun_eq_iff)
  have "map (byte_view (blob_cells ?p virt_bytes m)) [?p..<?p + length virt_bytes] = virt_bytes" for m
    by (rule nth_equalityI) (simp_all add: byte_view_blob)
  then show ?thesis by (simp add: virt_system_def z ptr_from_phys_add)
qed


end
