(* ===== verification/Exception_Vector.thy ===== *)
theory Exception_Vector
  imports Context_Switch
begin

text \<open>
  The exception vector of the kernel, \<^verbatim>\<open>kernel/src/exceptions/exception_vector.S\<close>: the
  table of branches, and the code that saves the registers on the stack, calls a handler of
  \<^verbatim>\<open>handlers.rs\<close> with a pointer to them and loads them back.  Four of the five handlers only panic.
  A context is what the code works on: the general registers, the stack pointer, memory, in cells of 8 bytes, and the state of
  the kernel that the handler changes.
\<close>

section \<open>Model\<close>

record 'k Context =
  x_regs :: "u64 list"
  sp_reg :: u64
  ram_cells :: mem
  kernel_state :: 'k

definition load :: "u64 \<Rightarrow> mem \<Rightarrow> u64" where
  "load p m = m (unat p)"

definition str :: "u64 \<Rightarrow> u64 \<Rightarrow> mem \<Rightarrow> mem" where
  "str x p m = m(unat p := x)"

definition stp :: "u64 \<Rightarrow> u64 \<Rightarrow> u64 \<Rightarrow> mem \<Rightarrow> mem" where
  "stp x y p m = str y (p + 8) (str x p m)"

definition save_regs :: "u64 list \<Rightarrow> u64 \<Rightarrow> mem \<Rightarrow> mem" where
  "save_regs x sp m = (
     let m = stp (x ! 0) (x ! 1) (sp + 0 * 16) m;
         m = stp (x ! 2) (x ! 3) (sp + 1 * 16) m;
         m = stp (x ! 4) (x ! 5) (sp + 2 * 16) m;
         m = stp (x ! 6) (x ! 7) (sp + 3 * 16) m;
         m = stp (x ! 8) (x ! 9) (sp + 4 * 16) m;
         m = stp (x ! 10) (x ! 11) (sp + 5 * 16) m;
         m = stp (x ! 12) (x ! 13) (sp + 6 * 16) m;
         m = stp (x ! 14) (x ! 15) (sp + 7 * 16) m;
         m = stp (x ! 16) (x ! 17) (sp + 8 * 16) m;
         m = stp (x ! 18) (x ! 19) (sp + 9 * 16) m;
         m = stp (x ! 20) (x ! 21) (sp + 10 * 16) m;
         m = stp (x ! 22) (x ! 23) (sp + 11 * 16) m;
         m = stp (x ! 24) (x ! 25) (sp + 12 * 16) m;
         m = stp (x ! 26) (x ! 27) (sp + 13 * 16) m;
         m = stp (x ! 28) (x ! 29) (sp + 14 * 16) m
     in str (x ! 30) (sp + 15 * 16) m)"

definition ldp :: "u64 \<Rightarrow> mem \<Rightarrow> u64 list" where
  "ldp p m = [load p m, load (p + 8) m]"

definition restore_regs :: "u64 \<Rightarrow> mem \<Rightarrow> u64 list" where
  "restore_regs sp m =
     ldp (sp + 0 * 16) m @ ldp (sp + 1 * 16) m @ ldp (sp + 2 * 16) m @ ldp (sp + 3 * 16) m @ ldp (sp + 4 * 16) m @
     ldp (sp + 5 * 16) m @ ldp (sp + 6 * 16) m @ ldp (sp + 7 * 16) m @ ldp (sp + 8 * 16) m @ ldp (sp + 9 * 16) m @
     ldp (sp + 10 * 16) m @ ldp (sp + 11 * 16) m @ ldp (sp + 12 * 16) m @ ldp (sp + 13 * 16) m @ ldp (sp + 14 * 16) m @
     [load (sp + 15 * 16) m]"

text \<open>The object \<^verbatim>\<open>Registers\<close> that a handler gets a pointer to: an array of 31 words.\<close>

definition read_registers :: "u64 \<Rightarrow> mem \<Rightarrow> xregs" where
  "read_registers p m = map (\<lambda>i. unat (load (p + 8 * word_of_nat i) m)) [0..<31]"

fun write_words :: "u64 \<Rightarrow> u64 list \<Rightarrow> mem \<Rightarrow> mem" where
  "write_words p [] m = m"
| "write_words p (v # vs) m = write_words (p + 8) vs (str v p m)"

text \<open>A handler maps the registers, the two syndrome registers and the state of the kernel to the new registers and state.  The
  memory it uses for its own stack frames, below the saved registers, is not modelled: that a handler leaves all memory above its
  stack pointer alone but the object is the calling convention of the compiled code.\<close>

type_synonym 'k handler = "xregs \<Rightarrow> u64 \<Rightarrow> u64 \<Rightarrow> 'k \<Rightarrow> (xregs \<times> 'k) panics"

definition exception_handler :: "'k handler \<Rightarrow> u64 \<Rightarrow> u64 \<Rightarrow> 'k Context \<Rightarrow> 'k Context panics" where
  "exception_handler fn_to_call esr far c = do {
     let sp = sp_reg c - 8 * 30;
     let m = save_regs (x_regs c) sp (ram_cells c);
     (registers, k) \<leftarrow> fn_to_call (read_registers sp m) esr far (kernel_state c);
     let m = write_words sp (map word_of_nat registers) m;
     let x = restore_regs sp m;
     let sp = sp + 8 * 30;
     Some \<lparr> x_regs = x, sp_reg = sp, ram_cells = m, kernel_state = k \<rparr>
   }"

datatype VectorEntry = handle_synchronous | handle_interrupt_entry | handle_fast_interrupt | handle_system_error | handle_unimplemented

definition exception_vector :: "VectorEntry list" where
  "exception_vector =
     [handle_synchronous, handle_interrupt_entry, handle_fast_interrupt, handle_system_error,
      handle_synchronous, handle_interrupt_entry, handle_fast_interrupt, handle_system_error,
      handle_synchronous, handle_interrupt_entry, handle_fast_interrupt, handle_system_error,
      handle_unimplemented, handle_unimplemented, handle_unimplemented, handle_unimplemented]"

definition vector_handler :: "'d Mmio \<Rightarrow> ByteOrder \<Rightarrow> 'q SegQueue \<Rightarrow> cpu \<Rightarrow> VectorEntry \<Rightarrow> ('d, 'q) Kernel handler" where
  "vector_handler mm bo sq cpu_id e registers esr far k =
     (if e = handle_interrupt_entry then handle_interrupt mm bo sq cpu_id registers k else panic)"

text \<open>The exception with the offset \<open>0x80 * n\<close> in the table.\<close>

definition take_exception :: "'d Mmio \<Rightarrow> ByteOrder \<Rightarrow> 'q SegQueue \<Rightarrow> cpu \<Rightarrow> nat \<Rightarrow> u64 \<Rightarrow> u64 \<Rightarrow>
    ('d, 'q) Kernel Context \<Rightarrow> ('d, 'q) Kernel Context panics" where
  "take_exception mm bo sq cpu_id n esr far c = do {
     e \<leftarrow> nth_p exception_vector n;
     exception_handler (vector_handler mm bo sq cpu_id e) esr far c
   }"

section \<open>The frame\<close>

lemma load_str: "load p (str v q m) = (if p = q then v else load p m)"
  by (simp add: load_def str_def word_unat_eq_iff)

lemma indices_31:
  "[0..<31] = [0, 1, 2, 3, 4, 5, 6, 7, 8, 9, 10, 11, 12, 13, 14, 15, 16, 17, 18, 19, 20, 21, 22, 23, 24, 25, 26, 27, 28, 29, 30]"
  by code_simp

lemma save_regs_words:
  assumes "length x = 31"
  shows "save_regs x sp m = write_words sp x m"
proof -
  have "x = map (nth x) [0..<31]" using assms map_nth [of x] by simp
  then have "write_words sp x m = write_words sp (map (nth x) [0..<31]) m" by simp
  also have "\<dots> = save_regs x sp m" unfolding indices_31 by (simp add: save_regs_def stp_def Let_def ac_simps)
  finally show ?thesis by simp
qed

lemma restore_regs_words: "restore_regs sp m = map (\<lambda>i. load (sp + 8 * word_of_nat i) m) [0..<31]"
  unfolding indices_31 by (simp add: restore_regs_def ldp_def ac_simps)

lemma load_words:
  assumes "length vs \<le> 31"
  shows "i < length vs \<Longrightarrow> load (p + 8 * word_of_nat i) (write_words p vs m) = vs ! i"
    and "(\<And>i. i < length vs \<Longrightarrow> q \<noteq> p + 8 * word_of_nat i) \<Longrightarrow> load q (write_words p vs m) = load q m"
proof -
  have o: "(\<And>i. i < length vs \<Longrightarrow> q \<noteq> p + 8 * word_of_nat i) \<Longrightarrow> load q (write_words p vs m) = load q m" for vs q p m
  proof (induction vs arbitrary: p m)
    case (Cons v vs)
    have "q \<noteq> p" using Cons.prems [of 0] by simp
    moreover have "q \<noteq> p + 8 + 8 * word_of_nat i" if "i < length vs" for i using Cons.prems [of "Suc i"] that by (simp add: algebra_simps)
    ultimately show ?case using Cons.IH [of "p + 8"] by (simp add: load_str)
  qed simp
  then show "(\<And>i. i < length vs \<Longrightarrow> q \<noteq> p + 8 * word_of_nat i) \<Longrightarrow> load q (write_words p vs m) = load q m" .
  have "length vs \<le> 31 \<Longrightarrow> i < length vs \<Longrightarrow> load (p + 8 * word_of_nat i) (write_words p vs m) = vs ! i"
  proof (induction vs arbitrary: p m i)
    case (Cons v vs)
    show ?case
    proof (cases i)
      case 0
      have "p \<noteq> p + 8 + 8 * word_of_nat j" if "j < length vs" for j
      proof -
        have n: "unat (8 + 8 * word_of_nat j :: u64) = 8 + 8 * j"
          using that Cons.prems by (subst unat_add_lem [THEN iffD1] unat_mult_lem [THEN iffD1]; simp add: unat_of_nat unat_mult_lem [THEN iffD1])
        show ?thesis
        proof
          assume "p = p + 8 + 8 * word_of_nat j"
          then have "p + (8 + 8 * word_of_nat j) = p + 0" unfolding add.assoc by simp
          then have "8 + 8 * word_of_nat j = (0 :: u64)" by (rule add_left_imp_eq)
          then show False using n by simp
        qed
      qed
      then show ?thesis using 0 o [of vs p "p + 8"] by (simp add: load_str)
    next
      case (Suc j)
      then show ?thesis using Cons.IH [of j "p + 8"] Cons.prems by (simp add: algebra_simps)
    qed
  qed simp
  then show "i < length vs \<Longrightarrow> load (p + 8 * word_of_nat i) (write_words p vs m) = vs ! i" using assms .
qed

definition registers_ok :: "xregs \<Rightarrow> bool" where
  "registers_ok rs \<longleftrightarrow> length rs = 31 \<and> (\<forall>r \<in> set rs. r < 2 ^ 64)"

lemma exception_handler_spec:
  assumes "length (x_regs c) = 31" and "fn (map unat (x_regs c)) esr far (kernel_state c) = Some (rs, k)" and "length rs = 31"
  obtains c' where "exception_handler fn esr far c = Some c'" "x_regs c' = map word_of_nat rs" "sp_reg c' = sp_reg c" "kernel_state c' = k"
    "load (sp_reg c) (ram_cells c') = word_of_nat (rs ! 30)"
    "\<forall>q. (\<forall>i < 31. q \<noteq> sp_reg c - 240 + 8 * word_of_nat i) \<longrightarrow> load q (ram_cells c') = load q (ram_cells c)"
proof -
  let ?sp = "sp_reg c - 240" and ?v = "map word_of_nat rs :: u64 list"
  let ?m = "write_words ?sp (x_regs c) (ram_cells c)"
  let ?m' = "write_words ?sp ?v ?m"
  have "read_registers ?sp ?m = map (\<lambda>i. unat (x_regs c ! i)) [0..<31]"
    unfolding read_registers_def using assms(1) by (intro map_cong) (simp_all add: load_words(1))
  also have "\<dots> = map unat (x_regs c)" using assms(1) by (intro nth_equalityI) simp_all
  finally have r: "read_registers ?sp ?m = map unat (x_regs c)" .
  have "restore_regs ?sp ?m' = map (nth ?v) [0..<31]"
    unfolding restore_regs_words using assms(3) load_words(1) [of ?v] by (intro map_cong) (simp_all add: nth_map [symmetric] del: nth_map)
  also have "\<dots> = ?v" using assms(3) map_nth [of ?v] by simp
  finally have "exception_handler fn esr far c = Some \<lparr> x_regs = ?v, sp_reg = sp_reg c, ram_cells = ?m', kernel_state = k \<rparr>"
    using r assms(2) save_regs_words [OF assms(1)] by (simp add: exception_handler_def Let_def)
  moreover have "load (?sp + 8 * word_of_nat 30) ?m' = ?v ! 30" by (rule load_words(1)) (use assms(3) in simp_all)
  moreover have "load q ?m' = load q (ram_cells c)" if "\<forall>i < 31. q \<noteq> ?sp + 8 * word_of_nat i" for q
    using that assms(1,3) load_words(2) [of ?v q ?sp ?m] load_words(2) [of "x_regs c" q ?sp] by simp
  ultimately show thesis using that assms(3) by simp
qed

section \<open>Properties\<close>

text \<open>C4: a timer interrupt, from the exception vector on: the registers of the core are saved in the thread that
  was running, and the core resumes with the complete saved state of the thread that the scheduler selects, on
  the same kernel stack; no memory changes but the frame of 31 words from 240 bytes below the stack pointer.\<close>

theorem interrupt_entry_switches_threads:
  assumes "switch_ready mm sq ql pend act cpu_id g t cur ts (kernel_state c)" and "pend (device (kernel_state c)) = replicate n (int_id t)"
    and "length (x_regs c) = 31" and "\<forall>th \<in> set ts. registers_ok (ps_registers (processor_state (thread_objs (kernel_state c) th)))"
    and "v \<in> {1, 5, 9}"
  shows "\<exists>c' cur' ts'. take_exception mm bo sq cpu_id v esr far c = Some c' \<and>
    (cur', ts') = (slice_spec (runnable (thread_objs (kernel_state c))) ^^ n) (cur, ts) \<and>
    processor_state (thread_objs (kernel_state c') cur) = processor_at (regs (kernel_state c)) (map unat (x_regs c)) \<and>
    processor_at (regs (kernel_state c')) (map unat (x_regs c')) = processor_state (thread_objs (kernel_state c') cur') \<and>
    sp_reg c' = sp_reg c \<and>
    (\<forall>q. (\<forall>i < 31. q \<noteq> sp_reg c - 240 + 8 * word_of_nat i) \<longrightarrow> load q (ram_cells c') = load q (ram_cells c))"
proof -
  let ?k = "kernel_state c" and ?x = "map unat (x_regs c)"
  obtain rs k' cur' ts' where h: "handle_interrupt mm bo sq cpu_id ?x ?k = Some (rs, k')"
    "(cur', ts') = (slice_spec (runnable (thread_objs ?k)) ^^ n) (cur, ts)"
    "processor_state (thread_objs k' cur) = processor_at (regs ?k) ?x" "\<forall>th. th \<noteq> cur \<longrightarrow> thread_objs k' th = thread_objs ?k th"
    "processor_at (regs k') rs = processor_state (thread_objs k' cur')"
    using handle_timer_interrupts [OF assms(1,2), of bo ?x] by blast
  have "cur' \<in> insert cur (set ts)" using sliced_threads [of n "runnable (thread_objs ?k)" "(cur, ts)"] unfolding h(2) [symmetric] by auto
  have rs: "rs = ps_registers (processor_state (thread_objs k' cur'))" using h(5) by (metis ProcessorState.select_convs(4) processor_at_def)
  have ok: "registers_ok rs"
  proof (cases "cur' = cur")
    case True
    then show ?thesis using rs h(3) assms(3) unsigned_less [where ?'b = 64 and ?'a = nat] by (auto simp: processor_at_def registers_ok_def)
  next
    case False
    then show ?thesis using rs h(4) assms(4) \<open>cur' \<in> insert cur (set ts)\<close> by simp
  qed
  have e: "nth_p exception_vector v = Some handle_interrupt_entry" using assms(5) by (auto simp: exception_vector_def)
  have f: "vector_handler mm bo sq cpu_id handle_interrupt_entry ?x esr far ?k = Some (rs, k')" using h(1) by (simp add: vector_handler_def)
  have l: "length rs = 31" using ok by (simp add: registers_ok_def)
  obtain c' where c': "exception_handler (vector_handler mm bo sq cpu_id handle_interrupt_entry) esr far c = Some c'"
    "x_regs c' = map word_of_nat rs" "sp_reg c' = sp_reg c" "kernel_state c' = k'"
    "load (sp_reg c) (ram_cells c') = word_of_nat (rs ! 30)"
    "\<forall>q. (\<forall>i < 31. q \<noteq> sp_reg c - 240 + 8 * word_of_nat i) \<longrightarrow> load q (ram_cells c') = load q (ram_cells c)"
    by (rule exception_handler_spec [where fn = "vector_handler mm bo sq cpu_id handle_interrupt_entry" and esr = esr and far = far, OF assms(3) f l])
  have "map unat (x_regs c') = rs" unfolding c'(2) using ok by (auto simp: registers_ok_def unat_of_nat intro!: map_idI)
  moreover have "take_exception mm bo sq cpu_id v esr far c = Some c'" unfolding take_exception_def e using c'(1) by simp
  ultimately show ?thesis using c'(3,4,6) h(2,3,5) by (intro exI [of _ c'] exI [of _ cur'] exI [of _ ts']) simp
qed

theorem interrupt_entry_switches_threads_witness:
  "\<exists>c'. take_exception (list_gic virt_gic) BigEndian list_queue 0 5 0 0
      \<lparr> x_regs = replicate 31 7, sp_reg = 0x1000, ram_cells = (\<lambda>_. 0), kernel_state = kernel_example [30] \<rparr> = Some c' \<and>
    processor_at (regs (kernel_state c')) (map unat (x_regs c')) = processor_state (thread_objs (kernel_state c') 32) \<and>
    processor_state (thread_objs (kernel_state c') 8) = processor_at (regs (kernel_example [30])) (replicate 31 7)"
proof -
  let ?c = "\<lparr> x_regs = replicate 31 7, sp_reg = 0x1000, ram_cells = (\<lambda>_. 0), kernel_state = kernel_example [30] \<rparr>"
  have "switch_ready (list_gic virt_gic) list_queue id (\<lambda>(p, q). takeWhile (\<lambda>i. i \<noteq> 1023) p) snd 0 virt_gic timer30 8 [16, 32, 48] (kernel_state ?c)"
    using kernel_example_ready by simp
  from interrupt_entry_switches_threads [OF this, of 1 5 BigEndian 0 0] show ?thesis
    by (auto simp: kernel_example_def timer30_def slice_spec_def runnable_def thread_example_state registers_ok_def thread_example_def [of "16"]
        thread_example_def [of "32"] thread_example_def [of "48"])
qed

text \<open>C35: the frame that is reserved for the registers is one word too short: the last register is stored in the
  word at the stack pointer of the interrupted code, whose contents are lost when the handler returns.\<close>

theorem exception_frame_overwrites_stack:
  assumes "length (x_regs c) = 31" and "fn (map unat (x_regs c)) esr far (kernel_state c) = Some (rs, k)" and "length rs = 31"
  shows "\<exists>c'. exception_handler fn esr far c = Some c' \<and> sp_reg c' = sp_reg c \<and>
    load (sp_reg c') (ram_cells c') = word_of_nat (rs ! 30)"
proof -
  obtain c' where "exception_handler fn esr far c = Some c'" "sp_reg c' = sp_reg c" "load (sp_reg c) (ram_cells c') = word_of_nat (rs ! 30)"
    by (rule exception_handler_spec [where fn = fn and esr = esr and far = far, OF assms])
  then show ?thesis by auto
qed

theorem exception_frame_overwrites_stack_witness:
  "\<exists>c'. exception_handler (\<lambda>r esr far k. Some (r, k)) 0 0
      \<lparr> x_regs = replicate 31 7, sp_reg = 0x1000, ram_cells = (\<lambda>_. 0), kernel_state = () \<rparr> = Some c' \<and>
    sp_reg c' = 0x1000 \<and> load (sp_reg c') (ram_cells c') = 7"
  using exception_frame_overwrites_stack [of "\<lparr> x_regs = replicate 31 7, sp_reg = 0x1000, ram_cells = (\<lambda>_. 0), kernel_state = () \<rparr>"
    "\<lambda>r esr far k. Some (r, k)" 0 0 "replicate 31 7" "()"] by (simp add: nth_replicate)

end
