(* ===== verification/Spec2Isabelle.thy ===== *)
theory Spec2Isabelle
  imports Boot Exception_Vector
begin

text \<open>
  Verification of the Cavern kernel, a microkernel for 64-bit ARM machines in Rust: the library \<^verbatim>\<open>kernel_core\<close> and
  the kernel proper, \<^verbatim>\<open>kernel\<close>, with its two assembly files.

  The assembly entry \<^verbatim>\<open>start.S\<close> makes the first translation tables, turns the MMU on and calls \<^verbatim>\<open>kmain\<close>.
  \<^verbatim>\<open>kmain\<close> opens the device tree, sets up the log on the serial port, gives the memory outside of the image and the
  device tree to the buddy allocator, maps it, starts the heap, creates an idle thread per core, finds the interrupt controller and the
  timer, starts the other cores through the firmware and enables interrupts.  From then on the kernel
  only runs from the exception vector: a timer interrupt saves the registers in the current thread, lets the scheduler choose
  the next one and loads its registers.

  \<^bold>\<open>Theories and sources\<close>

  Each theory starts with its model, one definition for each function of the source with the same name where Isabelle allows
  it; what follows is specification and proof.

  \<^item> \<open>Kernel_Prelude\<close>: panics, checked arithmetic of machine integers, slices, and the lemmas and collections that the others share.
  \<^item> \<open>Addresses\<close> and \<open>Page_Alloc\<close>: \<^verbatim>\<open>kernel_core/src/memory/mod.rs\<close>, physical and virtual pointers, page sizes, and
    the trait \<^verbatim>\<open>PageAllocator\<close>, whose contract is the locale \<open>page_source\<close>.
  \<^item> \<open>Buddy\<close>: \<^verbatim>\<open>memory/buddy.rs\<close>.  The free lists are lists in memory; \<open>buddy_inv\<close> is the invariant, \<open>buddy_pool\<close> the view as a set of
    free bytes, \<open>buddy_stock\<close> adds for how many blocks of an order there is room.  Interpretation \<open>buddy\<close> of \<open>page_source\<close>.
  \<^item> \<open>Subtract_Ranges\<close>: \<^verbatim>\<open>memory/subtract_ranges.rs\<close>.
  \<^item> \<open>Page_Table\<close> and \<open>Page_Map\<close>: \<^verbatim>\<open>memory/page_table.rs\<close>, first the entries and the operations, then what they do to well-formed
    tables (\<open>tables_ok\<close>) in terms of the translation of addresses.
  \<^item> \<open>Heap\<close>: \<^verbatim>\<open>memory/heap.rs\<close>, over any \<open>page_source\<close>; \<open>heap_inv\<close> is the invariant.
  \<^item> \<open>Handle_Alloc\<close>, \<open>Handle_Map\<close>, \<open>Arc_Swap\<close>: \<^verbatim>\<open>collections/\<close>.  The handle allocator has a sequential model, an interpretation of the
    locale \<open>handle_pool\<close> that the handle map is a client of, and a model with one step per
    atomic access of any number of cores, as an inductive relation.
  \<^item> \<open>Threads\<close>, \<open>Scheduler\<close>: \<^verbatim>\<open>process/thread/\<close>.
  \<^item> \<open>Fdt\<close>, \<open>Device_Tree\<close>, \<open>Device_Tree_Lookup\<close>: \<^verbatim>\<open>platform/device_tree/\<close>, from bytes to tokens, from tokens to lookups, and the lookups in
    terms of trees of nodes.  \<open>Tree_Search\<close> has the lemmas with which drivers find what a tree says; \<open>Virt_Tree\<close> is the tree of a
    concrete machine.
  \<^item> \<open>Cpu\<close>, \<open>Psci\<close>: \<^verbatim>\<open>platform/cpu.rs\<close> and \<^verbatim>\<open>kernel/src/psci.rs\<close>, finding and starting the cores.
  \<^item> \<open>Interrupts\<close>, \<open>Gic2\<close>, \<open>Timer\<close>, \<open>Exceptions\<close>: \<^verbatim>\<open>exceptions/interrupt/\<close>, \<^verbatim>\<open>platform/timer.rs\<close>, \<^verbatim>\<open>exceptions/mod.rs\<close> and the drivers
    \<^verbatim>\<open>gic2.rs\<close> and \<^verbatim>\<open>timer.rs\<close> of the kernel.  The locale \<open>interrupt_policy\<close> is what the policy needs of
    controller, timer and scheduler; the interpretation \<open>gic_policy\<close> is on the drivers.
  \<^item> \<open>Logger\<close>, \<open>Uart\<close>: \<^verbatim>\<open>logger.rs\<close>, \<^verbatim>\<open>uart.rs\<close>, \<^verbatim>\<open>logging.rs\<close>.
  \<^item> \<open>Start\<close>, \<open>Exception_Vector\<close>: the assembly files, on a state of registers and memory.
  \<^item> \<open>Context_Switch\<close>, \<open>Kernel_Init\<close>: \<^verbatim>\<open>thread.rs\<close>, \<^verbatim>\<open>handlers.rs\<close>, \<^verbatim>\<open>exceptions/interrupt/mod.rs\<close> of the kernel and parts of \<^verbatim>\<open>main.rs\<close>, on
    the record \<open>Kernel\<close> of the global variables.
  \<^item> \<open>Memory_Init\<close>: \<^verbatim>\<open>memory.rs\<close> and \<^verbatim>\<open>running_image.rs\<close>, on the record \<open>MemoryState\<close>.
  \<^item> \<open>Machine_Tree\<close>: what bytes a device tree must have to describe a machine, and that every search of the kernel finds
    it; no model of code.
  \<^item> \<open>Boot\<close>: \<^verbatim>\<open>main.rs\<close>, on the record \<open>System\<close> that puts the states together.

  \<^bold>\<open>Conventions\<close>

  A panic, also by overflow, index or assertion, is \<open>None\<close> of the type \<open>panics\<close>; a Rust \<^verbatim>\<open>Result\<close> is a sum with the
  error to the left.  Integers of the code are natural numbers with checked operations, as in a build with overflow checks; where the code
  works on bits they are words.  Memory is a function from the addresses of cells of 8 bytes to
  words, so that addresses in use are multiples of 8, and byte strings are lists of characters.  An \<^verbatim>\<open>Arc\<close> is the address of an object,
  with a function for the strong counts.

  Loops are structural or have a termination proof with a measure.  The few functions with \<open>partial_function\<close> walk linked lists in
  memory or iterators; the theorems on them state that they return.  There is no fuel anywhere.

  \<^bold>\<open>What is shown\<close>

  \<^item> The boot: on every machine that a device tree describes in the sense of \<open>describes\<close>, laid out in the sense of \<open>boot_layout\<close>, \<^verbatim>\<open>kmain\<close> reaches its
    last loop, in a state that satisfies the invariants of all components.  The invariants are those
    that the theorems on interrupts, memory and logging start from.
  \<^item> Memory: the buddy allocator, the page tables and the heap return only memory that was free, keep their invariants and touch nothing else;
    errors are characterised.  The operations on page tables are exact in terms of the translation of all addresses.
  \<^item> Collections: the concurrent handle allocator refines a set, makes progress, and the map refines a finite map with exact reference counts.
  \<^item> Scheduling and interrupts: the scheduler refines a rotation and is fair; a timer interrupt, from the vector to the return, switches
    threads with complete register states; the drivers write exactly the registers meant.
  \<^item> Device tree and log: round trips from trees to tokens to lookups, and from records to bytes at the port.
  \<^item> Defects of the code, as theorems: the free of a block whose buddy is the lower one, unaligned regions, runs of pages across 1
    GiB, handles out of range, the race of load and swap, a device tree below the image, the frame of the exception vector,
    unknown interrupts, alignments in the heap, double free, and overflow of the log.

  \<^bold>\<open>Parameters and hypotheses\<close>

  Code that is not in the sources is a parameter: \<^verbatim>\<open>SegQueue\<close> (\<open>fifo\<close>: it is a queue), the allocation of an \<^verbatim>\<open>Arc\<close> (\<open>fresh_arcs\<close>), the byte
  order library (\<open>big_endian\<close>), the choice of the only element of an iterator (\<open>picks_one\<close>), the firmware (\<open>history_fw\<close>: it answers, depending on the
  history), decoding of UTF-8, registration with the log crate and the texts of messages.  Devices are a parameter with read and write
  functions; \<open>gic_device\<close> says what the acknowledge and end-of-interrupt registers do, without priorities, and \<open>dist_mmio\<close> is a distributor with the
  register layout of the architecture.  Every hypothesis has an instance in the witnesses.

  \<^bold>\<open>Not modelled\<close>

  \<^item> Concurrent calls of the buddy allocator, the heap, the handle map and the logger: their models are of one call at a time, in which the
    retries of compare-and-exchange do not occur.  Weak memory is not modelled.
  \<^item> The messages to the log after its setup, the debug printers, and \<^verbatim>\<open>process/mod.rs\<close>, which only declares modules.
  \<^item> The stack that the compiled code uses; in particular, an exception handler changes no memory in the model but the
    saved registers.
  \<^item> Caches and the TLB: translation always reads the tables.  Interrupt priorities in the controller.
  \<^item> Instructions without effect on the state, such as waiting for an interrupt; the loops around them end the model.
\<close>

end
